(* ===== verification/LevelDB_Prelude.thy ===== *)
theory LevelDB_Prelude
  imports Main "HOL-Library.Word"
begin

text \<open>
  Types and generic facts shared by every component of the LevelDB development.

  A C++ \<^verbatim>\<open>char\<close> is a byte (\<open>8 word\<close>), a \<^verbatim>\<open>uint32_t\<close> is a \<open>32 word\<close> and a
  \<^verbatim>\<open>uint64_t\<close> is a \<open>64 word\<close>, so that every conversion that truncates is visible
  as a \<open>ucast\<close>. A \<^verbatim>\<open>Slice\<close> or a \<^verbatim>\<open>std::string\<close> is the list of its bytes, and a
  pair of pointers \<^verbatim>\<open>[p, limit)\<close> is the list of the bytes between them.
\<close>

unbundle bit_operations_syntax

type_synonym byte = "8 word"
type_synonym u32 = "32 word"
type_synonym u64 = "64 word"
type_synonym slice = "byte list"

text \<open>The bytes of a C string literal.\<close>

definition str :: "string \<Rightarrow> slice" where
  "str s = map of_char s"

text \<open>Overwriting the bytes of \<open>xs\<close> from position \<open>off\<close> on, as \<^verbatim>\<open>memcpy(&xs[off], ...)\<close>.\<close>

definition patch :: "'a list \<Rightarrow> nat \<Rightarrow> 'a list \<Rightarrow> 'a list" where
  "patch xs off ys = take off xs @ ys @ drop (off + length ys) xs"

text \<open>\<^verbatim>\<open>std::string::resize\<close>: cut, or pad with zero bytes.\<close>

definition resize :: "slice \<Rightarrow> nat \<Rightarrow> slice" where
  "resize s n = take n s @ replicate (n - length s) 0"

named_theorems codec_simps \<open>what a decoder returns on the output of its encoder\<close>
named_theorems codec_lengths \<open>lengths of encodings\<close>
named_theorems status_simps \<open>which status codes are ok\<close>

subsection \<open>Lists\<close>

lemma length_patch [simp]:
  "off + length ys \<le> length xs \<Longrightarrow> length (patch xs off ys) = length xs"
  by (simp add: patch_def)

lemma drop_patch:
  "off + length ys \<le> length xs \<Longrightarrow> off + length ys \<le> n \<Longrightarrow> drop n (patch xs off ys) = drop n xs"
  by (simp add: patch_def)

lemma take_patch:
  "off + length ys \<le> length xs \<Longrightarrow> n \<le> off \<Longrightarrow> take n (patch xs off ys) = take n xs"
  by (simp add: patch_def min_absorb1)

lemma drop_patch_same:
  "off + length ys \<le> length xs \<Longrightarrow>
   drop off (patch xs off ys) = ys @ drop (off + length ys) xs"
  by (simp add: patch_def)

lemma length_resize [simp]: "length (resize s n) = n"
  by (simp add: resize_def)

lemma resize_short: "n \<le> length s \<Longrightarrow> resize s n = take n s"
  by (simp add: resize_def)

lemma take_append_exact: "n = length xs \<Longrightarrow> take n (xs @ ys) = xs"
  by simp

lemma drop_append_exact: "n = length xs \<Longrightarrow> drop n (xs @ ys) = ys"
  by simp

subsection \<open>Words\<close>

lemma unat_drop_bit_word: "unat (drop_bit n (w :: 'a::len word)) = unat w div 2 ^ n"
  by (rule bit_eqI) (simp add: bit_simps flip: drop_bit_eq_div)

lemma unat_word_of_nat_small:
  "n < 2 ^ LENGTH('a) \<Longrightarrow> unat (word_of_nat n :: 'a::len word) = n"
  by (simp add: unat_of_nat take_bit_nat_eq_self)

lemma unat_lt_exp: "unat (w :: 'a::len word) < 2 ^ LENGTH('a)"
  by simp

lemma unat_ucast_up:
  assumes "LENGTH('a) \<le> LENGTH('b)"
  shows "unat (ucast (w :: 'a::len word) :: 'b::len word) = unat w"
proof -
  have "unat w < 2 ^ LENGTH('b)"
    using unat_lt_exp [of w] power_increasing [OF assms, of "2::nat"] by linarith
  then show ?thesis by (simp add: unsigned_ucast_eq take_bit_nat_eq_self)
qed

lemma bit_int_128: "bit (128 :: int) n \<longleftrightarrow> n = 7"
  using bit_exp_iff [of 7 n, where ?'a = int] by auto

lemma bit_int_127: "bit (127 :: int) n \<longleftrightarrow> n < 7"
  using bit_mask_iff [of 7 n, where ?'a = int] by (auto simp: mask_eq_exp_minus_1)

lemma bit_int_255: "bit (255 :: int) n \<longleftrightarrow> n < 8"
  using bit_mask_iff [of 8 n, where ?'a = int] by (auto simp: mask_eq_exp_minus_1)

lemmas bit_masks = bit_int_128 bit_int_127 bit_int_255

lemma and_128_eq_0_iff: "7 < LENGTH('a) \<Longrightarrow> (w :: 'a::len word) AND 128 = 0 \<longleftrightarrow> \<not> bit w 7"
  unfolding bit_eq_iff [where ?'a = "'a word"] by (auto simp: bit_and_iff bit_masks)

lemma byte_bit_high: "8 \<le> n \<Longrightarrow> \<not> bit (b :: byte) n"
  by (auto dest: bit_imp_le_length)

text \<open>\<^verbatim>\<open>%u\<close> and \<^verbatim>\<open>%llu\<close>: the decimal digits of an unsigned number.\<close>

fun decimal :: "nat \<Rightarrow> slice" where
  "decimal n = (if n < 10 then [word_of_nat (48 + n)] else decimal (n div 10) @ [word_of_nat (48 + n mod 10)])"

declare decimal.simps [simp del]

end
