(* ===== verification/Coding.thy ===== *)
theory Coding
  imports LevelDB_Prelude
begin

text \<open>
  Fixed-width and variable-length integer encodings: \<^verbatim>\<open>util/coding.h\<close> and
  \<^verbatim>\<open>util/coding.cpp\<close>.

  An encoder that stores at \<^verbatim>\<open>dst\<close> and returns the advanced pointer is the list of the
  bytes it stores. A decoder that takes \<^verbatim>\<open>[p, limit)\<close> and returns the advanced pointer
  or \<^verbatim>\<open>NULL\<close> is an option of the decoded value and of the bytes that are left.
\<close>

subsection \<open>Fixed-width integers (little endian)\<close>

definition EncodeFixed32 :: "u32 \<Rightarrow> slice" where
  "EncodeFixed32 value =
     [ucast value, ucast (drop_bit 8 value), ucast (drop_bit 16 value), ucast (drop_bit 24 value)]"

definition EncodeFixed64 :: "u64 \<Rightarrow> slice" where
  "EncodeFixed64 value =
     [ucast value, ucast (drop_bit 8 value), ucast (drop_bit 16 value), ucast (drop_bit 24 value),
      ucast (drop_bit 32 value), ucast (drop_bit 40 value), ucast (drop_bit 48 value),
      ucast (drop_bit 56 value)]"

definition PutFixed32 :: "slice \<Rightarrow> u32 \<Rightarrow> slice" where
  "PutFixed32 dst value = dst @ EncodeFixed32 value"

definition PutFixed64 :: "slice \<Rightarrow> u64 \<Rightarrow> slice" where
  "PutFixed64 dst value = dst @ EncodeFixed64 value"

definition DecodeFixed32 :: "slice \<Rightarrow> u32" where
  "DecodeFixed32 ptr =
     ucast (ptr ! 0) OR push_bit 8 (ucast (ptr ! 1)) OR push_bit 16 (ucast (ptr ! 2))
     OR push_bit 24 (ucast (ptr ! 3))"

definition DecodeFixed64 :: "slice \<Rightarrow> u64" where
  "DecodeFixed64 ptr =
     ucast (ptr ! 0) OR push_bit 8 (ucast (ptr ! 1)) OR push_bit 16 (ucast (ptr ! 2))
     OR push_bit 24 (ucast (ptr ! 3)) OR push_bit 32 (ucast (ptr ! 4))
     OR push_bit 40 (ucast (ptr ! 5)) OR push_bit 48 (ucast (ptr ! 6))
     OR push_bit 56 (ucast (ptr ! 7))"

subsection \<open>Variable-length integers\<close>

definition EncodeVarint32 :: "u32 \<Rightarrow> slice" where
  "EncodeVarint32 v = (let B = 128 in
     if v < push_bit 7 1 then [ucast v]
     else if v < push_bit 14 1 then [ucast (v OR B), ucast (drop_bit 7 v)]
     else if v < push_bit 21 1 then
       [ucast (v OR B), ucast (drop_bit 7 v OR B), ucast (drop_bit 14 v)]
     else if v < push_bit 28 1 then
       [ucast (v OR B), ucast (drop_bit 7 v OR B), ucast (drop_bit 14 v OR B),
        ucast (drop_bit 21 v)]
     else
       [ucast (v OR B), ucast (drop_bit 7 v OR B), ucast (drop_bit 14 v OR B),
        ucast (drop_bit 21 v OR B), ucast (drop_bit 28 v)])"

definition PutVarint32 :: "slice \<Rightarrow> u32 \<Rightarrow> slice" where
  "PutVarint32 dst value = dst @ EncodeVarint32 value"

lemma unat_drop_bit_7_less: "128 \<le> v \<Longrightarrow> unat (drop_bit 7 v) < unat (v :: u64)"
  by (simp add: unat_drop_bit_word word_le_nat_alt)

function EncodeVarint64 :: "u64 \<Rightarrow> slice" where
  "EncodeVarint64 v =
     (if v \<ge> 128 then ucast ((v AND 127) OR 128) # EncodeVarint64 (drop_bit 7 v)
      else [ucast v])"
  by pat_completeness auto
termination
  by (relation "measure unat") (auto intro: unat_drop_bit_7_less)

definition PutVarint64 :: "slice \<Rightarrow> u64 \<Rightarrow> slice" where
  "PutVarint64 dst value = dst @ EncodeVarint64 value"

function VarintLengthLoop :: "u64 \<Rightarrow> nat \<Rightarrow> nat" where
  "VarintLengthLoop v len =
     (if v \<ge> 128 then VarintLengthLoop (drop_bit 7 v) (Suc len) else len)"
  by pat_completeness auto
termination
  by (relation "measure (\<lambda>(v, len). unat v)") (auto intro: unat_drop_bit_7_less)

definition VarintLength :: "u64 \<Rightarrow> nat" where
  "VarintLength v = VarintLengthLoop v 1"

declare EncodeVarint64.simps [simp del] VarintLengthLoop.simps [simp del]

text \<open>
  The loop of \<^verbatim>\<open>GetVarint32PtrFallback\<close> (last shift 28, \<^verbatim>\<open>uint32_t\<close>) and of
  \<^verbatim>\<open>GetVarint64Ptr\<close> (last shift 63, \<^verbatim>\<open>uint64_t\<close>): the two bodies are the same text.
\<close>

fun GetVarintLoop :: "nat \<Rightarrow> nat \<Rightarrow> 'a::len word \<Rightarrow> slice \<Rightarrow> ('a word \<times> slice) option" where
  "GetVarintLoop last_shift shift result [] = None"
| "GetVarintLoop last_shift shift result (b # p) =
     (if shift \<le> last_shift then
        let byte = ucast b in
        if byte AND 128 \<noteq> 0
        then GetVarintLoop last_shift (shift + 7) (result OR push_bit shift (byte AND 127)) p
        else Some (result OR push_bit shift byte, p)
      else None)"

definition GetVarint32PtrFallback :: "slice \<Rightarrow> (u32 \<times> slice) option" where
  "GetVarint32PtrFallback p = GetVarintLoop 28 0 0 p"

definition GetVarint32Ptr :: "slice \<Rightarrow> (u32 \<times> slice) option" where
  "GetVarint32Ptr p =
     (case p of
        b # q \<Rightarrow>
          (let result = ucast b in
           if result AND (128 :: u32) = 0 then Some (result, q) else GetVarint32PtrFallback p)
      | [] \<Rightarrow> GetVarint32PtrFallback p)"

definition GetVarint64Ptr :: "slice \<Rightarrow> (u64 \<times> slice) option" where
  "GetVarint64Ptr p = GetVarintLoop 63 0 0 p"

text \<open>
  \<^verbatim>\<open>GetVarint32\<close> and \<^verbatim>\<open>GetVarint64\<close> replace \<^verbatim>\<open>*input\<close> by what is left and return true,
  or leave it as it is and return false.
\<close>

definition GetVarint32 :: "slice \<Rightarrow> (u32 \<times> slice) option" where
  "GetVarint32 input = GetVarint32Ptr input"

definition GetVarint64 :: "slice \<Rightarrow> (u64 \<times> slice) option" where
  "GetVarint64 input = GetVarint64Ptr input"

subsection \<open>Length-prefixed slices\<close>

definition PutLengthPrefixedSlice :: "slice \<Rightarrow> slice \<Rightarrow> slice" where
  "PutLengthPrefixedSlice dst value = PutVarint32 dst (word_of_nat (length value)) @ value"

text \<open>
  On failure \<^verbatim>\<open>*input\<close> may already have lost the length prefix; the callers only report
  the failure, so the failure carries no input.
\<close>

definition GetLengthPrefixedSlice :: "slice \<Rightarrow> (slice \<times> slice) option" where
  "GetLengthPrefixedSlice input =
     (case GetVarint32 input of
        None \<Rightarrow> None
      | Some (len, input') \<Rightarrow>
          (if length input' \<ge> unat len
           then Some (take (unat len) input', drop (unat len) input') else None))"

text \<open>
  The overload of \<^verbatim>\<open>GetLengthPrefixedSlice\<close> on \<^verbatim>\<open>[p, limit)\<close>.
\<close>

definition GetLengthPrefixedSlicePtr :: "slice \<Rightarrow> (slice \<times> slice) option" where
  "GetLengthPrefixedSlicePtr p =
     (case GetVarint32Ptr p of
        None \<Rightarrow> None
      | Some (len, p') \<Rightarrow>
          (if unat len > length p' then None
           else Some (take (unat len) p', drop (unat len) p')))"

subsection \<open>Lengths\<close>

lemma length_EncodeFixed32 [simp, codec_lengths]: "length (EncodeFixed32 v) = 4"
  by (simp add: EncodeFixed32_def)

lemma length_EncodeFixed64 [simp, codec_lengths]: "length (EncodeFixed64 v) = 8"
  by (simp add: EncodeFixed64_def)

lemma EncodeVarint32_not_Nil [simp]: "EncodeVarint32 v \<noteq> []"
  by (simp add: EncodeVarint32_def Let_def)

lemma EncodeVarint64_not_Nil [simp]: "EncodeVarint64 v \<noteq> []"
  by (subst EncodeVarint64.simps) simp

lemma VarintLengthLoop_eq: "VarintLengthLoop v len = len + length (EncodeVarint64 v) - 1"
proof (induction v len rule: VarintLengthLoop.induct)
  case (1 v len)
  then show ?case
    by (cases "128 \<le> v") (auto simp: VarintLengthLoop.simps [of v] EncodeVarint64.simps [of v]
        Suc_le_eq simp flip: length_greater_0_conv)
qed

lemma VarintLength_eq: "VarintLength v = length (EncodeVarint64 v)"
  by (simp add: VarintLength_def VarintLengthLoop_eq)

subsection \<open>Round trips\<close>

lemma DecodeFixed32_Encode [simp, codec_simps]: "DecodeFixed32 (EncodeFixed32 v @ rest) = v"
proof (rule bit_word_eqI)
  fix n assume "n < LENGTH(32)"
  then consider "n < 8" | "8 \<le> n" "n < 16" | "16 \<le> n" "n < 24" | "24 \<le> n" "n < 32"
    by force
  then show "bit (DecodeFixed32 (EncodeFixed32 v @ rest)) n = bit v n"
    by cases (simp_all add: DecodeFixed32_def EncodeFixed32_def bit_simps less_diff_conv2)
qed

lemma DecodeFixed64_Encode [simp, codec_simps]: "DecodeFixed64 (EncodeFixed64 v @ rest) = v"
proof (rule bit_word_eqI)
  fix n assume "n < LENGTH(64)"
  then consider "n < 8" | "8 \<le> n" "n < 16" | "16 \<le> n" "n < 24" | "24 \<le> n" "n < 32"
    | "32 \<le> n" "n < 40" | "40 \<le> n" "n < 48" | "48 \<le> n" "n < 56" | "56 \<le> n" "n < 64"
    by force
  then show "bit (DecodeFixed64 (EncodeFixed64 v @ rest)) n = bit v n"
    by cases (simp_all add: DecodeFixed64_def EncodeFixed64_def bit_simps less_diff_conv2)
qed

lemma varint_step_bits:
  fixes result :: "'a::len word" and u :: u64
  shows "(result OR push_bit shift (ucast (ucast ((u AND 127) OR 128) :: byte) AND 127))
           OR push_bit (shift + 7) (ucast (drop_bit 7 u))
         = result OR push_bit shift (ucast u)"
proof (rule bit_word_eqI)
  fix n assume "n < LENGTH('a)"
  then consider "n < shift" | "shift \<le> n" "n < shift + 7" | "shift + 7 \<le> n"
    by linarith
  then show "bit ((result OR push_bit shift (ucast (ucast ((u AND 127) OR 128) :: byte) AND 127))
           OR push_bit (shift + 7) (ucast (drop_bit 7 u))) n
         = bit (result OR push_bit shift (ucast u)) n"
    by cases (use \<open>n < LENGTH('a)\<close> in \<open>auto simp: bit_simps bit_masks less_diff_conv2
       dest: bit_imp_le_length\<close>)
qed

lemma varint_more_bit:
  assumes "8 \<le> LENGTH('a)"
  shows "(ucast (ucast ((u AND 127) OR 128 :: u64) :: byte) AND 128 :: 'a::len word) \<noteq> 0"
  using assms by (simp add: and_128_eq_0_iff bit_simps bit_masks)

lemma varint_last_bit:
  assumes "8 \<le> LENGTH('a)" "\<not> 128 \<le> (u :: u64)"
  shows "(ucast (ucast u :: byte) AND 128 :: 'a::len word) = 0"
    and "ucast (ucast u :: byte) = (ucast u :: 'a word)"
proof -
  have "unat u < 2 ^ 7"
    using assms(2) by (simp add: word_le_nat_alt)
  then have "take_bit 7 (unat u) = unat u"
    by (simp add: take_bit_nat_eq_self)
  then have "bit (unat u) n \<Longrightarrow> n < 7" for n
    by (metis bit_take_bit_iff)
  then have hi: "bit u n \<Longrightarrow> n < 7" for n
    by (simp add: bit_unsigned_iff)
  show "(ucast (ucast u :: byte) AND 128 :: 'a::len word) = 0"
    using assms(1) hi by (auto simp: and_128_eq_0_iff bit_simps)
  show "ucast (ucast u :: byte) = (ucast u :: 'a word)"
    by (rule bit_word_eqI) (use hi in \<open>fastforce simp: bit_simps\<close>)
qed

lemma GetVarintLoop_Encode:
  fixes result :: "'a::len word"
  assumes "8 \<le> LENGTH('a)" "shift \<le> m" "(m - shift) mod 7 = 0" "unat u < 2 ^ (m + 7 - shift)"
  shows "GetVarintLoop m shift result (EncodeVarint64 u @ rest) =
         Some (result OR push_bit shift (ucast u), rest)"
  using assms
proof (induction u arbitrary: shift result rule: EncodeVarint64.induct)
  case (1 u)
  note len = 1(2) and le = 1(3) and md = 1(4) and bnd = 1(5)
  show ?case
  proof (cases "128 \<le> u")
    case True
    let ?b = "ucast ((u AND 127) OR 128) :: byte"
    have "128 \<le> unat u" using True by (simp add: word_le_nat_alt)
    then have "m \<noteq> shift" using bnd by auto
    then have sh: "shift + 7 \<le> m" using le md by presburger
    have "m + 7 - shift = (m - shift) + 7" using le by simp
    then have "(2::nat) ^ (m + 7 - shift) = 2 ^ (m - shift) * 128" by (simp only: power_add) simp
    then have lt: "unat (drop_bit 7 u) < 2 ^ (m + 7 - (shift + 7))"
      using bnd sh by (simp add: unat_drop_bit_word less_mult_imp_div_less)
    have "(m - (shift + 7)) mod 7 = 0" using sh md by presburger
    from 1(1) [OF True len sh this lt]
    have "GetVarintLoop m (shift + 7) (result OR push_bit shift (ucast ?b AND 127))
            (EncodeVarint64 (drop_bit 7 u) @ rest) = Some (result OR push_bit shift (ucast u), rest)"
      by (simp only: varint_step_bits)
    then show ?thesis
      using True sh varint_more_bit [OF len, of u]
      by (simp add: EncodeVarint64.simps [of u] Let_def)
  next
    case False
    then show ?thesis
      using le varint_last_bit [OF len False] by (simp add: EncodeVarint64.simps [of u] Let_def)
  qed
qed

lemma GetVarint64_Put [codec_simps]: "GetVarint64 (EncodeVarint64 v @ rest) = Some (v, rest)"
proof -
  have "unat v < 2 ^ (63 + 7 - 0)"
    using unat_lt_exp [of v] by (rule less_le_trans) simp
  then show ?thesis
    using GetVarintLoop_Encode [where result = "0 :: u64" and m = 63 and u = v and shift = 0]
    by (simp add: GetVarint64_def GetVarint64Ptr_def)
qed

lemma ucast_or_128: "(ucast (v OR 128) :: byte) = ucast ((ucast v AND 127) OR 128 :: u64)"
  for v :: u32
  by (rule bit_word_eqI) (auto simp: bit_simps bit_masks)

lemma EncodeVarint64_drop_bit:
  fixes v :: u32
  shows "EncodeVarint64 (ucast (drop_bit k v)) =
    (if 2 ^ (k + 7) \<le> unat v
     then ucast (drop_bit k v OR 128) # EncodeVarint64 (ucast (drop_bit (k + 7) v))
     else [ucast (drop_bit k v)])"
proof -
  have le: "128 \<le> (ucast (drop_bit k v) :: u64) \<longleftrightarrow> 2 ^ (k + 7) \<le> unat v"
    by (simp add: word_le_nat_alt unat_drop_bit_word unat_ucast_up
        less_eq_div_iff_mult_less_eq power_add mult.commute)
  have "drop_bit 7 (ucast (drop_bit k v) :: u64) = ucast (drop_bit (k + 7) v)"
    by (rule bit_word_eqI) (auto simp: bit_simps ac_simps dest: bit_imp_le_length)
  moreover have "(ucast (ucast (drop_bit k v) :: u64) :: byte) = ucast (drop_bit k v)"
    by (rule bit_word_eqI) (auto simp: bit_simps)
  ultimately show ?thesis
    by (subst EncodeVarint64.simps) (simp add: le ucast_or_128)
qed

text \<open>The unrolled 32-bit encoder computes what the loop of the 64-bit encoder does.\<close>

lemma EncodeVarint32_eq: "EncodeVarint32 v = EncodeVarint64 (ucast v)"
proof -
  have "EncodeVarint64 (ucast v) = EncodeVarint64 (ucast (drop_bit 0 v))" by simp
  also have "\<dots> = EncodeVarint32 v"
    unfolding EncodeVarint64_drop_bit [of 0] EncodeVarint64_drop_bit [of "0 + 7"]
      EncodeVarint64_drop_bit [of "0 + 7 + 7"] EncodeVarint64_drop_bit [of "0 + 7 + 7 + 7"]
      EncodeVarint64_drop_bit [of "0 + 7 + 7 + 7 + 7"]
    using unat_lt_exp [of v]
    by (simp add: EncodeVarint32_def Let_def word_less_nat_alt not_le push_bit_eq_mult)
  finally show ?thesis by simp
qed

lemma GetVarint32Ptr_eq_fallback: "GetVarint32Ptr p = GetVarint32PtrFallback p"
  by (auto simp: GetVarint32Ptr_def GetVarint32PtrFallback_def Let_def split: list.split)

lemma GetVarint32_Put [codec_simps]: "GetVarint32 (EncodeVarint32 v @ rest) = Some (v, rest)"
proof -
  have "unat (ucast v :: u64) < 2 ^ (28 + 7 - 0)"
    using unat_lt_exp [of v] by (simp add: unat_ucast_up)
  moreover have "ucast (ucast v :: u64) = v"
    by (rule bit_word_eqI) (simp add: bit_simps)
  ultimately show ?thesis
    using GetVarintLoop_Encode [where result = "0 :: u32" and m = 28 and u = "ucast v" and shift = 0]
    by (simp add: GetVarint32_def GetVarint32Ptr_eq_fallback GetVarint32PtrFallback_def
        EncodeVarint32_eq)
qed

text \<open>Every decoder that succeeds consumes input.\<close>

lemma length_GetVarintLoop: "GetVarintLoop ls sh r p = Some (v, q) \<Longrightarrow> length q < length p"
  by (induction ls sh r p rule: GetVarintLoop.induct) (auto simp: Let_def split: if_splits)

lemma length_GetVarint32: "GetVarint32 p = Some (v, q) \<Longrightarrow> length q < length p"
  by (auto simp: GetVarint32_def GetVarint32Ptr_def GetVarint32PtrFallback_def Let_def dest: length_GetVarintLoop
      split: list.splits if_splits)

lemma length_GetVarint64: "GetVarint64 p = Some (v, q) \<Longrightarrow> length q < length p"
  by (auto simp: GetVarint64_def GetVarint64Ptr_def dest: length_GetVarintLoop)

lemma length_GetLengthPrefixedSlice: "GetLengthPrefixedSlice p = Some (v, q) \<Longrightarrow> length q < length p"
  by (auto simp: GetLengthPrefixedSlice_def dest!: length_GetVarint32 split: option.splits if_splits)

lemmas decoders_consume = length_GetVarint32 length_GetVarint64 length_GetLengthPrefixedSlice

lemma GetLengthPrefixedSlice_Put [codec_simps]:
  assumes "length value < 2 ^ 32"
  shows "GetLengthPrefixedSlice (EncodeVarint32 (word_of_nat (length value)) @ value @ rest)
         = Some (value, rest)"
  using assms by (simp add: GetLengthPrefixedSlice_def GetVarint32_Put unat_word_of_nat_small)

lemma length_EncodeVarint64_le: "unat v < 2 ^ (7 * k) \<Longrightarrow> 0 < k \<Longrightarrow> length (EncodeVarint64 v) \<le> k"
proof (induction v arbitrary: k rule: EncodeVarint64.induct)
  case (1 v)
  show ?case
  proof (cases "128 \<le> v")
    case True
    then obtain j where k: "k = Suc j" "0 < j"
      using 1(2,3) by (cases k; cases "k - 1") (auto simp: word_le_nat_alt)
    then have "unat (drop_bit 7 v) < 2 ^ (7 * j)"
      using 1(2) by (simp add: unat_drop_bit_word less_mult_imp_div_less power_add)
    from 1(1) [OF True this k(2)] True k show ?thesis
      by (simp add: EncodeVarint64.simps [of v])
  next
    case False
    with 1(3) show ?thesis by (simp add: EncodeVarint64.simps [of v])
  qed
qed

lemma GetLengthPrefixedSlicePtr_eq: "GetLengthPrefixedSlicePtr p = GetLengthPrefixedSlice p"
  by (auto simp: GetLengthPrefixedSlicePtr_def GetLengthPrefixedSlice_def GetVarint32_def
      not_less split: option.split)

subsection \<open>Properties\<close>

text \<open>
  C18: Fixed-width integers are read back from the four or eight bytes that were appended for
  them.
\<close>

theorem fixed_roundtrip:
  "DecodeFixed32 (drop (length dst) (PutFixed32 dst v)) = v \<and>
   DecodeFixed64 (drop (length dst) (PutFixed64 dst w)) = w \<and>
   length (PutFixed32 dst v) = length dst + 4 \<and> length (PutFixed64 dst w) = length dst + 8"
  using DecodeFixed32_Encode [of v "[]"] DecodeFixed64_Encode [of w "[]"]
  by (simp add: PutFixed32_def PutFixed64_def)

text \<open>
  C17: Varints: the decoders return the encoded value and exactly the bytes that follow it,
  whatever follows; the unrolled 32-bit encoder agrees with the loop of the 64-bit one; the
  encodings have the length \<^verbatim>\<open>VarintLength\<close> computes and fit the 5 and 10 byte buffers of
  \<^verbatim>\<open>PutVarint32\<close> and \<^verbatim>\<open>PutVarint64\<close>.
\<close>

theorem varint_roundtrip:
  "GetVarint32 (EncodeVarint32 v @ rest) = Some (v, rest) \<and>
   GetVarint64 (EncodeVarint64 w @ rest) = Some (w, rest) \<and>
   EncodeVarint32 v = EncodeVarint64 (ucast v) \<and>
   length (EncodeVarint64 w) = VarintLength w \<and>
   length (EncodeVarint32 v) \<le> 5 \<and> length (EncodeVarint64 w) \<le> 10"
proof -
  have "unat w < 2 ^ (7 * 10)"
    using unat_lt_exp [of w] by (rule less_le_trans) simp
  moreover have "unat (ucast v :: u64) < 2 ^ (7 * 5)"
    using unat_lt_exp [of v] by (simp add: unat_ucast_up)
  ultimately show ?thesis
    using length_EncodeVarint64_le [of w 10] length_EncodeVarint64_le [of "ucast v" 5]
      GetVarint32_Put [of v rest]
    by (simp add:  GetVarint64_Put VarintLength_eq EncodeVarint32_eq)
qed

text \<open>
  C19: A slice of less than \<open>2^32\<close> bytes is read back from its length-prefixed form, by both
  overloads of \<^verbatim>\<open>GetLengthPrefixedSlice\<close>, with exactly the bytes that follow it left over.
\<close>

theorem length_prefixed_roundtrip:
  assumes "length value < 2 ^ 32"
  shows "GetLengthPrefixedSlice (PutLengthPrefixedSlice [] value @ rest) = Some (value, rest) \<and>
         GetLengthPrefixedSlicePtr (PutLengthPrefixedSlice [] value @ rest) = Some (value, rest)"
  using GetLengthPrefixedSlice_Put [OF assms, of rest]
  by (simp add: PutLengthPrefixedSlice_def PutVarint32_def GetLengthPrefixedSlicePtr_eq)

theorem length_prefixed_roundtrip_witness:
  "GetLengthPrefixedSlice (PutLengthPrefixedSlice [] [1, 2, 3] @ [4]) = Some ([1, 2, 3], [4])"
  using length_prefixed_roundtrip [of "[1, 2, 3]" "[4]"] by simp

end
