(* ===== verification/Slice_Status.thy ===== *)
theory Slice_Status
  imports Coding "HOL-Library.List_Lexorder"
begin

text \<open>
  \<^verbatim>\<open>leveldb/slice.h\<close>, \<^verbatim>\<open>leveldb/status.h\<close> and \<^verbatim>\<open>util/status.cpp\<close>.

  The order of \<open>HOL-Library.List_Lexorder\<close> on lists of bytes is the abstract order of
  slices: \<open>Slice_compare\<close> is shown to be its three-way comparison.
\<close>

subsection \<open>Slices\<close>

text \<open>
  \<^verbatim>\<open>memcmp\<close> reads \<open>n\<close> bytes of both areas as unsigned characters; reading past the end of
  an area is undefined in C and does not happen in \<^verbatim>\<open>slice.h\<close>.
\<close>

fun memcmp :: "slice \<Rightarrow> slice \<Rightarrow> nat \<Rightarrow> int" where
  "memcmp (x # a) (y # b) (Suc n) =
     (if x < y then -1 else if y < x then 1 else memcmp a b n)"
| "memcmp a b n = 0"

definition Slice_compare :: "slice \<Rightarrow> slice \<Rightarrow> int" where
  "Slice_compare a b =
     (let min_size = (if length a < length b then length a else length b);
          r = memcmp a b min_size
      in if r = 0 then
           (if length a < length b then -1 else if length a > length b then 1 else r)
         else r)"

definition Slice_eq :: "slice \<Rightarrow> slice \<Rightarrow> bool" where
  "Slice_eq a b \<longleftrightarrow> length a = length b \<and> memcmp a b (length a) = 0"

definition starts_with :: "slice \<Rightarrow> slice \<Rightarrow> bool" where
  "starts_with s x \<longleftrightarrow> length s \<ge> length x \<and> memcmp s x (length x) = 0"

definition remove_prefix :: "slice \<Rightarrow> nat \<Rightarrow> slice" where
  "remove_prefix s n = drop n s"

lemma memcmp_eq_0_iff:
  "n \<le> length a \<Longrightarrow> n \<le> length b \<Longrightarrow> memcmp a b n = 0 \<longleftrightarrow> take n a = take n b"
  by (induction a b n rule: memcmp.induct) auto

lemma Slice_eq_iff [simp]: "Slice_eq a b \<longleftrightarrow> a = b"
  by (auto simp: Slice_eq_def memcmp_eq_0_iff)

lemma starts_with_iff: "starts_with s x \<longleftrightarrow> (\<exists>rest. s = x @ rest)"
proof
  assume "starts_with s x"
  then have "take (length x) s = x" by (auto simp: starts_with_def memcmp_eq_0_iff)
  then have "s = x @ drop (length x) s" by (metis append_take_drop_id)
  then show "\<exists>rest. s = x @ rest" ..
qed (auto simp: starts_with_def memcmp_eq_0_iff)

lemma memcmp_cases: "memcmp a b n = -1 \<or> memcmp a b n = 0 \<or> memcmp a b n = 1"
  by (induction a b n rule: memcmp.induct) auto

lemma Slice_compare_Cons:
  "Slice_compare (x # a) (y # b) =
     (if x < y then -1 else if y < x then 1 else Slice_compare a b)"
  by (auto simp: Slice_compare_def Let_def)

lemma Slice_compare_Nil:
  "Slice_compare [] [] = 0" "Slice_compare [] (y # b) = -1" "Slice_compare (x # a) [] = 1"
  by (simp_all add: Slice_compare_def)

lemma Slice_compare_less: "Slice_compare a b < 0 \<longleftrightarrow> a < b"
proof (induction a arbitrary: b)
  case Nil
  then show ?case by (cases b) (simp_all add: Slice_compare_Nil)
next
  case (Cons x a)
  then show ?case
    by (cases b) (auto simp: Slice_compare_Nil Slice_compare_Cons)
qed

lemma Slice_compare_eq: "Slice_compare a b = 0 \<longleftrightarrow> a = b"
proof (induction a arbitrary: b)
  case Nil
  then show ?case by (cases b) (simp_all add: Slice_compare_Nil)
next
  case (Cons x a)
  then show ?case
    by (cases b) (auto simp: Slice_compare_Nil Slice_compare_Cons)
qed

lemma Slice_compare_greater: "Slice_compare a b > 0 \<longleftrightarrow> b < a"
  using Slice_compare_less [of a b] Slice_compare_eq [of a b] by force

lemmas Slice_compare_order = Slice_compare_less Slice_compare_eq Slice_compare_greater

subsection \<open>Status\<close>

datatype Code = kOk | kNotFound | kCorruption | kNotSupported | kInvalidArgument | kIOError

fun code_byte :: "Code \<Rightarrow> byte" where
  "code_byte kOk = 0"
| "code_byte kNotFound = 1"
| "code_byte kCorruption = 2"
| "code_byte kNotSupported = 3"
| "code_byte kInvalidArgument = 4"
| "code_byte kIOError = 5"

text \<open>
  \<^verbatim>\<open>state_\<close> is \<^verbatim>\<open>NULL\<close> for OK, else an array: the message length in four bytes, the code
  in one, and the message.
\<close>

type_synonym status = "slice option"

abbreviation Status_OK :: status where
  "Status_OK \<equiv> None"

definition Status_make :: "Code \<Rightarrow> slice \<Rightarrow> slice \<Rightarrow> status" where
  "Status_make c msg msg2 =
     (let len1 = word_of_nat (length msg) :: u32;
          len2 = word_of_nat (length msg2) :: u32;
          size = len1 + (if len2 \<noteq> 0 then 2 + len2 else 0)
      in Some (EncodeFixed32 size @ [code_byte c] @ take (unat len1) msg
               @ (if len2 \<noteq> 0 then str '': '' @ take (unat len2) msg2 else [])))"

definition NotFound :: "slice \<Rightarrow> slice \<Rightarrow> status" where
  "NotFound = Status_make kNotFound"

definition Corruption :: "slice \<Rightarrow> slice \<Rightarrow> status" where
  "Corruption = Status_make kCorruption"

definition NotSupported :: "slice \<Rightarrow> slice \<Rightarrow> status" where
  "NotSupported = Status_make kNotSupported"

definition InvalidArgument :: "slice \<Rightarrow> slice \<Rightarrow> status" where
  "InvalidArgument = Status_make kInvalidArgument"

definition IOError :: "slice \<Rightarrow> slice \<Rightarrow> status" where
  "IOError = Status_make kIOError"

definition ok :: "status \<Rightarrow> bool" where
  "ok s \<longleftrightarrow> s = None"

definition status_code :: "status \<Rightarrow> byte" where
  "status_code s = (case s of None \<Rightarrow> code_byte kOk | Some state \<Rightarrow> state ! 4)"

definition IsNotFound :: "status \<Rightarrow> bool" where
  "IsNotFound s \<longleftrightarrow> status_code s = code_byte kNotFound"

definition IsCorruption :: "status \<Rightarrow> bool" where
  "IsCorruption s \<longleftrightarrow> status_code s = code_byte kCorruption"

definition IsIOError :: "status \<Rightarrow> bool" where
  "IsIOError s \<longleftrightarrow> status_code s = code_byte kIOError"

definition CopyState :: "slice \<Rightarrow> slice" where
  "CopyState state = take (unat (DecodeFixed32 state) + 5) state"

text \<open>
  \<open>unknown\<close> is what \<^verbatim>\<open>snprintf\<close> prints for a code outside the enumeration, which no
  constructor stores.
\<close>

definition status_ToString :: "(byte \<Rightarrow> slice) \<Rightarrow> status \<Rightarrow> slice" where
  "status_ToString unknown s =
     (case s of
        None \<Rightarrow> str ''OK''
      | Some state \<Rightarrow>
          (let c = status_code s;
               type = (if c = code_byte kOk then str ''OK''
                       else if c = code_byte kNotFound then str ''NotFound: ''
                       else if c = code_byte kCorruption then str ''Corruption: ''
                       else if c = code_byte kNotSupported then str ''Not implemented: ''
                       else if c = code_byte kInvalidArgument then str ''Invalid argument: ''
                       else if c = code_byte kIOError then str ''IO error: ''
                       else unknown c);
               len = unat (DecodeFixed32 state)
           in type @ take len (drop 5 state)))"

lemmas status_ctor_defs = NotFound_def Corruption_def NotSupported_def InvalidArgument_def IOError_def

lemma ok_OK [simp, status_simps]: "ok Status_OK"
  by (simp add: ok_def)

lemma ok_ctors [simp, status_simps]:
  "\<not> ok (NotFound m m2)" "\<not> ok (Corruption m m2)" "\<not> ok (NotSupported m m2)"
  "\<not> ok (InvalidArgument m m2)" "\<not> ok (IOError m m2)"
  by (simp_all add: ok_def status_ctor_defs Status_make_def Let_def)

lemma status_code_make [simp]: "status_code (Status_make c m m2) = code_byte c"
  by (simp add: status_code_def Status_make_def Let_def nth_append)

lemma is_code [simp]:
  "IsNotFound (NotFound m m2)" "IsCorruption (Corruption m m2)" "IsIOError (IOError m m2)"
  by (simp_all add: IsNotFound_def IsCorruption_def IsIOError_def status_ctor_defs)

fun status_prefix :: "Code \<Rightarrow> slice" where
  "status_prefix kOk = str ''OK''"
| "status_prefix kNotFound = str ''NotFound: ''"
| "status_prefix kCorruption = str ''Corruption: ''"
| "status_prefix kNotSupported = str ''Not implemented: ''"
| "status_prefix kInvalidArgument = str ''Invalid argument: ''"
| "status_prefix kIOError = str ''IO error: ''"

lemma unat_add_small:
  "a + b < 2 ^ LENGTH('a) \<Longrightarrow>
   unat (word_of_nat a + word_of_nat b :: 'a::len word) = a + b"
  by (simp flip: of_nat_add add: unat_word_of_nat_small)

lemma Status_make_eq:
  assumes "length m + length m2 + 2 < 2 ^ 32"
  shows "Status_make c m m2 =
    (let text = m @ (if m2 = [] then [] else str '': '' @ m2)
     in Some (EncodeFixed32 (word_of_nat (length text)) @ [code_byte c] @ text))"
proof -
  have "(word_of_nat (length m2) :: u32) = 0 \<longleftrightarrow> m2 = []"
    using assms by (simp add: unat_word_of_nat_small flip: unat_0_iff)
  then show ?thesis
    using assms by (simp add: Status_make_def Let_def unat_word_of_nat_small str_def)
qed

lemma status_state_text:
  assumes "length t < 2 ^ 32"
  shows "status_ToString unknown (Some (EncodeFixed32 (word_of_nat (length t)) @ [code_byte c] @ t)) =
           status_prefix c @ t"
    and "CopyState (EncodeFixed32 (word_of_nat (length t)) @ [code_byte c] @ t) =
           EncodeFixed32 (word_of_nat (length t)) @ [code_byte c] @ t"
proof -
  have len: "unat (word_of_nat (length t) :: u32) = length t"
    using assms by (intro unat_word_of_nat_small) simp
  have c: "status_code (Some (EncodeFixed32 (word_of_nat (length t)) @ [code_byte c] @ t)) = code_byte c"
    by (simp add: status_code_def nth_append)
  show "status_ToString unknown (Some (EncodeFixed32 (word_of_nat (length t)) @ [code_byte c] @ t)) =
           status_prefix c @ t"
    unfolding status_ToString_def option.case Let_def c DecodeFixed32_Encode len
    by (cases c) simp_all
  show "CopyState (EncodeFixed32 (word_of_nat (length t)) @ [code_byte c] @ t) =
           EncodeFixed32 (word_of_nat (length t)) @ [code_byte c] @ t"
    by (simp add: CopyState_def len)
qed

text \<open>
  C20: A status carries its code and its whole message: for every error code,
  \<^verbatim>\<open>ToString\<close> of a constructed status prints the text of the code followed by
  \<^verbatim>\<open>msg\<close> and, when it is not empty, by \<^verbatim>\<open>": "\<close> and \<^verbatim>\<open>msg2\<close>, and the copy constructor
  copies the state byte for byte. The messages together have to fit the 32-bit length field.
\<close>

theorem status_roundtrip:
  assumes "length m + length m2 + 2 < 2 ^ 32"
  shows "status_ToString unknown (Status_make c m m2) =
           status_prefix c @ m @ (if m2 = [] then [] else str '': '' @ m2)
         \<and> map_option CopyState (Status_make c m m2) = Status_make c m m2"
proof -
  let ?t = "m @ (if m2 = [] then [] else str '': '' @ m2)"
  have len: "length ?t < 2 ^ 32"
    using assms by (simp add: str_def)
  have make: "Status_make c m m2 = Some (EncodeFixed32 (word_of_nat (length ?t)) @ [code_byte c] @ ?t)"
    using Status_make_eq [OF assms] by (simp only: Let_def)
  show ?thesis
    unfolding make option.map status_state_text [OF len] by simp
qed

theorem status_roundtrip_witness:
  "status_ToString (\<lambda>_. []) (Status_make kCorruption (str ''VersionEdit'') (str ''unknown tag'')) =
     str ''Corruption: VersionEdit: unknown tag''"
  using status_roundtrip [of "str ''VersionEdit''" "str ''unknown tag''" "\<lambda>_. []" kCorruption]
  by (simp add: str_def)

end
