(* ===== verification/Comparator.thy ===== *)
theory Comparator
  imports Slice_Status
begin

text \<open>
  \<^verbatim>\<open>leveldb/comparator.h\<close> and \<^verbatim>\<open>util/comparator.cpp\<close>.

  The locale \<open>three_way\<close> states what every client of a \<^verbatim>\<open>Comparator\<close> relies on: a
  three-way comparison of a total (pre)order on the keys that satisfy \<open>key_ok\<close>. The locale
  \<open>comparator\<close> adds the contracts of the two key-shortening operations. The built-in
  \<^verbatim>\<open>BytewiseComparatorImpl\<close> is an interpretation of it here; \<^verbatim>\<open>InternalKeyComparator\<close>
  over any user comparator is one in \<open>Db_Format\<close>.
\<close>

subsection \<open>The interface\<close>

locale three_way =
  fixes cmp :: "'k \<Rightarrow> 'k \<Rightarrow> int" and key_ok :: "'k \<Rightarrow> bool"
  assumes cmp_flip: "key_ok a \<Longrightarrow> key_ok b \<Longrightarrow> cmp b a < 0 \<longleftrightarrow> cmp a b > 0"
    and cmp_trans: "key_ok a \<Longrightarrow> key_ok b \<Longrightarrow> key_ok c \<Longrightarrow>
      cmp a b \<le> 0 \<Longrightarrow> cmp b c \<le> 0 \<Longrightarrow> cmp a c \<le> 0"
begin

lemma cmp_refl: "key_ok a \<Longrightarrow> cmp a a = 0"
  using cmp_flip [of a a] by linarith

lemma cmp_eq_sym: "key_ok a \<Longrightarrow> key_ok b \<Longrightarrow> cmp a b = 0 \<longleftrightarrow> cmp b a = 0"
  using cmp_flip [of a b] cmp_flip [of b a] by linarith

lemma cmp_less_le_trans:
  "key_ok a \<Longrightarrow> key_ok b \<Longrightarrow> key_ok c \<Longrightarrow> cmp a b < 0 \<Longrightarrow> cmp b c \<le> 0 \<Longrightarrow> cmp a c < 0"
  using cmp_trans [of a b c] cmp_trans [of b c a] cmp_flip [of a c] cmp_flip [of b a] cmp_flip [of a b]
    cmp_flip [of c a]
  by linarith

lemma cmp_le_less_trans:
  "key_ok a \<Longrightarrow> key_ok b \<Longrightarrow> key_ok c \<Longrightarrow> cmp a b \<le> 0 \<Longrightarrow> cmp b c < 0 \<Longrightarrow> cmp a c < 0"
  using cmp_trans [of c a b] cmp_flip [of a c] cmp_flip [of b c] cmp_flip [of c b] cmp_trans [of a b c]
    cmp_flip [of c a]
  by linarith

lemma cmp_less_trans:
  "key_ok a \<Longrightarrow> key_ok b \<Longrightarrow> key_ok c \<Longrightarrow> cmp a b < 0 \<Longrightarrow> cmp b c < 0 \<Longrightarrow> cmp a c < 0"
  by (rule cmp_less_le_trans [of a b c]) simp_all

lemma cmp_not_less: "key_ok a \<Longrightarrow> key_ok b \<Longrightarrow> \<not> cmp a b < 0 \<longleftrightarrow> cmp b a \<le> 0"
  using cmp_flip [of a b] cmp_flip [of b a] by linarith

end

locale comparator = three_way Compare key_ok
  for Compare :: "slice \<Rightarrow> slice \<Rightarrow> int" and key_ok :: "slice \<Rightarrow> bool" +
  fixes FindShortestSeparator :: "slice \<Rightarrow> slice \<Rightarrow> slice"
    and FindShortSuccessor :: "slice \<Rightarrow> slice"
  assumes separator: "key_ok start \<Longrightarrow> key_ok limit \<Longrightarrow> Compare start limit < 0 \<Longrightarrow>
      key_ok (FindShortestSeparator start limit) \<and>
      Compare start (FindShortestSeparator start limit) \<le> 0 \<and>
      Compare (FindShortestSeparator start limit) limit < 0"
    and separator_noop: "key_ok start \<Longrightarrow> key_ok limit \<Longrightarrow> \<not> Compare start limit < 0 \<Longrightarrow>
      FindShortestSeparator start limit = start"
    and successor: "key_ok key \<Longrightarrow>
      key_ok (FindShortSuccessor key) \<and> Compare key (FindShortSuccessor key) \<le> 0"
begin

text \<open>
  What the index of a table relies on: a separator stored for a block is at or after every key
  of the block and before every key of the next one.
\<close>

lemma separator_splits:
  assumes "key_ok x" "key_ok prev" "key_ok succ" "key_ok y"
    and "Compare x prev \<le> 0" "Compare prev succ < 0" "Compare succ y \<le> 0"
  shows "Compare x (FindShortestSeparator prev succ) \<le> 0 \<and>
         Compare (FindShortestSeparator prev succ) y < 0"
  using separator [of prev succ] cmp_trans [of x prev "FindShortestSeparator prev succ"]
    cmp_less_le_trans [of "FindShortestSeparator prev succ" succ y] assms
  by simp

end

subsection \<open>BytewiseComparatorImpl\<close>

definition Bytewise_Name :: slice where
  "Bytewise_Name = str ''leveldb.BytewiseComparator''"

definition Bytewise_Compare :: "slice \<Rightarrow> slice \<Rightarrow> int" where
  "Bytewise_Compare a b = Slice_compare a b"

text \<open>The loop that finds the length of the common prefix (it is also in \<^verbatim>\<open>BlockBuilder::Add\<close>).\<close>

function diff_loop :: "slice \<Rightarrow> slice \<Rightarrow> nat \<Rightarrow> nat \<Rightarrow> nat" where
  "diff_loop start limit min_length diff_index =
     (if diff_index < min_length \<and> start ! diff_index = limit ! diff_index
      then diff_loop start limit min_length (Suc diff_index) else diff_index)"
  by pat_completeness auto
termination
  by (relation "measure (\<lambda>(s, l, m, i). m - i)") auto

definition Bytewise_FindShortestSeparator :: "slice \<Rightarrow> slice \<Rightarrow> slice" where
  "Bytewise_FindShortestSeparator start limit =
     (let min_length = min (length start) (length limit);
          diff_index = diff_loop start limit min_length 0
      in if diff_index \<ge> min_length then start
         else let diff_byte = start ! diff_index in
           if diff_byte < 0xff \<and> uint diff_byte + 1 < uint (limit ! diff_index)
           then resize (start[diff_index := diff_byte + 1]) (diff_index + 1)
           else start)"

function short_successor_loop :: "slice \<Rightarrow> nat \<Rightarrow> slice" where
  "short_successor_loop key i =
     (if i < length key then
        let byte = key ! i in
        if byte \<noteq> 0xff then resize (key[i := byte + 1]) (i + 1)
        else short_successor_loop key (Suc i)
      else key)"
  by pat_completeness auto
termination
  by (relation "measure (\<lambda>(k, i). length k - i)") auto

definition Bytewise_FindShortSuccessor :: "slice \<Rightarrow> slice" where
  "Bytewise_FindShortSuccessor key = short_successor_loop key 0"

declare diff_loop.simps [simp del] short_successor_loop.simps [simp del]

lemma diff_loop_props:
  assumes "i \<le> m" "m \<le> length s" "m \<le> length l" "take i s = take i l"
  shows "i \<le> diff_loop s l m i \<and> diff_loop s l m i \<le> m \<and>
         take (diff_loop s l m i) s = take (diff_loop s l m i) l \<and>
         (diff_loop s l m i < m \<longrightarrow> s ! diff_loop s l m i \<noteq> l ! diff_loop s l m i)"
  using assms
proof (induction s l m i rule: diff_loop.induct)
  case (1 s l m i)
  show ?case
  proof (cases "i < m \<and> s ! i = l ! i")
    case True
    then have "take (Suc i) s = take (Suc i) l"
      using 1(3-5) by (simp add: take_Suc_conv_app_nth 1(5))
    with 1(1) [OF True] 1(3,4) True show ?thesis
      by (simp add: diff_loop.simps [of s l m i])
  next
    case False
    with 1(2,5) show ?thesis by (auto simp: diff_loop.simps [of s l m i])
  qed
qed

lemma lex_append_less: "(xs @ ys < xs @ zs) \<longleftrightarrow> (ys < (zs :: 'a::linorder list))"
  by (induction xs) auto

lemma lex_bump:
  assumes "d < length s" "b = s ! d" "b < c"
  shows "(s :: byte list) < take d s @ [c]"
proof -
  have "s = take d s @ b # drop (Suc d) s"
    using assms by (simp add: id_take_nth_drop [symmetric])
  then have "s < take d s @ [c] \<longleftrightarrow> take d s @ b # drop (Suc d) s < take d s @ [c]"
    by metis
  then show ?thesis using assms by (simp add: lex_append_less)
qed

lemma byte_plus_1:
  assumes "(b :: byte) \<noteq> 0xff"
  shows "uint (b + 1) = uint b + 1" and "b < b + 1"
proof -
  have "unat b \<noteq> 255" using assms by (auto simp: word_unat_eq_iff)
  then have "unat b + 1 < 2 ^ LENGTH(8)" using unat_lt_exp [of b] by simp
  then have u: "unat (b + 1) = unat b + 1" by (simp add: unat_plus_if')
  then show "b < b + 1" by (simp add: word_less_nat_alt)
  from u have "int (unat (b + 1)) = int (unat b) + 1" by simp
  then show "uint (b + 1) = uint b + 1" by simp
qed

lemma Bytewise_FindShortestSeparator_cases:
  obtains "Bytewise_FindShortestSeparator start limit = start"
  | d where "d < length start" "d < length limit" "take d start = take d limit"
      "start ! d < start ! d + 1" "start ! d + 1 < limit ! d"
      "Bytewise_FindShortestSeparator start limit = take d start @ [start ! d + 1]"
proof -
  let ?m = "min (length start) (length limit)"
  let ?d = "diff_loop start limit ?m 0"
  note d = diff_loop_props [of 0 ?m start limit]
  show thesis
  proof (cases "?d < ?m \<and> start ! ?d < 0xff \<and> uint (start ! ?d) + 1 < uint (limit ! ?d)")
    case True
    then have lt: "?d < length start" "?d < length limit" by auto
    have nff: "start ! ?d \<noteq> 0xff" using True by auto
    have "start ! ?d + 1 < limit ! ?d" using True byte_plus_1 [OF nff] by (simp add: word_less_def)
    moreover have "Bytewise_FindShortestSeparator start limit = take ?d start @ [start ! ?d + 1]"
      using True lt by (simp add: Bytewise_FindShortestSeparator_def Let_def resize_short
          take_Suc_conv_app_nth)
    ultimately show ?thesis
      using that(2) [OF lt] d byte_plus_1 [OF nff] by simp
  next
    case False
    then show ?thesis
      by (intro that(1)) (auto simp: Bytewise_FindShortestSeparator_def Let_def)
  qed
qed

lemma Bytewise_separator:
  "Bytewise_FindShortestSeparator start limit = start \<or>
   start < Bytewise_FindShortestSeparator start limit \<and>
   Bytewise_FindShortestSeparator start limit < limit"
proof (cases rule: Bytewise_FindShortestSeparator_cases [of start limit])
  case (2 d)
  have "limit = take d start @ limit ! d # drop (Suc d) limit"
    using 2(2,3) by (metis id_take_nth_drop)
  then have "take d start @ [start ! d + 1] < limit"
    using 2(5) by (metis lex_append_less Cons_less_Cons)
  moreover have "start < take d start @ [start ! d + 1]"
    by (rule lex_bump) (use 2 in auto)
  ultimately show ?thesis using 2 by simp
qed simp

lemma short_successor_loop_ge: "i \<le> length key \<Longrightarrow> key \<le> short_successor_loop key i"
proof (induction key i rule: short_successor_loop.induct)
  case (1 key i)
  show ?case
  proof (cases "i < length key \<and> key ! i \<noteq> 0xff")
    case True
    then have "short_successor_loop key i = take i key @ [key ! i + 1]"
      by (simp add: short_successor_loop.simps [of key i] Let_def resize_short take_Suc_conv_app_nth)
    moreover have "key < take i key @ [key ! i + 1]"
      by (rule lex_bump) (use True byte_plus_1 in auto)
    ultimately show ?thesis by simp
  next
    case False
    then show ?thesis
      using 1 by (auto simp: short_successor_loop.simps [of key i] Let_def)
  qed
qed

lemma short_successor_loop_fix:
  "i \<le> length key \<Longrightarrow> set (take i key) \<subseteq> {0xff} \<Longrightarrow>
   length (short_successor_loop key i) \<le> length key \<and>
   (short_successor_loop key i = key \<longleftrightarrow> set key \<subseteq> {0xff})"
proof (induction key i rule: short_successor_loop.induct)
  case (1 key i)
  show ?case
  proof (cases "i < length key \<and> key ! i \<noteq> 0xff")
    case True
    then have eq: "short_successor_loop key i = take i key @ [key ! i + 1]"
      by (simp add: short_successor_loop.simps [of key i] Let_def resize_short take_Suc_conv_app_nth)
    moreover have "key < take i key @ [key ! i + 1]"
      by (rule lex_bump) (use True byte_plus_1 in auto)
    moreover have "\<not> set key \<subseteq> {0xff}" using True nth_mem [of i key] by blast
    ultimately show ?thesis using True by auto
  next
    case False
    then show ?thesis
      using 1 by (auto simp: short_successor_loop.simps [of key i] Let_def take_Suc_conv_app_nth)
  qed
qed

interpretation bytewise: comparator Bytewise_Compare "\<lambda>_. True"
  Bytewise_FindShortestSeparator Bytewise_FindShortSuccessor
proof unfold_locales
  fix a b c :: slice
  show "Bytewise_Compare b a < 0 \<longleftrightarrow> Bytewise_Compare a b > 0"
    by (simp add: Bytewise_Compare_def Slice_compare_order)
  show "Bytewise_Compare a b \<le> 0 \<Longrightarrow> Bytewise_Compare b c \<le> 0 \<Longrightarrow> Bytewise_Compare a c \<le> 0"
    by (simp add: Bytewise_Compare_def not_less [symmetric] Slice_compare_order)
next
  fix start limit :: slice
  assume "Bytewise_Compare start limit < 0"
  then show "True \<and> Bytewise_Compare start (Bytewise_FindShortestSeparator start limit) \<le> 0 \<and>
      Bytewise_Compare (Bytewise_FindShortestSeparator start limit) limit < 0"
    using Bytewise_separator [of start limit]
    by (auto simp: Bytewise_Compare_def Slice_compare_order not_less [symmetric])
next
  fix start limit :: slice
  assume "\<not> Bytewise_Compare start limit < 0"
  then show "Bytewise_FindShortestSeparator start limit = start"
    using Bytewise_separator [of start limit]
    by (auto simp: Bytewise_Compare_def Slice_compare_order)
next
  fix key :: slice
  show "True \<and> Bytewise_Compare key (Bytewise_FindShortSuccessor key) \<le> 0"
    using short_successor_loop_ge [of 0 key]
    by (simp add: Bytewise_FindShortSuccessor_def Bytewise_Compare_def Slice_compare_order
        not_less [symmetric])
qed

subsection \<open>Properties\<close>

text \<open>
  C21: \<^verbatim>\<open>BytewiseComparatorImpl::Compare\<close> is the three-way comparison of the lexicographic
  order of unsigned bytes.
\<close>

theorem bytewise_compare_lexicographic:
  "(Bytewise_Compare a b < 0 \<longleftrightarrow> a < b) \<and> (Bytewise_Compare a b = 0 \<longleftrightarrow> a = b) \<and>
   (Bytewise_Compare a b > 0 \<longleftrightarrow> a > b)"
  by (simp add: Bytewise_Compare_def Slice_compare_order)

text \<open>
  C22: \<^verbatim>\<open>FindShortestSeparator\<close> returns a key of \<open>[start, limit)\<close> that is no longer than
  \<open>start\<close> whenever \<open>start < limit\<close>, and leaves \<open>start\<close> alone otherwise.
\<close>

theorem bytewise_separator_correct:
  "(if start < limit
    then start \<le> Bytewise_FindShortestSeparator start limit \<and>
         Bytewise_FindShortestSeparator start limit < limit
    else Bytewise_FindShortestSeparator start limit = start) \<and>
   length (Bytewise_FindShortestSeparator start limit) \<le> length start"
proof -
  have "length (Bytewise_FindShortestSeparator start limit) \<le> length start"
    by (cases rule: Bytewise_FindShortestSeparator_cases [of start limit]) simp_all
  then show ?thesis using Bytewise_separator [of start limit] by auto
qed

text \<open>
  C23: \<^verbatim>\<open>FindShortSuccessor\<close> returns a key at or after \<open>key\<close>, strictly after it unless
  \<open>key\<close> is a run of \<open>0xff\<close> bytes, and no longer than it.
\<close>

theorem bytewise_successor_correct:
  "key \<le> Bytewise_FindShortSuccessor key \<and>
   length (Bytewise_FindShortSuccessor key) \<le> length key \<and>
   (Bytewise_FindShortSuccessor key = key \<longleftrightarrow> set key \<subseteq> {0xff})"
  using short_successor_loop_ge [of 0 key] short_successor_loop_fix [of 0 key]
  by (simp add: Bytewise_FindShortSuccessor_def)

end
