(* ===== verification/Db_Format.thy ===== *)
theory Db_Format
  imports Comparator
begin

text \<open>
  Internal keys: \<^verbatim>\<open>db/dbformat.h\<close> and \<^verbatim>\<open>db/dbformat.cpp\<close>.

  An internal key is a user key followed by eight bytes that pack a 56-bit sequence number and
  a value type. \<^verbatim>\<open>InternalKeyComparator\<close> is parameterised by the user's comparator, as in
  the code; the locale \<open>user_comparator\<close> shows that it is itself a comparator on well-formed
  internal keys.
\<close>

subsection \<open>Constants and data\<close>

definition kNumLevels :: nat where "kNumLevels = 7"
definition kL0_CompactionTrigger :: nat where "kL0_CompactionTrigger = 4"
definition kL0_SlowdownWritesTrigger :: nat where "kL0_SlowdownWritesTrigger = 8"
definition kL0_StopWritesTrigger :: nat where "kL0_StopWritesTrigger = 12"
definition kMaxMemCompactLevel :: nat where "kMaxMemCompactLevel = 2"

datatype ValueType = kTypeDeletion | kTypeValue

fun type_byte :: "ValueType \<Rightarrow> u64" where
  "type_byte kTypeDeletion = 0"
| "type_byte kTypeValue = 1"

definition kValueTypeForSeek :: ValueType where
  "kValueTypeForSeek = kTypeValue"

definition kMaxSequenceNumber :: u64 where
  "kMaxSequenceNumber = push_bit 56 1 - 1"

record ParsedInternalKey =
  pk_user_key :: slice
  pk_sequence :: u64
  pk_type :: ValueType

definition InternalKeyEncodingLength :: "ParsedInternalKey \<Rightarrow> nat" where
  "InternalKeyEncodingLength key = length (pk_user_key key) + 8"

subsection \<open>Encoding\<close>

definition PackSequenceAndType :: "u64 \<Rightarrow> ValueType \<Rightarrow> u64" where
  "PackSequenceAndType seq t = push_bit 8 seq OR type_byte t"

definition AppendInternalKey :: "slice \<Rightarrow> ParsedInternalKey \<Rightarrow> slice" where
  "AppendInternalKey result key =
     PutFixed64 (result @ pk_user_key key) (PackSequenceAndType (pk_sequence key) (pk_type key))"

definition ExtractUserKey :: "slice \<Rightarrow> slice" where
  "ExtractUserKey internal_key = take (length internal_key - 8) internal_key"

definition key_tag :: "slice \<Rightarrow> u64" where
  "key_tag internal_key = DecodeFixed64 (drop (length internal_key - 8) internal_key)"

definition ExtractValueType :: "slice \<Rightarrow> byte" where
  "ExtractValueType internal_key = ucast (key_tag internal_key AND 0xff)"

definition ParseInternalKey :: "slice \<Rightarrow> ParsedInternalKey option" where
  "ParseInternalKey internal_key =
     (let n = length internal_key in
      if n < 8 then None
      else
        let num = DecodeFixed64 (drop (n - 8) internal_key);
            c = ucast (num AND 0xff) :: byte
        in if c \<le> 1
           then Some \<lparr>pk_user_key = take (n - 8) internal_key, pk_sequence = drop_bit 8 num,
                      pk_type = (if c = 0 then kTypeDeletion else kTypeValue)\<rparr>
           else None)"

definition InternalKey :: "slice \<Rightarrow> u64 \<Rightarrow> ValueType \<Rightarrow> slice" where
  "InternalKey user_key s t =
     AppendInternalKey [] \<lparr>pk_user_key = user_key, pk_sequence = s, pk_type = t\<rparr>"

subsection \<open>InternalKeyComparator\<close>

definition InternalKeyComparator_Name :: slice where
  "InternalKeyComparator_Name = str ''leveldb.InternalKeyComparator''"

definition InternalKeyComparator_Compare ::
  "(slice \<Rightarrow> slice \<Rightarrow> int) \<Rightarrow> slice \<Rightarrow> slice \<Rightarrow> int" where
  "InternalKeyComparator_Compare user_compare a b =
     (let r = user_compare (ExtractUserKey a) (ExtractUserKey b) in
      if r = 0 then
        let anum = DecodeFixed64 (drop (length a - 8) a);
            bnum = DecodeFixed64 (drop (length b - 8) b)
        in if anum > bnum then -1 else if anum < bnum then 1 else r
      else r)"

definition InternalKeyComparator_FindShortestSeparator ::
  "(slice \<Rightarrow> slice \<Rightarrow> int) \<Rightarrow> (slice \<Rightarrow> slice \<Rightarrow> slice) \<Rightarrow> slice \<Rightarrow> slice \<Rightarrow> slice" where
  "InternalKeyComparator_FindShortestSeparator user_compare user_separator start limit =
     (let user_start = ExtractUserKey start;
          user_limit = ExtractUserKey limit;
          tmp = user_separator user_start user_limit
      in if length tmp < length user_start \<and> user_compare user_start tmp < 0
         then PutFixed64 tmp (PackSequenceAndType kMaxSequenceNumber kValueTypeForSeek)
         else start)"

definition InternalKeyComparator_FindShortSuccessor ::
  "(slice \<Rightarrow> slice \<Rightarrow> int) \<Rightarrow> (slice \<Rightarrow> slice) \<Rightarrow> slice \<Rightarrow> slice" where
  "InternalKeyComparator_FindShortSuccessor user_compare user_successor key =
     (let user_key = ExtractUserKey key;
          tmp = user_successor user_key
      in if length tmp < length user_key \<and> user_compare user_key tmp < 0
         then PutFixed64 tmp (PackSequenceAndType kMaxSequenceNumber kValueTypeForSeek)
         else key)"

subsection \<open>InternalFilterPolicy\<close>

definition InternalFilterPolicy_CreateFilter ::
  "(slice list \<Rightarrow> slice \<Rightarrow> slice) \<Rightarrow> slice list \<Rightarrow> slice \<Rightarrow> slice" where
  "InternalFilterPolicy_CreateFilter user_create ks dst = user_create (map ExtractUserKey ks) dst"

definition InternalFilterPolicy_KeyMayMatch ::
  "(slice \<Rightarrow> slice \<Rightarrow> bool) \<Rightarrow> slice \<Rightarrow> slice \<Rightarrow> bool" where
  "InternalFilterPolicy_KeyMayMatch user_match key f = user_match (ExtractUserKey key) f"

subsection \<open>LookupKey\<close>

record LookupKey =
  lk_bytes :: slice
  lk_kstart :: nat

definition make_LookupKey :: "slice \<Rightarrow> u64 \<Rightarrow> LookupKey" where
  "make_LookupKey user_key s =
     (let usize = length user_key;
          dst = EncodeVarint32 (word_of_nat (usize + 8))
      in \<lparr>lk_bytes = dst @ user_key @ EncodeFixed64 (PackSequenceAndType s kValueTypeForSeek),
          lk_kstart = length dst\<rparr>)"

definition memtable_key :: "LookupKey \<Rightarrow> slice" where
  "memtable_key k = lk_bytes k"

definition internal_key :: "LookupKey \<Rightarrow> slice" where
  "internal_key k = drop (lk_kstart k) (lk_bytes k)"

definition lookup_user_key :: "LookupKey \<Rightarrow> slice" where
  "lookup_user_key k =
     take (length (lk_bytes k) - lk_kstart k - 8) (drop (lk_kstart k) (lk_bytes k))"

subsection \<open>Round trips\<close>

lemma type_byte_inj [simp]: "type_byte t = type_byte u \<longleftrightarrow> t = u"
  by (cases t; cases u) simp_all

lemma PackSequenceAndType_unat:
  assumes "seq \<le> kMaxSequenceNumber"
  shows "unat (PackSequenceAndType seq t) = unat seq * 256 + unat (type_byte t)"
proof -
  have "unat seq \<le> 2 ^ 56 - 1"
    using assms by (simp add: word_le_nat_alt kMaxSequenceNumber_def push_bit_eq_mult)
  then have s: "unat seq * 256 < 2 ^ 64 - 255" by simp
  have "PackSequenceAndType seq t = push_bit 8 seq + type_byte t"
    unfolding PackSequenceAndType_def
    by (rule disjunctive_add [symmetric]) (cases t; auto simp: bit_simps)
  moreover have "unat (push_bit 8 seq) = unat seq * 256"
    using s by (simp add: push_bit_eq_mult unat_word_ariths)
  ultimately show ?thesis
    using s by (cases t) (simp_all add: unat_plus_if')
qed

lemma Pack_drop_bit:
  assumes "seq \<le> kMaxSequenceNumber"
  shows "drop_bit 8 (PackSequenceAndType seq t) = seq"
  using PackSequenceAndType_unat [OF assms, of t]
  by (cases t) (simp_all add: word_unat_eq_iff unat_drop_bit_word)

lemma Pack_type_byte: "(ucast (PackSequenceAndType seq t AND 0xff) :: byte) = ucast (type_byte t)"
  unfolding PackSequenceAndType_def
  by (rule bit_word_eqI) (cases t; simp add: bit_simps bit_masks)

lemma length_AppendInternalKey [simp, codec_lengths]:
  "length (AppendInternalKey r k) = length r + length (pk_user_key k) + 8"
  by (simp add: AppendInternalKey_def PutFixed64_def)

lemma length_InternalKey [simp]: "length (InternalKey u s t) = length u + 8"
  by (simp add: InternalKey_def)

lemma ExtractUserKey_InternalKey [simp]: "ExtractUserKey (InternalKey u s t) = u"
  by (simp add: ExtractUserKey_def InternalKey_def AppendInternalKey_def PutFixed64_def)

lemma ExtractUserKey_Put [simp]: "ExtractUserKey (PutFixed64 u w) = u"
  by (simp add: ExtractUserKey_def PutFixed64_def)

lemma key_tag_InternalKey [simp]: "key_tag (InternalKey u s t) = PackSequenceAndType s t"
  using DecodeFixed64_Encode [of _ "[]"]
  by (simp add: key_tag_def InternalKey_def AppendInternalKey_def PutFixed64_def)

lemma key_tag_Put [simp]: "key_tag (PutFixed64 u w) = w"
  using DecodeFixed64_Encode [of _ "[]"] by (simp add: key_tag_def PutFixed64_def)

lemma ParseInternalKey_InternalKey [codec_simps]:
  assumes "s \<le> kMaxSequenceNumber"
  shows "ParseInternalKey (InternalKey u s t) =
         Some \<lparr>pk_user_key = u, pk_sequence = s, pk_type = t\<rparr>"
proof -
  have "DecodeFixed64 (drop (length (InternalKey u s t) - 8) (InternalKey u s t)) = PackSequenceAndType s t"
    using key_tag_InternalKey [of u s t] by (simp only: key_tag_def)
  moreover have "take (length (InternalKey u s t) - 8) (InternalKey u s t) = u"
    using ExtractUserKey_InternalKey [of u s t] by (simp only: ExtractUserKey_def)
  ultimately show ?thesis
    using Pack_drop_bit [OF assms, of t] Pack_type_byte [of s t]
    by (cases t) (simp_all add: ParseInternalKey_def Let_def)
qed

lemma internal_key_split:
  assumes "8 \<le> length k"
  shows "k = ExtractUserKey k @ drop (length k - 8) k"
  by (simp add: ExtractUserKey_def)

lemma bit_DecodeFixed64:
  assumes "i < 8" "n < 8"
  shows "bit (DecodeFixed64 bs) (8 * i + n) = bit (bs ! i) n"
proof -
  from assms(1) consider "i = 0" | "i = 1" | "i = 2" | "i = 3" | "i = 4" | "i = 5" | "i = 6" | "i = 7"
    by linarith
  then show ?thesis
    by cases (use assms(2) in \<open>simp_all add: DecodeFixed64_def bit_simps byte_bit_high\<close>)
qed

lemma EncodeFixed64_Decode:
  assumes "length bs = 8"
  shows "EncodeFixed64 (DecodeFixed64 bs) = bs"
proof -
  have byte: "(ucast (drop_bit (8 * i) (DecodeFixed64 bs)) :: byte) = bs ! i" if "i < 8" for i
    by (rule bit_word_eqI) (use that in \<open>simp add: bit_simps bit_DecodeFixed64\<close>)
  have "EncodeFixed64 (DecodeFixed64 bs) = map (\<lambda>i. ucast (drop_bit (8 * i) (DecodeFixed64 bs))) [0..<8]"
    by (simp add: EncodeFixed64_def upt_rec)
  also have "\<dots> = map (\<lambda>i. bs ! i) [0..<8]"
    using byte by (intro map_cong) auto
  also have "\<dots> = bs"
    using assms map_nth [of bs] by simp
  finally show ?thesis .
qed

lemma drop_bit_le_max: "drop_bit 8 (num :: u64) \<le> kMaxSequenceNumber"
  using unat_lt_exp [of num]
  by (simp add: word_le_nat_alt unat_drop_bit_word kMaxSequenceNumber_def push_bit_eq_mult)

lemma Pack_drop_bit_type:
  assumes "(ucast (num AND 0xff) :: byte) = ucast (type_byte t)"
  shows "PackSequenceAndType (drop_bit 8 num) t = num"
  unfolding PackSequenceAndType_def
proof (rule bit_word_eqI)
  fix n assume "n < LENGTH(64)"
  have "bit (ucast (num AND 0xff) :: byte) n = bit (ucast (type_byte t) :: byte) n"
    using assms by simp
  then show "bit (push_bit 8 (drop_bit 8 num) OR type_byte t) n = bit num n"
    using \<open>n < LENGTH(64)\<close> by (cases "n < 8"; cases t) (auto simp: bit_simps bit_masks)
qed

lemma InternalKey_Parse:
  assumes "ParseInternalKey k = Some p"
  shows "InternalKey (pk_user_key p) (pk_sequence p) (pk_type p) = k"
    and "pk_sequence p \<le> kMaxSequenceNumber" and "8 \<le> length k"
    and "pk_user_key p = ExtractUserKey k"
proof -
  let ?num = "DecodeFixed64 (drop (length k - 8) k)"
  let ?c = "ucast (?num AND 0xff) :: byte"
  from assms have len: "8 \<le> length k" and c: "?c \<le> 1"
    and p: "p = \<lparr>pk_user_key = take (length k - 8) k, pk_sequence = drop_bit 8 ?num,
                      pk_type = (if ?c = 0 then kTypeDeletion else kTypeValue)\<rparr>"
    by (auto simp: ParseInternalKey_def Let_def split: if_splits)
  have "?c = 0 \<or> ?c = 1"
    using c by (auto simp: word_le_nat_alt word_unat_eq_iff)
  then have "PackSequenceAndType (drop_bit 8 ?num) (pk_type p) = ?num"
    by (intro Pack_drop_bit_type) (auto simp: p)
  then show "InternalKey (pk_user_key p) (pk_sequence p) (pk_type p) = k"
    using len EncodeFixed64_Decode [of "drop (length k - 8) k"]
    by (simp add: InternalKey_def AppendInternalKey_def PutFixed64_def p)
  show "pk_sequence p \<le> kMaxSequenceNumber" by (simp add: p drop_bit_le_max)
  show "8 \<le> length k" by (rule len)
  show "pk_user_key p = ExtractUserKey k" by (simp add: p ExtractUserKey_def)
qed

subsection \<open>The comparator contract\<close>

lemma InternalKeyComparator_Compare_eq:
  "InternalKeyComparator_Compare ucmp a b =
     (let r = ucmp (ExtractUserKey a) (ExtractUserKey b) in
      if r \<noteq> 0 then r else if key_tag a > key_tag b then -1 else if key_tag a < key_tag b then 1 else 0)"
  by (simp add: InternalKeyComparator_Compare_def key_tag_def Let_def)

definition internal_key_ok :: "(slice \<Rightarrow> bool) \<Rightarrow> slice \<Rightarrow> bool" where
  "internal_key_ok user_ok k \<longleftrightarrow> 8 \<le> length k \<and> user_ok (ExtractUserKey k)"

locale user_comparator = comparator Compare key_ok FindShortestSeparator FindShortSuccessor
  for Compare key_ok FindShortestSeparator FindShortSuccessor
begin

lemma internal_flip:
  assumes "internal_key_ok key_ok a" "internal_key_ok key_ok b"
  shows "InternalKeyComparator_Compare Compare b a < 0 \<longleftrightarrow> InternalKeyComparator_Compare Compare a b > 0"
  using assms cmp_flip [of "ExtractUserKey a" "ExtractUserKey b"]
    cmp_eq_sym [of "ExtractUserKey a" "ExtractUserKey b"]
  by (auto simp: internal_key_ok_def InternalKeyComparator_Compare_eq Let_def)

lemma internal_le_iff:
  "InternalKeyComparator_Compare Compare a b \<le> 0 \<longleftrightarrow>
     Compare (ExtractUserKey a) (ExtractUserKey b) < 0 \<or>
     Compare (ExtractUserKey a) (ExtractUserKey b) = 0 \<and> key_tag b \<le> key_tag a"
  by (auto simp: InternalKeyComparator_Compare_eq Let_def)

lemma internal_trans:
  assumes ok: "internal_key_ok key_ok a" "internal_key_ok key_ok b" "internal_key_ok key_ok c"
    and ab: "InternalKeyComparator_Compare Compare a b \<le> 0"
    and bc: "InternalKeyComparator_Compare Compare b c \<le> 0"
  shows "InternalKeyComparator_Compare Compare a c \<le> 0"
proof -
  let ?a = "ExtractUserKey a" and ?b = "ExtractUserKey b" and ?c = "ExtractUserKey c"
  have k: "key_ok ?a" "key_ok ?b" "key_ok ?c"
    using ok by (simp_all add: internal_key_ok_def)
  have le: "Compare ?a ?c \<le> 0"
    using ab bc k cmp_trans [of ?a ?b ?c] by (auto simp: internal_le_iff)
  have "key_tag c \<le> key_tag a" if "Compare ?a ?c = 0"
  proof -
    have "Compare ?a ?b = 0 \<and> Compare ?b ?c = 0"
      using that ab bc k cmp_less_le_trans [of ?a ?b ?c] cmp_le_less_trans [of ?a ?b ?c]
      by (auto simp: internal_le_iff)
    then show ?thesis using ab bc by (auto simp: internal_le_iff)
  qed
  with le show ?thesis by (auto simp: internal_le_iff)
qed

lemma internal_separator_cases:
  assumes ok: "internal_key_ok key_ok start" "internal_key_ok key_ok limit"
  obtains "InternalKeyComparator_FindShortestSeparator Compare FindShortestSeparator start limit = start"
  | tmp where "InternalKeyComparator_FindShortestSeparator Compare FindShortestSeparator start limit =
        PutFixed64 tmp (PackSequenceAndType kMaxSequenceNumber kValueTypeForSeek)"
      "key_ok tmp" "Compare (ExtractUserKey start) tmp < 0" "Compare tmp (ExtractUserKey limit) < 0"
proof -
  let ?s = "ExtractUserKey start" and ?l = "ExtractUserKey limit"
  have k: "key_ok ?s" "key_ok ?l"
    using ok by (simp_all add: internal_key_ok_def)
  show thesis
  proof (cases "length (FindShortestSeparator ?s ?l) < length ?s \<and> Compare ?s (FindShortestSeparator ?s ?l) < 0")
    case True
    then have "Compare ?s ?l < 0"
      using separator_noop [OF k] by force
    with True separator [OF k] show ?thesis
      by (intro that(2) [of "FindShortestSeparator ?s ?l"])
        (simp_all add: InternalKeyComparator_FindShortestSeparator_def)
  next
    case False
    then show ?thesis
      by (intro that(1)) (auto simp: InternalKeyComparator_FindShortestSeparator_def Let_def)
  qed
qed

end

sublocale user_comparator \<subseteq> internal: comparator
  "InternalKeyComparator_Compare Compare" "internal_key_ok key_ok"
  "InternalKeyComparator_FindShortestSeparator Compare FindShortestSeparator"
  "InternalKeyComparator_FindShortSuccessor Compare FindShortSuccessor"
proof unfold_locales
  fix start limit
  assume ok: "internal_key_ok key_ok start" "internal_key_ok key_ok limit"
  let ?r = "InternalKeyComparator_FindShortestSeparator Compare FindShortestSeparator start limit"
  show "internal_key_ok key_ok ?r \<and> InternalKeyComparator_Compare Compare start ?r \<le> 0 \<and>
        InternalKeyComparator_Compare Compare ?r limit < 0"
    if lt: "InternalKeyComparator_Compare Compare start limit < 0"
  proof (cases rule: internal_separator_cases [OF ok])
    case 1
    then show ?thesis
      using ok lt cmp_refl [of "ExtractUserKey start"]
      by (simp add: internal_key_ok_def internal_le_iff)
  next
    case (2 tmp)
    then show ?thesis
      by (auto simp: internal_key_ok_def internal_le_iff PutFixed64_def ExtractUserKey_def
          InternalKeyComparator_Compare_eq Let_def)
  qed
  show "?r = start" if nlt: "\<not> InternalKeyComparator_Compare Compare start limit < 0"
  proof (cases rule: internal_separator_cases [OF ok])
    case (2 tmp)
    then have "Compare (ExtractUserKey start) (ExtractUserKey limit) < 0"
      using cmp_less_trans [of "ExtractUserKey start" tmp "ExtractUserKey limit"] ok
      by (simp add: internal_key_ok_def)
    with nlt show ?thesis by (simp add: InternalKeyComparator_Compare_eq Let_def)
  qed
next
  fix key
  assume ok: "internal_key_ok key_ok key"
  then show "internal_key_ok key_ok (InternalKeyComparator_FindShortSuccessor Compare FindShortSuccessor key) \<and>
      InternalKeyComparator_Compare Compare key
        (InternalKeyComparator_FindShortSuccessor Compare FindShortSuccessor key) \<le> 0"
    using successor [of "ExtractUserKey key"] cmp_refl [of "ExtractUserKey key"]
    by (auto simp: InternalKeyComparator_FindShortSuccessor_def Let_def internal_key_ok_def
        internal_le_iff PutFixed64_def ExtractUserKey_def)
qed (rule internal_flip internal_trans; assumption)+

context user_comparator
begin

lemma internal_comparator:
  "comparator (InternalKeyComparator_Compare Compare) (internal_key_ok key_ok)
     (InternalKeyComparator_FindShortestSeparator Compare FindShortestSeparator)
     (InternalKeyComparator_FindShortSuccessor Compare FindShortSuccessor)"
  by (rule internal.comparator_axioms)

end

interpretation icmp: user_comparator Bytewise_Compare "\<lambda>_. True"
  Bytewise_FindShortestSeparator Bytewise_FindShortSuccessor
  by unfold_locales

subsection \<open>Order of encoded keys\<close>

lemma Pack_less_iff:
  assumes "sa \<le> kMaxSequenceNumber" "sb \<le> kMaxSequenceNumber"
  shows "PackSequenceAndType sa ta < PackSequenceAndType sb tb \<longleftrightarrow>
         sa < sb \<or> sa = sb \<and> ta = kTypeDeletion \<and> tb = kTypeValue"
  using PackSequenceAndType_unat [OF assms(1), of ta] PackSequenceAndType_unat [OF assms(2), of tb]
  by (cases ta; cases tb) (auto simp: word_less_nat_alt word_unat_eq_iff)

lemma internal_compare_keys:
  assumes "sa \<le> kMaxSequenceNumber" "sb \<le> kMaxSequenceNumber"
  shows "InternalKeyComparator_Compare ucmp (InternalKey ua sa ta) (InternalKey ub sb tb) < 0 \<longleftrightarrow>
           ucmp ua ub < 0 \<or> ucmp ua ub = 0 \<and> (sb < sa \<or> sa = sb \<and> ta = kTypeValue \<and> tb = kTypeDeletion)"
    and "InternalKeyComparator_Compare ucmp (InternalKey ua sa ta) (InternalKey ub sb tb) = 0 \<longleftrightarrow>
           ucmp ua ub = 0 \<and> sa = sb \<and> ta = tb"
  using Pack_less_iff [OF assms, of ta tb] Pack_less_iff [OF assms(2,1), of tb ta]
  by (cases ta; cases tb; auto simp: InternalKeyComparator_Compare_eq Let_def)+

lemma seek_key_le_iff:
  assumes "s \<le> kMaxSequenceNumber" "s' \<le> kMaxSequenceNumber"
  shows "InternalKeyComparator_Compare ucmp (InternalKey u s kValueTypeForSeek) (InternalKey u' s' t) \<le> 0
    \<longleftrightarrow> ucmp u u' < 0 \<or> ucmp u u' = 0 \<and> s' \<le> s"
  using internal_compare_keys [OF assms, of ucmp u kTypeValue u' t]
  by (cases t) (auto simp: kValueTypeForSeek_def le_less)

lemma internal_key_lookup [simp]: "internal_key (make_LookupKey u s) = InternalKey u s kValueTypeForSeek"
  by (simp add: internal_key_def make_LookupKey_def Let_def InternalKey_def AppendInternalKey_def
      PutFixed64_def)

lemma lookup_user_key_lookup [simp]: "lookup_user_key (make_LookupKey u s) = u"
  by (simp add: lookup_user_key_def make_LookupKey_def Let_def)

lemma memtable_key_lookup:
  "memtable_key (make_LookupKey u s) =
     EncodeVarint32 (word_of_nat (length u + 8)) @ InternalKey u s kValueTypeForSeek"
  by (simp add: memtable_key_def make_LookupKey_def Let_def InternalKey_def AppendInternalKey_def
      PutFixed64_def)

lemma length_EncodeVarint32: "length (EncodeVarint32 v) \<le> 5"
  by (simp add: EncodeVarint32_def Let_def)

subsection \<open>Properties\<close>

text \<open>
  C24: \<^verbatim>\<open>ParseInternalKey\<close> is the inverse of \<^verbatim>\<open>AppendInternalKey\<close>: every key with a
  sequence number of at most 56 bits is parsed back, and every byte string that parses is the
  encoding of what it parses to.
\<close>

theorem internal_key_roundtrip:
  "ParseInternalKey k = Some p \<longleftrightarrow>
   pk_sequence p \<le> kMaxSequenceNumber \<and> AppendInternalKey [] p = k"
proof
  assume p: "ParseInternalKey k = Some p"
  then show "pk_sequence p \<le> kMaxSequenceNumber \<and> AppendInternalKey [] p = k"
    using InternalKey_Parse(1,2) [OF p] by (cases p) (simp add: InternalKey_def)
next
  assume "pk_sequence p \<le> kMaxSequenceNumber \<and> AppendInternalKey [] p = k"
  then show "ParseInternalKey k = Some p"
    using ParseInternalKey_InternalKey [of "pk_sequence p" "pk_user_key p" "pk_type p"]
    by (cases p) (auto simp: InternalKey_def)
qed

text \<open>
  C25: Internal keys are ordered by increasing user key, then decreasing sequence number,
  then decreasing type.
\<close>

theorem internal_key_order:
  assumes "sa \<le> kMaxSequenceNumber" "sb \<le> kMaxSequenceNumber"
  shows "InternalKeyComparator_Compare ucmp (InternalKey ua sa ta) (InternalKey ub sb tb) < 0 \<longleftrightarrow>
         ucmp ua ub < 0 \<or>
         ucmp ua ub = 0 \<and> (sa > sb \<or> sa = sb \<and> ta = kTypeValue \<and> tb = kTypeDeletion)"
  using internal_compare_keys(1) [OF assms] by blast

theorem internal_key_order_witness:
  "InternalKeyComparator_Compare Bytewise_Compare
     (InternalKey (str ''a'') 7 kTypeDeletion) (InternalKey (str ''a'') 5 kTypeValue) < 0"
  using internal_key_order [of 7 5 Bytewise_Compare "str ''a''" kTypeDeletion "str ''a''" kTypeValue]
    bytewise.cmp_refl
  by (simp add: kMaxSequenceNumber_def)

text \<open>
  C26: Over any user comparator that keeps its contract, \<^verbatim>\<open>InternalKeyComparator\<close> keeps the
  contract too, on keys of at least eight bytes: its \<^verbatim>\<open>Compare\<close> is a total order, the
  separator of \<open>start < limit\<close> lies in \<open>[start, limit)\<close>, and the short successor of a key is
  at or after it.
\<close>

theorem internal_comparator_contract:
  assumes "comparator ucmp user_ok usep usucc"
  shows "comparator (InternalKeyComparator_Compare ucmp) (internal_key_ok user_ok)
           (InternalKeyComparator_FindShortestSeparator ucmp usep)
           (InternalKeyComparator_FindShortSuccessor ucmp usucc)"
proof -
  have "user_comparator ucmp user_ok usep usucc"
    using assms by (simp add: user_comparator_def)
  then show ?thesis
    by (rule user_comparator.internal_comparator)
qed

theorem internal_comparator_contract_witness:
  "comparator Bytewise_Compare (\<lambda>_. True) Bytewise_FindShortestSeparator Bytewise_FindShortSuccessor \<and>
   comparator (InternalKeyComparator_Compare Bytewise_Compare) (internal_key_ok (\<lambda>_. True))
     (InternalKeyComparator_FindShortestSeparator Bytewise_Compare Bytewise_FindShortestSeparator)
     (InternalKeyComparator_FindShortSuccessor Bytewise_Compare Bytewise_FindShortSuccessor)"
  using bytewise.comparator_axioms internal_comparator_contract by blast

text \<open>
  C27: A \<^verbatim>\<open>LookupKey\<close> fits the \<open>usize + 13\<close> bytes its constructor reserves, its memtable
  form is the length-prefixed internal key, and its parts are the user key and the internal key
  that sorts before every entry of that user key visible at the sequence number.
\<close>

theorem lookup_key_layout:
  assumes "length u + 8 < 2 ^ 32" "s \<le> kMaxSequenceNumber" "s' \<le> kMaxSequenceNumber"
    and "ucmp u u = 0"
  shows "length (memtable_key (make_LookupKey u s)) \<le> length u + 13 \<and>
         GetLengthPrefixedSlice (memtable_key (make_LookupKey u s)) =
           Some (internal_key (make_LookupKey u s), []) \<and>
         lookup_user_key (make_LookupKey u s) = u \<and>
         (InternalKeyComparator_Compare ucmp (internal_key (make_LookupKey u s)) (InternalKey u s' t) \<le> 0
            \<longleftrightarrow> s' \<le> s)"
  using GetLengthPrefixedSlice_Put [of "InternalKey u s kValueTypeForSeek" "[]"]
    length_EncodeVarint32 [of "word_of_nat (length u + 8)"] seek_key_le_iff [OF assms(2,3), of ucmp u u t]
    assms
  by (simp add: memtable_key_lookup)

theorem lookup_key_layout_witness:
  "length (memtable_key (make_LookupKey (str ''key'') 9)) \<le> 16"
  using lookup_key_layout [of "str ''key''" 9 3 Bytewise_Compare kTypeValue] bytewise.cmp_refl
  by (simp add: str_def kMaxSequenceNumber_def)

end
