(* ===== verification/Bloom.thy ===== *)
theory Bloom
  imports Db_Format
begin

text \<open>
  \<^verbatim>\<open>util/hash.cpp\<close> and \<^verbatim>\<open>util/bloom.cpp\<close>, and the filter-policy interface of
  \<^verbatim>\<open>leveldb/filter_policy.h\<close> as a locale.  A byte of the key that is added to the hash is a
  signed \<^verbatim>\<open>char\<close>.  \<^verbatim>\<open>bits_per_key * 0.69\<close> is computed in whole numbers, which gives the same
  value for every argument below the cap of 30 probes.
\<close>

subsection \<open>Hash\<close>

fun hash_words :: "slice \<Rightarrow> u32 \<Rightarrow> u32 \<times> slice" where
  "hash_words (a # b # c # d # data) h =
     (let w = DecodeFixed32 [a, b, c, d]; h = h + w; h = h * 0xc6a4a793; h = h XOR drop_bit 16 h
      in hash_words data h)"
| "hash_words data h = (h, data)"

definition hash_tail :: "nat \<Rightarrow> slice \<Rightarrow> u32 \<Rightarrow> u32" where
  "hash_tail n data h =
     (let r = 24;
          h3 = (if length data \<ge> 3 then h + push_bit 16 (scast (data ! 2)) else h);
          h2 = (if length data \<ge> 2 then h3 + push_bit 8 (scast (data ! 1)) else h3)
      in if length data \<ge> 1
         then let h1 = (h2 + scast (data ! 0)) * word_of_nat n in h1 XOR drop_bit r h1
         else h2)"

definition Hash :: "slice \<Rightarrow> u32 \<Rightarrow> u32" where
  "Hash data seed =
     (let n = length data; h = seed XOR word_of_nat (n * 0xc6a4a793); (h, rest) = hash_words data h
      in hash_tail n rest h)"

subsection \<open>BloomFilterPolicy\<close>

definition BloomHash :: "slice \<Rightarrow> u32" where
  "BloomHash key = Hash key 0xbc9f1d34"

record BloomFilterPolicy =
  bits_per_key :: nat
  bloom_k :: nat

definition make_BloomFilterPolicy :: "nat \<Rightarrow> BloomFilterPolicy" where
  "make_BloomFilterPolicy bpk =
     (let k = bpk * 69 div 100; k = (if k < 1 then 1 else k); k = (if k > 30 then 30 else k)
      in \<lparr>bits_per_key = bpk, bloom_k = k\<rparr>)"

definition Bloom_Name :: slice where
  "Bloom_Name = str ''leveldb.BuiltinBloomFilter''"

definition bloom_delta :: "u32 \<Rightarrow> u32" where
  "bloom_delta h = drop_bit 17 h OR push_bit 15 h"

fun bloom_set :: "nat \<Rightarrow> nat \<Rightarrow> nat \<Rightarrow> u32 \<Rightarrow> u32 \<Rightarrow> slice \<Rightarrow> slice" where
  "bloom_set 0 base bits h delta dst = dst"
| "bloom_set (Suc j) base bits h delta dst =
     (let bitpos = unat h mod bits; i = base + bitpos div 8
      in bloom_set j base bits (h + delta) delta (dst[i := dst ! i OR push_bit (bitpos mod 8) 1]))"

fun bloom_keys :: "nat \<Rightarrow> nat \<Rightarrow> nat \<Rightarrow> slice list \<Rightarrow> slice \<Rightarrow> slice" where
  "bloom_keys k base bits [] dst = dst"
| "bloom_keys k base bits (key # ks) dst =
     (let h = BloomHash key in bloom_keys k base bits ks (bloom_set k base bits h (bloom_delta h) dst))"

definition Bloom_CreateFilter :: "BloomFilterPolicy \<Rightarrow> slice list \<Rightarrow> slice \<Rightarrow> slice" where
  "Bloom_CreateFilter pol ks dst =
     (let bits = length ks * bits_per_key pol;
          bits = (if bits < 64 then 64 else bits);
          bytes = (bits + 7) div 8;
          bits = bytes * 8;
          init_size = length dst;
          dst = resize dst (init_size + bytes) @ [word_of_nat (bloom_k pol)]
      in bloom_keys (bloom_k pol) init_size bits ks dst)"

fun bloom_test :: "nat \<Rightarrow> nat \<Rightarrow> u32 \<Rightarrow> u32 \<Rightarrow> slice \<Rightarrow> bool" where
  "bloom_test 0 bits h delta arr = True"
| "bloom_test (Suc j) bits h delta arr =
     (let bitpos = unat h mod bits
      in if arr ! (bitpos div 8) AND push_bit (bitpos mod 8) 1 = 0 then False
         else bloom_test j bits (h + delta) delta arr)"

definition Bloom_KeyMayMatch :: "slice \<Rightarrow> slice \<Rightarrow> bool" where
  "Bloom_KeyMayMatch key bloom_filter =
     (let len = length bloom_filter
      in if len < 2 then False
         else let bits = (len - 1) * 8; k = sint (bloom_filter ! (len - 1))
              in if (word_of_int k :: u64) > 30 then True
                 else let h = BloomHash key in bloom_test (nat k) bits h (bloom_delta h) bloom_filter)"

subsection \<open>The contract of a filter policy\<close>

text \<open>\<^verbatim>\<open>CreateFilter\<close> appends a filter to its destination; \<^verbatim>\<open>KeyMayMatch\<close> holds of every key the filter
  was created for.\<close>

locale filter_policy =
  fixes create :: "slice list \<Rightarrow> slice \<Rightarrow> slice" and may_match :: "slice \<Rightarrow> slice \<Rightarrow> bool"
  assumes create_appends: "\<exists>f. create ks dst = dst @ f \<and> (\<forall>key\<in>set ks. may_match key f)"
begin

text \<open>The wrapper for internal keys keeps the contract.\<close>

lemma internal_policy:
  "filter_policy (InternalFilterPolicy_CreateFilter create) (InternalFilterPolicy_KeyMayMatch may_match)"
proof
  fix ks dst
  obtain f where "create (map ExtractUserKey ks) dst = dst @ f" "\<forall>key\<in>set (map ExtractUserKey ks). may_match key f"
    using create_appends by blast
  then show "\<exists>f. InternalFilterPolicy_CreateFilter create ks dst = dst @ f \<and>
      (\<forall>key\<in>set ks. InternalFilterPolicy_KeyMayMatch may_match key f)"
    by (auto simp: InternalFilterPolicy_CreateFilter_def InternalFilterPolicy_KeyMayMatch_def)
qed

end

subsection \<open>No false negatives\<close>

text \<open>The bits of the array at \<open>base\<close> grow: every probe position stays set.\<close>

definition bit_at :: "nat \<Rightarrow> slice \<Rightarrow> nat \<Rightarrow> bool" where
  "bit_at base arr p \<longleftrightarrow> bit (arr ! (base + p div 8)) (p mod 8)"

lemma and_single_bit: "(b :: byte) AND 2 ^ n = 0 \<longleftrightarrow> \<not> bit b n" if "n < 8"
  unfolding bit_eq_iff [where ?'a = "8 word"] using that by (auto simp: bit_simps)

lemma bloom_test_bits:
  "0 < bits \<Longrightarrow> bloom_test j bits h delta arr \<longleftrightarrow> (\<forall>i<j. bit_at 0 arr (unat (h + word_of_nat i * delta) mod bits))"
proof (induction j arbitrary: h)
  case (Suc j)
  have "(\<forall>i<Suc j. P i) \<longleftrightarrow> P 0 \<and> (\<forall>i<j. P (Suc i))" for P by (auto simp: less_Suc_eq_0_disj)
  note split = this
  have shift: "h + word_of_nat (Suc i) * delta = h + delta + word_of_nat i * delta" for i
    by (simp add: algebra_simps)
  show ?case
    unfolding split shift using Suc by (simp add: Let_def bit_at_def and_single_bit)
qed simp

definition probes :: "nat \<Rightarrow> nat \<Rightarrow> u32 \<Rightarrow> u32 \<Rightarrow> nat set" where
  "probes j bits h delta = (\<lambda>i. unat (h + word_of_nat i * delta) mod bits) ` {..<j}"

lemma probes_Suc: "probes (Suc j) bits h delta = insert (unat h mod bits) (probes j bits (h + delta) delta)"
proof -
  have "h + word_of_nat (Suc i) * delta = h + delta + word_of_nat i * delta" for i
    by (simp add: algebra_simps)
  note shift = this
  show ?thesis
    unfolding probes_def lessThan_Suc_eq_insert_0 image_insert image_image shift by simp
qed

lemma bit_at_set:
  assumes "base + q div 8 < length dst"
  shows "bit_at base (dst[base + q div 8 := dst ! (base + q div 8) OR push_bit (q mod 8) 1]) p \<longleftrightarrow>
    bit_at base dst p \<or> p = q"
proof (cases "p div 8 = q div 8")
  case True
  have "p = q \<longleftrightarrow> p mod 8 = q mod 8" using True by (metis div_mult_mod_eq)
  then show ?thesis using assms True by (auto simp: bit_at_def bit_simps)
next
  case False
  then show ?thesis using assms by (auto simp: bit_at_def)
qed

lemma bloom_set_correct:
  assumes "length dst = base + bits div 8 + 1" "bits mod 8 = 0" "0 < bits"
  shows "length (bloom_set j base bits h delta dst) = length dst \<and>
    take base (bloom_set j base bits h delta dst) = take base dst \<and>
    last (bloom_set j base bits h delta dst) = last dst \<and>
    (\<forall>p. bit_at base (bloom_set j base bits h delta dst) p \<longleftrightarrow> bit_at base dst p \<or> p \<in> probes j bits h delta)"
  using assms
proof (induction j arbitrary: h dst)
  case 0
  then show ?case by (simp add: probes_def)
next
  case (Suc j)
  define q where "q = unat h mod bits"
  define d where "d = dst[base + q div 8 := dst ! (base + q div 8) OR push_bit (q mod 8) 1]"
  have q: "q div 8 < bits div 8"
    using Suc.prems by (intro less_mult_imp_div_less) (simp add: q_def minus_mod_eq_div_mult [symmetric])
  then have "base + q div 8 < length dst" using Suc.prems by simp
  then have bits: "bit_at base d p \<longleftrightarrow> bit_at base dst p \<or> p = q" for p
    unfolding d_def by (rule bit_at_set)
  have "length d = length dst" "take base d = take base dst" by (simp_all add: d_def)
  moreover have "last d = last dst"
    using q Suc.prems(1) last_list_update [of dst "base + q div 8" "dst ! (base + q div 8) OR push_bit (q mod 8) 1"]
    by (cases dst) (auto simp: d_def)
  moreover have "bloom_set (Suc j) base bits h delta dst = bloom_set j base bits (h + delta) delta d"
    by (simp add: Let_def q_def d_def)
  ultimately show ?case
    using Suc.IH [of d "h + delta"] Suc.prems bits by (simp add: probes_Suc q_def)
qed

lemma bloom_keys_correct:
  assumes "length dst = base + bits div 8 + 1" "bits mod 8 = 0" "0 < bits"
  shows "length (bloom_keys k base bits ks dst) = length dst \<and>
    take base (bloom_keys k base bits ks dst) = take base dst \<and>
    last (bloom_keys k base bits ks dst) = last dst \<and>
    (\<forall>p. bit_at base (bloom_keys k base bits ks dst) p \<longleftrightarrow> bit_at base dst p \<or>
       (\<exists>key\<in>set ks. p \<in> probes k bits (BloomHash key) (bloom_delta (BloomHash key))))"
  using assms
proof (induction ks arbitrary: dst)
  case (Cons key ks)
  note s = bloom_set_correct [OF Cons.prems, of k "BloomHash key" "bloom_delta (BloomHash key)"]
  show ?case
    using Cons.IH [of "bloom_set k base bits (BloomHash key) (bloom_delta (BloomHash key)) dst"] Cons.prems s
    by (auto simp: Let_def)
qed simp

lemma length_Bloom_CreateFilter:
  "length (Bloom_CreateFilter pol ks dst) =
     length dst + ((if length ks * bits_per_key pol < 64 then 64 else length ks * bits_per_key pol) + 7) div 8 + 1"
proof -
  define bytes where "bytes = ((if length ks * bits_per_key pol < 64 then 64 else length ks * bits_per_key pol) + 7) div 8"
  have "1 \<le> bytes" unfolding bytes_def by (rule order_trans [OF _ div_le_mono [of 64]]) auto
  then show ?thesis
    using bloom_keys_correct [of "resize dst (length dst + bytes) @ [word_of_nat (bloom_k pol)]" "length dst" "bytes * 8"
        "bloom_k pol" ks]
    by (simp add: Bloom_CreateFilter_def Let_def bytes_def)
qed

lemma bloom_filter_matches:
  assumes "bloom_k pol \<le> 30"
  shows "\<exists>f. Bloom_CreateFilter pol ks dst = dst @ f \<and> (\<forall>key\<in>set ks. Bloom_KeyMayMatch key f)"
proof -
  define bytes where "bytes = ((if length ks * bits_per_key pol < 64 then 64 else length ks * bits_per_key pol) + 7) div 8"
  define d where "d = resize dst (length dst + bytes) @ [word_of_nat (bloom_k pol)]"
  let ?r = "bloom_keys (bloom_k pol) (length dst) (bytes * 8) ks d"
  have "1 \<le> bytes"
    unfolding bytes_def by (rule order_trans [OF _ div_le_mono [of 64]]) auto
  then have pos: "0 < bytes * 8" by simp
  have c: "Bloom_CreateFilter pol ks dst = ?r"
    by (simp add: Bloom_CreateFilter_def Let_def bytes_def d_def)
  have len: "length d = length dst + bytes * 8 div 8 + 1" by (simp add: d_def)
  note r = bloom_keys_correct [OF len _ pos, of "bloom_k pol" ks]
  define f where "f = drop (length dst) ?r"
  have "take (length dst) ?r = dst" using r by (simp add: d_def resize_def)
  then have split: "?r = dst @ f" unfolding f_def by (metis append_take_drop_id)
  have lf: "length f = bytes + 1" using r by (simp add: f_def len)
  have lst: "f ! bytes = word_of_nat (bloom_k pol)"
  proof -
    have "last ?r = word_of_nat (bloom_k pol)" using r by (simp add: d_def)
    moreover have "f \<noteq> []" using lf by auto
    ultimately show ?thesis using lf by (simp add: split last_conv_nth)
  qed
  have k: "sint (word_of_nat (bloom_k pol) :: byte) = int (bloom_k pol)"
    using assms by (simp add: sint_uint unsigned_of_nat take_bit_nat_eq_self signed_take_bit_int_eq_self)
  have "Bloom_KeyMayMatch key f" if "key \<in> set ks" for key
  proof -
    let ?h = "BloomHash key"
    have "bit_at 0 f p \<longleftrightarrow> bit_at (length dst) ?r p" for p
      by (simp add: split bit_at_def nth_append)
    then have "bloom_test (bloom_k pol) (bytes * 8) ?h (bloom_delta ?h) f"
      using r that pos by (auto simp: bloom_test_bits probes_def)
    then show ?thesis
      using pos assms by (simp add: Bloom_KeyMayMatch_def lf lst k Let_def word_less_nat_alt unat_of_nat)
  qed
  then show ?thesis using c split by auto
qed

lemma make_bloom_k: "1 \<le> bloom_k (make_BloomFilterPolicy n) \<and> bloom_k (make_BloomFilterPolicy n) \<le> 30"
  by (simp add: make_BloomFilterPolicy_def Let_def)

interpretation bloom: filter_policy "Bloom_CreateFilter (make_BloomFilterPolicy n)" Bloom_KeyMayMatch
  using bloom_filter_matches make_bloom_k by unfold_locales blast

interpretation ibloom: filter_policy
  "InternalFilterPolicy_CreateFilter (Bloom_CreateFilter (make_BloomFilterPolicy n))"
  "InternalFilterPolicy_KeyMayMatch Bloom_KeyMayMatch"
  by (rule bloom.internal_policy)

end
