(* ===== verification/Filter_Block.thy ===== *)
theory Filter_Block
  imports Bloom
begin

text \<open>
  \<^verbatim>\<open>table/filter_block.cpp\<close>: the builder of the filter block of a table and its reader, over any filter
  policy.  \<^verbatim>\<open>tmp_keys_\<close> is local to \<^verbatim>\<open>GenerateFilter\<close>.  A filter offset is stored in 32 bits.
\<close>

definition kFilterBaseLg :: nat where
  "kFilterBaseLg = 11"

definition kFilterBase :: nat where
  "kFilterBase = 2 ^ kFilterBaseLg"

record FilterBlockBuilder =
  fb_keys :: slice
  fb_start :: "nat list"
  fb_result :: slice
  fb_filter_offsets :: "u32 list"

definition make_FilterBlockBuilder :: FilterBlockBuilder where
  "make_FilterBlockBuilder = \<lparr>fb_keys = [], fb_start = [], fb_result = [], fb_filter_offsets = []\<rparr>"

definition GenerateFilter :: "(slice list \<Rightarrow> slice \<Rightarrow> slice) \<Rightarrow> FilterBlockBuilder \<Rightarrow> FilterBlockBuilder" where
  "GenerateFilter create b =
     (let num_keys = length (fb_start b); off = word_of_nat (length (fb_result b))
      in if num_keys = 0 then b\<lparr>fb_filter_offsets := fb_filter_offsets b @ [off]\<rparr>
         else let start = fb_start b @ [length (fb_keys b)];
                  tmp_keys = map (\<lambda>i. take (start ! (i + 1) - start ! i) (drop (start ! i) (fb_keys b))) [0..<num_keys]
              in \<lparr>fb_keys = [], fb_start = [], fb_result = create tmp_keys (fb_result b),
                  fb_filter_offsets = fb_filter_offsets b @ [off]\<rparr>)"

text \<open>The loop of \<^verbatim>\<open>StartBlock\<close>; each turn adds one filter offset.\<close>

function start_block_loop :: "(slice list \<Rightarrow> slice \<Rightarrow> slice) \<Rightarrow> nat \<Rightarrow> FilterBlockBuilder \<Rightarrow> FilterBlockBuilder" where
  "start_block_loop create filter_index b =
     (if filter_index > length (fb_filter_offsets b)
      then start_block_loop create filter_index (GenerateFilter create b) else b)"
  by pat_completeness auto
termination
  by (relation "measure (\<lambda>(_, i, b). i - length (fb_filter_offsets b))") (auto simp: GenerateFilter_def Let_def)

declare start_block_loop.simps [simp del]

definition StartBlock :: "(slice list \<Rightarrow> slice \<Rightarrow> slice) \<Rightarrow> u64 \<Rightarrow> FilterBlockBuilder \<Rightarrow> FilterBlockBuilder" where
  "StartBlock create block_offset b = start_block_loop create (unat block_offset div kFilterBase) b"

definition AddKey :: "slice \<Rightarrow> FilterBlockBuilder \<Rightarrow> FilterBlockBuilder" where
  "AddKey key b = b\<lparr>fb_start := fb_start b @ [length (fb_keys b)], fb_keys := fb_keys b @ key\<rparr>"

definition FilterBlock_Finish :: "(slice list \<Rightarrow> slice \<Rightarrow> slice) \<Rightarrow> FilterBlockBuilder \<Rightarrow> slice" where
  "FilterBlock_Finish create b =
     (let b = (if fb_start b \<noteq> [] then GenerateFilter create b else b);
          array_offset = word_of_nat (length (fb_result b)) :: u32;
          result = fold (\<lambda>off r. PutFixed32 r off) (fb_filter_offsets b) (fb_result b)
      in PutFixed32 result array_offset @ [word_of_nat kFilterBaseLg])"

text \<open>The reader: \<open>None\<close> for \<^verbatim>\<open>data_\<close> and \<^verbatim>\<open>offset_\<close> is \<^verbatim>\<open>NULL\<close>; \<open>fr_offset\<close> is the position of the offset
  array in the data.\<close>

record FilterBlockReader =
  fr_data :: "slice option"
  fr_offset :: nat
  fr_num :: nat
  fr_base_lg :: nat

definition make_FilterBlockReader :: "slice \<Rightarrow> FilterBlockReader" where
  "make_FilterBlockReader contents =
     (let n = length contents; r = \<lparr>fr_data = None, fr_offset = 0, fr_num = 0, fr_base_lg = 0\<rparr>
      in if n < 5 then r
         else let r = r\<lparr>fr_base_lg := unat (scast (contents ! (n - 1)) :: u64)\<rparr>;
                  last_word = unat (DecodeFixed32 (drop (n - 5) contents))
              in if last_word > n - 5 then r
                 else r\<lparr>fr_data := Some contents, fr_offset := last_word, fr_num := (n - 5 - last_word) div 4\<rparr>)"

definition FilterBlock_KeyMayMatch :: "(slice \<Rightarrow> slice \<Rightarrow> bool) \<Rightarrow> FilterBlockReader \<Rightarrow> u64 \<Rightarrow> slice \<Rightarrow> bool" where
  "FilterBlock_KeyMayMatch may_match r block_offset key =
     (let index = unat (drop_bit (fr_base_lg r) block_offset)
      in if index < fr_num r then
           case fr_data r of
             None \<Rightarrow> True
           | Some data \<Rightarrow>
               let start = unat (DecodeFixed32 (drop (fr_offset r + index * 4) data));
                   limit = unat (DecodeFixed32 (drop (fr_offset r + index * 4 + 4) data))
               in if start \<le> limit \<and> limit \<le> fr_offset r then may_match key (take (limit - start) (drop start data))
                  else if start = limit then False
                  else True
         else True)"

subsection \<open>What the builder holds\<close>

definition sizes_before :: "slice list \<Rightarrow> nat list" where
  "sizes_before xs = map (\<lambda>i. length (concat (take i xs))) [0..<length xs]"

lemma length_sizes_before [simp]: "length (sizes_before xs) = length xs"
  by (simp add: sizes_before_def)

lemma sizes_before_snoc: "sizes_before (xs @ [x]) = sizes_before xs @ [length (concat xs)]"
  by (simp add: sizes_before_def)

lemma concat_split_nth:
  assumes "i < length xs"
  shows "concat xs = concat (take i xs) @ xs ! i @ concat (drop (Suc i) xs)"
  using assms by (metis concat.simps(2) concat_append id_take_nth_drop)

lemma concat_take_le: "length (concat (take i xs)) \<le> length (concat xs)"
  by (metis append_take_drop_id concat_append le_add1 length_append)

lemma piece_of_concat:
  assumes "i < length xs"
  shows "take ((sizes_before xs @ [length (concat xs)]) ! Suc i - (sizes_before xs @ [length (concat xs)]) ! i)
     (drop ((sizes_before xs @ [length (concat xs)]) ! i) (concat xs @ ys)) = xs ! i"
    and "(sizes_before xs @ [length (concat xs)]) ! i + length (xs ! i) =
      (sizes_before xs @ [length (concat xs)]) ! Suc i"
proof -
  have a: "(sizes_before xs @ [length (concat xs)]) ! j = length (concat (take j xs))" if "j \<le> length xs" for j
    using that by (cases "j = length xs") (auto simp: sizes_before_def nth_append)
  have b: "concat (take (Suc i) xs) = concat (take i xs) @ xs ! i"
    using assms by (simp add: take_Suc_conv_app_nth)
  show "take ((sizes_before xs @ [length (concat xs)]) ! Suc i - (sizes_before xs @ [length (concat xs)]) ! i)
     (drop ((sizes_before xs @ [length (concat xs)]) ! i) (concat xs @ ys)) = xs ! i"
    using assms a [of i] a [of "Suc i"] b by (subst (3) concat_split_nth [OF assms]) simp
  show "(sizes_before xs @ [length (concat xs)]) ! i + length (xs ! i) =
      (sizes_before xs @ [length (concat xs)]) ! Suc i"
    using assms a [of i] a [of "Suc i"] b by simp
qed

text \<open>The builder holds the filters made so far and the keys of the current one.\<close>

definition fb_rep :: "FilterBlockBuilder \<Rightarrow> slice list \<Rightarrow> slice list \<Rightarrow> bool" where
  "fb_rep b filters pending \<longleftrightarrow>
     fb_result b = concat filters \<and> fb_filter_offsets b = map word_of_nat (sizes_before filters) \<and>
     fb_keys b = concat pending \<and> fb_start b = sizes_before pending"

lemma fb_rep_make: "fb_rep make_FilterBlockBuilder [] []"
  by (simp add: fb_rep_def make_FilterBlockBuilder_def sizes_before_def)

lemma fb_rep_AddKey: "fb_rep b filters pending \<Longrightarrow> fb_rep (AddKey key b) filters (pending @ [key])"
  by (simp add: fb_rep_def AddKey_def sizes_before_snoc)

lemma fb_rep_AddKeys: "fb_rep b filters pending \<Longrightarrow> fb_rep (fold AddKey ks b) filters (pending @ ks)"
proof (induction ks arbitrary: b pending)
  case (Cons key ks)
  then show ?case using Cons.IH [OF fb_rep_AddKey [OF Cons.prems, of key]] by simp
qed simp

text \<open>\<open>added\<close> is what has been added: each key with the number of its filter.\<close>

definition holds :: "(slice \<Rightarrow> slice \<Rightarrow> bool) \<Rightarrow> FilterBlockBuilder \<Rightarrow> (nat \<times> slice) set \<Rightarrow> bool" where
  "holds may_match b added \<longleftrightarrow> (\<exists>filters pending. fb_rep b filters pending \<and>
     (\<forall>(i, key)\<in>added. i < length filters \<and> may_match key (filters ! i) \<or> i = length filters \<and> key \<in> set pending))"

context filter_policy
begin

lemma GenerateFilter_rep:
  assumes "fb_rep b filters pending"
  shows "\<exists>f. fb_rep (GenerateFilter create b) (filters @ [f]) [] \<and> (\<forall>key\<in>set pending. may_match key f)"
proof (cases "pending = []")
  case True
  then have "fb_rep (GenerateFilter create b) (filters @ [[]]) []"
    using assms by (simp add: fb_rep_def GenerateFilter_def sizes_before_snoc sizes_before_def [of "[]"] Let_def)
  with True show ?thesis by auto
next
  case False
  have "map (\<lambda>i. take ((fb_start b @ [length (fb_keys b)]) ! (i + 1) - (fb_start b @ [length (fb_keys b)]) ! i)
      (drop ((fb_start b @ [length (fb_keys b)]) ! i) (fb_keys b))) [0..<length (fb_start b)] = pending"
    using assms piece_of_concat(1) [of _ pending "[]"] by (intro nth_equalityI) (simp_all add: fb_rep_def)
  moreover obtain f where "create pending (fb_result b) = fb_result b @ f" "\<forall>key\<in>set pending. may_match key f"
    using create_appends by blast
  ultimately show ?thesis
    using assms False
    by (intro exI [of _ f]) (simp add: fb_rep_def GenerateFilter_def sizes_before_snoc sizes_before_def [of "[]"] Let_def)
qed

lemma holds_Generate:
  assumes "holds may_match b added"
  shows "holds may_match (GenerateFilter create b) added"
proof -
  obtain filters pending where r: "fb_rep b filters pending"
      "\<forall>(i, key)\<in>added. i < length filters \<and> may_match key (filters ! i) \<or> i = length filters \<and> key \<in> set pending"
    using assms unfolding holds_def by blast
  obtain f where f: "fb_rep (GenerateFilter create b) (filters @ [f]) []" "\<forall>key\<in>set pending. may_match key f"
    using GenerateFilter_rep [OF r(1)] by blast
  have "i < length (filters @ [f]) \<and> may_match key ((filters @ [f]) ! i)" if "(i, key) \<in> added" for i key
    using r(2) that f(2) by (cases "i = length filters") (auto simp: nth_append)
  with f(1) show ?thesis unfolding holds_def by blast
qed

lemma holds_start_loop:
  assumes "holds may_match b added" "length (fb_filter_offsets b) \<le> i"
  shows "holds may_match (start_block_loop create i b) added \<and>
    length (fb_filter_offsets (start_block_loop create i b)) = i"
  using assms
proof (induction "i - length (fb_filter_offsets b)" arbitrary: b)
  case 0
  then show ?case by (subst (1 2) start_block_loop.simps) simp
next
  case (Suc n)
  have "length (fb_filter_offsets (GenerateFilter create b)) = Suc (length (fb_filter_offsets b))"
    by (simp add: GenerateFilter_def Let_def)
  then show ?case
    using Suc.hyps(1) [of "GenerateFilter create b"] Suc.hyps(2) Suc.prems holds_Generate
    by (subst (1 2) start_block_loop.simps) simp
qed

lemma holds_AddKeys:
  assumes "holds may_match b added"
  shows "holds may_match (fold AddKey ks b) (added \<union> (\<lambda>key. (length (fb_filter_offsets b), key)) ` set ks) \<and>
    length (fb_filter_offsets (fold AddKey ks b)) = length (fb_filter_offsets b)"
proof -
  obtain filters pending where r: "fb_rep b filters pending"
      "\<forall>(i, key)\<in>added. i < length filters \<and> may_match key (filters ! i) \<or> i = length filters \<and> key \<in> set pending"
    using assms unfolding holds_def by blast
  have l: "length (fb_filter_offsets b) = length filters" using r(1) by (simp add: fb_rep_def)
  note r' = fb_rep_AddKeys [OF r(1), of ks]
  have "length (fb_filter_offsets (fold AddKey ks b)) = length filters" using r' by (simp add: fb_rep_def)
  moreover have "\<forall>(i, key)\<in>added \<union> (\<lambda>key. (length (fb_filter_offsets b), key)) ` set ks.
      i < length filters \<and> may_match key (filters ! i) \<or> i = length filters \<and> key \<in> set (pending @ ks)"
    using r(2) l by auto
  ultimately show ?thesis using r' l unfolding holds_def
    by (intro conjI exI [of _ filters] exI [of _ "pending @ ks"]) simp_all
qed

end

text \<open>The calls on a builder: for each data block \<^verbatim>\<open>StartBlock\<close> and \<^verbatim>\<open>AddKey\<close> of its keys.\<close>

fun build_filters :: "(slice list \<Rightarrow> slice \<Rightarrow> slice) \<Rightarrow> (u64 \<times> slice list) list \<Rightarrow> FilterBlockBuilder \<Rightarrow> FilterBlockBuilder" where
  "build_filters create [] b = b"
| "build_filters create ((block_offset, ks) # bs) b =
     build_filters create bs (fold AddKey ks (StartBlock create block_offset b))"

definition filter_index :: "u64 \<Rightarrow> nat" where
  "filter_index off = unat off div kFilterBase"

lemma filter_index_mono: "off \<le> off' \<Longrightarrow> filter_index off \<le> filter_index off'"
  by (simp add: filter_index_def div_le_mono word_le_nat_alt)

context filter_policy
begin

lemma build_filters_holds:
  assumes "holds may_match b added" "sorted (map fst bs)"
    and "\<forall>(off, ks)\<in>set bs. length (fb_filter_offsets b) \<le> filter_index off"
  shows "holds may_match (build_filters create bs b)
    (added \<union> {(filter_index off, key) |off ks key. (off, ks) \<in> set bs \<and> key \<in> set ks})"
  using assms
proof (induction bs arbitrary: b added)
  case (Cons x bs)
  obtain off ks where x: "x = (off, ks)" by (cases x)
  let ?b1 = "StartBlock create off b" and ?b2 = "fold AddKey ks (StartBlock create off b)"
  have s: "holds may_match ?b1 added \<and> length (fb_filter_offsets ?b1) = filter_index off"
    using holds_start_loop [OF Cons.prems(1), of "filter_index off"] Cons.prems(3) x
    by (simp add: StartBlock_def filter_index_def)
  have a: "holds may_match ?b2 (added \<union> (\<lambda>key. (filter_index off, key)) ` set ks)"
      "length (fb_filter_offsets ?b2) = filter_index off"
    using holds_AddKeys [of ?b1 added ks] s by simp_all
  have m: "\<forall>(off', ks)\<in>set bs. length (fb_filter_offsets ?b2) \<le> filter_index off'"
    using Cons.prems(2) x a(2) by (auto intro!: filter_index_mono)
  have "added \<union> {(filter_index off, key) |off ks key. (off, ks) \<in> set (x # bs) \<and> key \<in> set ks} =
      (added \<union> (\<lambda>key. (filter_index off, key)) ` set ks) \<union>
      {(filter_index off, key) |off ks key. (off, ks) \<in> set bs \<and> key \<in> set ks}"
    using x by auto
  then show ?case using Cons.IH [OF a(1) _ m] Cons.prems(2) x by simp
qed simp

end

subsection \<open>Reading the block\<close>

lemma fold_PutFixed32: "fold (\<lambda>off r. PutFixed32 r off) offs r = r @ concat (map EncodeFixed32 offs)"
  by (induction offs arbitrary: r) (simp_all add: PutFixed32_def)

lemmas fold_append32 = fold_PutFixed32 [unfolded PutFixed32_def]

lemma length_concat_Encode [simp]: "length (concat (map EncodeFixed32 xs)) = 4 * length xs"
  by (induction xs) simp_all

lemma DecodeFixed32_nth:
  assumes "i < length xs"
  shows "DecodeFixed32 (drop (i * 4) (concat (map EncodeFixed32 xs) @ rest)) = xs ! i"
  using assms
proof (induction xs arbitrary: i)
  case (Cons x xs)
  then show ?case by (cases i) (simp_all add: algebra_simps)
qed simp

lemma read_filter_block:
  assumes rep: "fb_rep b filters []" and small: "length (concat filters) < 2 ^ 32"
    and c: "c = concat filters @ concat (map EncodeFixed32 (fb_filter_offsets b @ [word_of_nat (length (concat filters))])) @
      [word_of_nat kFilterBaseLg]"
  shows "FilterBlock_KeyMayMatch may_match (make_FilterBlockReader c) off key \<longleftrightarrow>
    (filter_index off < length filters \<longrightarrow> may_match key (filters ! filter_index off))"
proof -
  define offs where "offs = sizes_before filters @ [length (concat filters)]"
  have lo: "length offs = Suc (length filters)" by (simp add: offs_def)
  define ws :: "u32 list" where "ws = map word_of_nat offs"
  have lw: "length ws = Suc (length filters)" by (simp add: ws_def lo)
  have c': "c = concat filters @ concat (map EncodeFixed32 ws) @ [11]"
    using rep by (simp add: c fb_rep_def offs_def ws_def kFilterBaseLg_def)
  have n: "length c = length (concat filters) + 4 * length filters + 5" by (simp add: c' lw)
  have le: "offs ! i \<le> length (concat filters)" if "i \<le> length filters" for i
    using that by (cases "i = length filters") (auto simp: offs_def nth_append sizes_before_def concat_take_le)
  have word: "unat (DecodeFixed32 (drop (length (concat filters) + i * 4) c)) = offs ! i" if "i \<le> length filters" for i
  proof -
    have "DecodeFixed32 (drop (i * 4) (concat (map EncodeFixed32 ws) @ [11])) = word_of_nat (offs ! i)"
      using DecodeFixed32_nth [of i ws "[11]"] that lo lw by (simp add: ws_def)
    then show ?thesis using le [OF that] small by (simp add: c' unat_word_of_nat_small)
  qed
  have last_word: "unat (DecodeFixed32 (drop (length c - 5) c)) = length (concat filters)"
    using word [of "length filters"] by (simp add: n offs_def nth_append mult.commute)
  have base: "c ! (length c - 1) = 11" by (simp add: c' nth_append)
  have reader: "make_FilterBlockReader c =
      \<lparr>fr_data = Some c, fr_offset = length (concat filters), fr_num = length filters, fr_base_lg = 11\<rparr>"
    using last_word base n by (simp add: make_FilterBlockReader_def Let_def)
  have idx: "unat (drop_bit 11 off) = filter_index off"
    by (simp add: unat_drop_bit_word filter_index_def kFilterBase_def kFilterBaseLg_def)
  show ?thesis
  proof (cases "filter_index off < length filters")
    case True
    note p = piece_of_concat [OF True, folded offs_def]
    have "take (offs ! Suc (filter_index off) - offs ! filter_index off) (drop (offs ! filter_index off) c) =
        filters ! filter_index off"
      unfolding c' by (rule p(1))
    then show ?thesis
      using True word [of "filter_index off"] word [of "Suc (filter_index off)"] p(2) le [of "Suc (filter_index off)"]
      by (simp add: FilterBlock_KeyMayMatch_def reader idx Let_def algebra_simps)
  next
    case False
    then show ?thesis by (simp add: FilterBlock_KeyMayMatch_def reader idx Let_def)
  qed
qed

context filter_policy
begin

lemma finished_block_matches:
  assumes "holds may_match b added" "(filter_index off, key) \<in> added"
    and "length (FilterBlock_Finish create b) < 2 ^ 32"
  shows "FilterBlock_KeyMayMatch may_match (make_FilterBlockReader (FilterBlock_Finish create b)) off key"
proof -
  define b' where "b' = (if fb_start b \<noteq> [] then GenerateFilter create b else b)"
  obtain filters where f: "fb_rep b' filters []"
      "\<forall>(i, key)\<in>added. i < length filters \<longrightarrow> may_match key (filters ! i)"
  proof (cases "fb_start b = []")
    case True
    then show ?thesis using assms(1) that
      by (auto simp: holds_def b'_def fb_rep_def sizes_before_def)
  next
    case False
    obtain filters pending where r: "fb_rep b filters pending"
      "\<forall>(i, key)\<in>added. i < length filters \<and> may_match key (filters ! i) \<or> i = length filters \<and> key \<in> set pending"
      using assms(1) unfolding holds_def by blast
    obtain f where f: "fb_rep (GenerateFilter create b) (filters @ [f]) []" "\<forall>key\<in>set pending. may_match key f"
      using GenerateFilter_rep [OF r(1)] by blast
    have "may_match key ((filters @ [f]) ! i)" if "(i, key) \<in> added" for i key
      using r(2) that f(2) by (cases "i = length filters") (auto simp: nth_append)
    then show ?thesis
      using that [of "filters @ [f]"] f(1) False by (simp add: b'_def case_prod_beta)
  qed
  have c: "FilterBlock_Finish create b = concat filters @
      concat (map EncodeFixed32 (fb_filter_offsets b' @ [word_of_nat (length (concat filters))])) @ [word_of_nat kFilterBaseLg]"
    using f(1) by (simp add: FilterBlock_Finish_def Let_def b'_def [symmetric] fold_append32 PutFixed32_def fb_rep_def)
  have "length (concat filters) < 2 ^ 32" using assms(3) unfolding c by simp
  then show ?thesis
    using read_filter_block [OF f(1) _ c] f(2) assms(2) by auto
qed

lemma holds_make: "holds may_match make_FilterBlockBuilder {}"
  using fb_rep_make by (auto simp: holds_def)

lemma filter_block_matches:
  assumes "sorted (map fst bs)" "(off, ks) \<in> set bs" "key \<in> set ks"
    and "length (FilterBlock_Finish create (build_filters create bs make_FilterBlockBuilder)) < 2 ^ 32"
  shows "FilterBlock_KeyMayMatch may_match
    (make_FilterBlockReader (FilterBlock_Finish create (build_filters create bs make_FilterBlockBuilder))) off key"
proof (rule finished_block_matches [OF _ _ assms(4)])
  show "holds may_match (build_filters create bs make_FilterBlockBuilder)
      ({} \<union> {(filter_index off, key) |off ks key. (off, ks) \<in> set bs \<and> key \<in> set ks})"
    by (rule build_filters_holds [OF holds_make assms(1)]) (simp add: make_FilterBlockBuilder_def)
  show "(filter_index off, key) \<in> {} \<union> {(filter_index off, key) |off ks key. (off, ks) \<in> set bs \<and> key \<in> set ks}"
    using assms(2,3) by auto
qed

end



end
