(* ===== verification/Arena.thy ===== *)
theory Arena
  imports LevelDB_Prelude
begin

text \<open>The bump allocator of \<^verbatim>\<open>util/arena.h\<close> and \<^verbatim>\<open>util/arena.cpp\<close>.  Addresses are natural
  numbers, \<^verbatim>\<open>NULL\<close> is 0.  \<^verbatim>\<open>new char[n]\<close> is the parameter \<open>new_char\<close>: given the blocks that
  are live and a size it returns an address.  Next to each pointer of \<^verbatim>\<open>blocks_\<close> the model keeps
  the size it was requested with.\<close>

type_synonym region = "nat \<times> nat"

type_synonym new_char = "region list \<Rightarrow> nat \<Rightarrow> nat"

record arena =
  alloc_ptr :: nat
  alloc_bytes_remaining :: nat
  blocks :: "region list"
  blocks_memory :: nat

definition kBlockSize :: nat where
  "kBlockSize = 4096"

definition make_Arena :: arena where
  "make_Arena = \<lparr>alloc_ptr = 0, alloc_bytes_remaining = 0, blocks = [], blocks_memory = 0\<rparr>"

definition AllocateNewBlock :: "new_char \<Rightarrow> nat \<Rightarrow> arena \<Rightarrow> nat \<times> arena" where
  "AllocateNewBlock new_char block_bytes a =
     (let result = new_char (blocks a) block_bytes
      in (result, a\<lparr>blocks_memory := blocks_memory a + block_bytes,
                    blocks := blocks a @ [(result, block_bytes)]\<rparr>))"

definition AllocateFallback :: "new_char \<Rightarrow> nat \<Rightarrow> arena \<Rightarrow> nat \<times> arena" where
  "AllocateFallback new_char bytes a =
     (if bytes > kBlockSize div 4 then AllocateNewBlock new_char bytes a
      else let (block, a') = AllocateNewBlock new_char kBlockSize a
           in (block, a'\<lparr>alloc_ptr := block + bytes,
                         alloc_bytes_remaining := kBlockSize - bytes\<rparr>))"

definition Allocate :: "new_char \<Rightarrow> nat \<Rightarrow> arena \<Rightarrow> nat \<times> arena" where
  "Allocate new_char bytes a =
     (if bytes \<le> alloc_bytes_remaining a
      then (alloc_ptr a, a\<lparr>alloc_ptr := alloc_ptr a + bytes,
                           alloc_bytes_remaining := alloc_bytes_remaining a - bytes\<rparr>)
      else AllocateFallback new_char bytes a)"

text \<open>\<^verbatim>\<open>x & (align - 1)\<close> with \<^verbatim>\<open>align = 8\<close> is \<open>x mod 8\<close>.\<close>

definition AllocateAligned :: "new_char \<Rightarrow> nat \<Rightarrow> arena \<Rightarrow> nat \<times> arena" where
  "AllocateAligned new_char bytes a =
     (let align = 8;
          current_mod = alloc_ptr a mod align;
          slop = (if current_mod = 0 then 0 else align - current_mod);
          needed = bytes + slop
      in if needed \<le> alloc_bytes_remaining a
         then (alloc_ptr a + slop, a\<lparr>alloc_ptr := alloc_ptr a + needed,
                                     alloc_bytes_remaining := alloc_bytes_remaining a - needed\<rparr>)
         else AllocateFallback new_char bytes a)"

text \<open>\<^verbatim>\<open>blocks_.capacity()\<close> is up to the standard library: the parameter \<open>capacity\<close> gives it from the
  number of elements pushed.\<close>

definition MemoryUsage :: "(nat \<Rightarrow> nat) \<Rightarrow> arena \<Rightarrow> nat" where
  "MemoryUsage capacity a = blocks_memory a + capacity (length (blocks a)) * 8"

subsection \<open>Regions\<close>

definition disjoint_regions :: "region \<Rightarrow> region \<Rightarrow> bool" where
  "disjoint_regions r s \<longleftrightarrow> fst r + snd r \<le> fst s \<or> fst s + snd s \<le> fst r"

definition inside :: "region \<Rightarrow> region \<Rightarrow> bool" where
  "inside r b \<longleftrightarrow> fst b \<le> fst r \<and> fst r + snd r \<le> fst b + snd b"

text \<open>What the allocator promises: the address is aligned for a pointer and the block overlaps no live
  block.\<close>

definition new_char_ok :: "new_char \<Rightarrow> bool" where
  "new_char_ok new_char \<longleftrightarrow>
     (\<forall>bs n. new_char bs n mod 8 = 0 \<and> (\<forall>b \<in> set bs. disjoint_regions (new_char bs n, n) b))"

text \<open>A request, and the run of a list of requests: the arena with the regions handed out, newest first.\<close>

datatype request = Plain nat | Aligned nat

fun request_bytes :: "request \<Rightarrow> nat" where
  "request_bytes (Plain n) = n"
| "request_bytes (Aligned n) = n"

fun serve :: "new_char \<Rightarrow> request \<Rightarrow> arena \<Rightarrow> nat \<times> arena" where
  "serve new_char (Plain n) a = Allocate new_char n a"
| "serve new_char (Aligned n) a = AllocateAligned new_char n a"

fun serve_all :: "new_char \<Rightarrow> request list \<Rightarrow> arena \<Rightarrow> region list \<times> arena" where
  "serve_all new_char [] a = ([], a)"
| "serve_all new_char (q # qs) a =
     (let (p, a') = serve new_char q a;
          (rs, a'') = serve_all new_char qs a'
      in ((p, request_bytes q) # rs, a''))"

text \<open>The invariant, for the regions \<open>R\<close> handed out so far: the free tail lies in a block and meets no
  region that was handed out.\<close>

definition in_block :: "arena \<Rightarrow> region \<Rightarrow> bool" where
  "in_block a r \<longleftrightarrow> (\<exists>b \<in> set (blocks a). inside r b)"

definition arena_ok :: "region list \<Rightarrow> arena \<Rightarrow> bool" where
  "arena_ok R a \<longleftrightarrow>
     blocks_memory a = sum_list (map snd (blocks a)) \<and>
     (alloc_bytes_remaining a > 0 \<longrightarrow>
        in_block a (alloc_ptr a, alloc_bytes_remaining a) \<and>
        (\<forall>r \<in> set R. disjoint_regions r (alloc_ptr a, alloc_bytes_remaining a))) \<and>
     (\<forall>r \<in> set R. in_block a r) \<and>
     sorted_wrt disjoint_regions R"

lemma disjoint_regions_sym: "disjoint_regions r s \<Longrightarrow> disjoint_regions s r"
  by (auto simp: disjoint_regions_def)

lemma disjoint_inside: "disjoint_regions r s \<Longrightarrow> inside t r \<Longrightarrow> disjoint_regions t s"
  by (auto simp: disjoint_regions_def inside_def)

lemma inside_trans: "inside r s \<Longrightarrow> inside s t \<Longrightarrow> inside r t"
  by (auto simp: inside_def)

lemma new_block_disjoint:
  assumes "new_char_ok new_char" "in_block a r"
  shows "disjoint_regions r (new_char (blocks a) n, n)"
  using assms unfolding new_char_ok_def in_block_def
  by (metis disjoint_inside disjoint_regions_sym)

lemma in_block_inside: "in_block a r \<Longrightarrow> inside t r \<Longrightarrow> in_block a t"
  unfolding in_block_def using inside_trans by blast

lemma in_block_more:
  assumes "blocks a' = blocks a @ [b]"
  shows "in_block a' r \<longleftrightarrow> in_block a r \<or> inside r b"
  using assms by (auto simp: in_block_def)

lemma in_block_cong: "blocks a' = blocks a \<Longrightarrow> in_block a' r = in_block a r"
  by (simp add: in_block_def)

lemma make_Arena_ok: "arena_ok [] make_Arena"
  by (simp add: arena_ok_def make_Arena_def)

lemma AllocateFallback_ok:
  assumes ok: "arena_ok R a" and new: "new_char_ok new_char" and "0 < n"
    and res: "AllocateFallback new_char n a = (p, a')"
  shows "arena_ok ((p, n) # R) a' \<and> p mod 8 = 0"
proof (cases "n > kBlockSize div 4")
  case True
  then have p: "p = new_char (blocks a) n" and
    a': "a' = a\<lparr>blocks_memory := blocks_memory a + n, blocks := blocks a @ [(p, n)]\<rparr>"
    using res by (auto simp: AllocateFallback_def AllocateNewBlock_def Let_def)
  have more: "in_block a' r \<longleftrightarrow> in_block a r \<or> inside r (p, n)" for r
    by (rule in_block_more) (simp add: a')
  have d: "disjoint_regions (p, n) r" if "in_block a r" for r
    using new_block_disjoint [OF new that] disjoint_regions_sym by (simp add: p)
  show ?thesis
    using ok new d unfolding arena_ok_def more
    by (simp add: a' inside_def) (simp add: p new_char_ok_def)
next
  case False
  then have p: "p = new_char (blocks a) kBlockSize" and
    a': "a' = a\<lparr>blocks_memory := blocks_memory a + kBlockSize, blocks := blocks a @ [(p, kBlockSize)],
               alloc_ptr := p + n, alloc_bytes_remaining := kBlockSize - n\<rparr>"
    using res by (auto simp: AllocateFallback_def AllocateNewBlock_def Let_def)
  have d: "disjoint_regions r (p, n) \<and> disjoint_regions r (p + n, kBlockSize - n)" if "in_block a r" for r
    using new_block_disjoint [OF new that, of kBlockSize] False
    by (auto simp: p disjoint_regions_def kBlockSize_def)
  have more: "in_block a' r \<longleftrightarrow> in_block a r \<or> inside r (p, kBlockSize)" for r
    by (rule in_block_more) (simp add: a')
  have "disjoint_regions (p, n) (p + n, kBlockSize - n)" by (simp add: disjoint_regions_def)
  then show ?thesis
    using ok new d False unfolding arena_ok_def more
    by (auto simp: a' inside_def kBlockSize_def p new_char_ok_def intro: disjoint_regions_sym)
qed

text \<open>Both fast paths hand out a part of the free tail.\<close>

lemma bump_ok:
  assumes ok: "arena_ok R a" and "0 < n" and fits: "n + slop \<le> alloc_bytes_remaining a"
  shows "arena_ok ((alloc_ptr a + slop, n) # R)
           (a\<lparr>alloc_ptr := alloc_ptr a + (n + slop),
              alloc_bytes_remaining := alloc_bytes_remaining a - (n + slop)\<rparr>)"
proof -
  let ?free = "(alloc_ptr a, alloc_bytes_remaining a)"
  have free: "in_block a ?free" "\<forall>r \<in> set R. disjoint_regions r ?free"
    using ok fits \<open>0 < n\<close> by (auto simp: arena_ok_def)
  have d: "disjoint_regions (alloc_ptr a + slop, n) r" if "r \<in> set R" for r
    using free(2) that fits by (auto simp: disjoint_regions_def)
  let ?a = "a\<lparr>alloc_ptr := alloc_ptr a + (n + slop),
               alloc_bytes_remaining := alloc_bytes_remaining a - (n + slop)\<rparr>"
  have same: "in_block ?a r = in_block a r" for r by (rule in_block_cong) simp
  have b: "in_block a (alloc_ptr a + slop, n)"
    "in_block a (alloc_ptr a + (n + slop), alloc_bytes_remaining a - (n + slop))"
    using fits by (auto intro!: in_block_inside [OF free(1)] simp: inside_def)
  have e: "disjoint_regions r (alloc_ptr a + (n + slop), alloc_bytes_remaining a - (n + slop))"
    if "r \<in> set R" for r
    using free(2) that fits by (auto simp: disjoint_regions_def)
  show ?thesis
    using ok d e b unfolding arena_ok_def same
    by (auto simp: disjoint_regions_def)
qed

lemma Allocate_ok:
  assumes "arena_ok R a" "new_char_ok new_char" "0 < n" "Allocate new_char n a = (p, a')"
  shows "arena_ok ((p, n) # R) a'"
proof (cases "n \<le> alloc_bytes_remaining a")
  case True
  with bump_ok [of R a n 0] assms show ?thesis by (auto simp: Allocate_def)
next
  case False
  with AllocateFallback_ok assms show ?thesis by (auto simp: Allocate_def)
qed

lemma align_up: "(x + (if x mod 8 = 0 then 0 else 8 - x mod 8)) mod 8 = (0 :: nat)"
  by (simp split: if_splits) presburger

lemma AllocateAligned_ok:
  assumes "arena_ok R a" "new_char_ok new_char" "0 < n" "AllocateAligned new_char n a = (p, a')"
  shows "arena_ok ((p, n) # R) a' \<and> p mod 8 = 0"
proof -
  define slop where "slop = (if alloc_ptr a mod 8 = 0 then 0 else 8 - alloc_ptr a mod 8)"
  show ?thesis
  proof (cases "n + slop \<le> alloc_bytes_remaining a")
    case True
    then have "p = alloc_ptr a + slop" "a' = a\<lparr>alloc_ptr := alloc_ptr a + (n + slop),
        alloc_bytes_remaining := alloc_bytes_remaining a - (n + slop)\<rparr>"
      using assms(4) by (simp_all add: AllocateAligned_def Let_def slop_def)
    with bump_ok [OF assms(1,3) True] align_up [of "alloc_ptr a"] show ?thesis by (simp add: slop_def)
  next
    case False
    then have "AllocateFallback new_char n a = (p, a')"
      using assms(4) by (simp add: AllocateAligned_def Let_def slop_def)
    with AllocateFallback_ok assms show ?thesis by blast
  qed
qed

lemma serve_ok:
  assumes "arena_ok R a" "new_char_ok new_char" "0 < request_bytes q" "serve new_char q a = (p, a')"
  shows "arena_ok ((p, request_bytes q) # R) a'"
  using assms Allocate_ok AllocateAligned_ok by (cases q) auto

lemma serve_all_ok:
  assumes "arena_ok R a" "new_char_ok new_char" "\<forall>q \<in> set qs. 0 < request_bytes q"
    "serve_all new_char qs a = (rs, a')"
  shows "arena_ok (rev rs @ R) a'"
  using assms
proof (induction qs arbitrary: R a rs)
  case Nil
  then show ?case by simp
next
  case (Cons q qs)
  obtain p a1 where s: "serve new_char q a = (p, a1)" by fastforce
  obtain rs' a2 where t: "serve_all new_char qs a1 = (rs', a2)" by fastforce
  have "arena_ok ((p, request_bytes q) # R) a1" using Cons.prems s serve_ok by simp
  with Cons.IH t Cons.prems s show ?case by fastforce
qed


text \<open>A heap that puts each block after all live ones, at a multiple of 8.\<close>

definition bump_new :: new_char where
  "bump_new bs n = 8 * (\<Sum>b \<leftarrow> bs. fst b + snd b + 1)"

lemma bump_new_ok: "new_char_ok bump_new"
proof -
  have "fst b + snd b \<le> 8 * (\<Sum>b \<leftarrow> bs. fst b + snd b + 1)" if "b \<in> set bs" for b :: region and bs
    using that by (induction bs) auto
  then show ?thesis
    by (auto simp: new_char_ok_def bump_new_def disjoint_regions_def)
qed


end
