(* ===== verification/Random_Gen.thy ===== *)
theory Random_Gen
  imports LevelDB_Prelude
begin

text \<open>The linear congruential generator of \<^verbatim>\<open>util/random.h\<close>.\<close>

definition make_Random :: "u32 \<Rightarrow> u32" where
  "make_Random s = s AND 0x7fffffff"

text \<open>\<^verbatim>\<open>Next\<close> returns the new \<^verbatim>\<open>seed_\<close>, which is also its result.\<close>

definition Random_Next :: "u32 \<Rightarrow> u32" where
  "Random_Next seed =
     (let M = 2147483647 :: u32;
          A = 16807 :: u64;
          product = ucast seed * A;
          seed' = ucast (drop_bit 31 product + (product AND ucast M)) :: u32
      in if seed' > M then seed' - M else seed')"

definition Random_Uniform :: "u32 \<Rightarrow> u32 \<Rightarrow> u32 \<times> u32" where
  "Random_Uniform seed n = (let seed' = Random_Next seed in (seed' mod n, seed'))"

definition Random_OneIn :: "u32 \<Rightarrow> u32 \<Rightarrow> bool \<times> u32" where
  "Random_OneIn seed n = (let seed' = Random_Next seed in (seed' mod n = 0, seed'))"

definition Random_Skewed :: "u32 \<Rightarrow> u32 \<Rightarrow> u32 \<times> u32" where
  "Random_Skewed seed max_log =
     (let (base, seed') = Random_Uniform seed (max_log + 1)
      in Random_Uniform seed' (push_bit (unat base) 1))"

definition seed_ok :: "u32 \<Rightarrow> bool" where
  "seed_ok seed \<longleftrightarrow> 0 < seed \<and> seed < 2147483647"

lemma unat_product:
  assumes "unat seed < 2147483647"
  shows "unat (ucast (seed :: u32) * (16807 :: u64)) = unat seed * 16807"
  using assms by (simp add: unat_word_ariths unat_ucast_up)

lemma and_M_eq_mod: "unat ((p :: u64) AND 0x7fffffff) = unat p mod 2 ^ 31"
proof -
  have "(0x7fffffff :: u64) = mask 31" by (simp add: mask_eq_exp_minus_1)
  then have "p AND 0x7fffffff = take_bit 31 p" by (simp add: take_bit_eq_mask)
  then show ?thesis by (simp add: take_bit_eq_mod unat_mod)
qed

text \<open>Folding the high bits onto the low ones is reduction modulo \<open>2 ^ 31 - 1\<close>.\<close>

lemma mersenne_fold:
  fixes p :: nat
  shows "(p div 2 ^ 31 + p mod 2 ^ 31) mod 2147483647 = p mod 2147483647"
proof -
  have "p = (p div 2 ^ 31) * 2 ^ 31 + p mod 2 ^ 31" by simp
  also have "\<dots> = (p div 2 ^ 31 + p mod 2 ^ 31) + 2147483647 * (p div 2 ^ 31)" by simp
  finally show ?thesis by (metis mod_mult_self2)
qed

lemma product_not_divisible:
  fixes s :: nat
  assumes "0 < s" "s < 2147483647"
  shows "(s * 16807) mod 2147483647 \<noteq> 0"
proof
  assume "(s * 16807) mod 2147483647 = 0"
  then have "2147483647 dvd s * 16807" by (rule mod_0_imp_dvd)
  moreover have "coprime 2147483647 (16807 :: nat)" by (simp add: coprime_iff_gcd_eq_1 gcd_nat.simps)
  ultimately have "2147483647 dvd s" by (simp add: coprime_dvd_mult_left_iff)
  then show False using assms by (auto dest: dvd_imp_le)
qed

text \<open>C16: \<^verbatim>\<open>Random::Next\<close> computes the Lehmer step \<open>seed * 16807 mod (2^31 - 1)\<close> without a
  division, and keeps the seed in the range \<open>[1, 2^31 - 2]\<close> for ever.\<close>

theorem random_next_correct:
  assumes "seed_ok seed"
  shows "unat (Random_Next seed) = unat seed * 16807 mod 2147483647 \<and> seed_ok (Random_Next seed)"
proof -
  define p where "p = unat seed * 16807"
  define f where "f = p div 2 ^ 31 + p mod 2 ^ 31"
  have s: "0 < unat seed" "unat seed < 2147483647"
    using assms by (simp_all add: seed_ok_def word_less_nat_alt)
  have f_bound: "f < 2147483648 + 16807"
    using s unfolding f_def p_def by (simp add: less_mult_imp_div_less add_less_mono) 
  have f_mod: "f mod 2147483647 = p mod 2147483647" "p mod 2147483647 \<noteq> 0"
    using product_not_divisible s by (simp_all add: f_def p_def mersenne_fold del: power_numeral)
  define t :: u64 where "t = drop_bit 31 (ucast seed * 16807) + (ucast seed * 16807 AND 0x7fffffff)"
  have t: "unat t = f"
    using s f_bound unat_product [of seed]
    by (simp add: t_def f_def p_def unat_plus_if' unat_drop_bit_word and_M_eq_mod)
  have next': "Random_Next seed = (if ucast t > (2147483647 :: u32) then ucast t - 2147483647 else ucast t)"
    by (simp add: Random_Next_def Let_def t_def)
  have u: "unat (ucast t :: u32) = f"
    using t f_bound by (simp add: unsigned_ucast_eq take_bit_eq_mod)
  have "f \<noteq> 2147483647" "f \<noteq> 0" using f_mod by (auto intro: ccontr)
  then have "unat (Random_Next seed) = f mod 2147483647"
    using f_bound u
    by (simp add: next' word_less_nat_alt unat_sub word_le_nat_alt mod_if)
  then show ?thesis using f_mod by (simp add: p_def seed_ok_def word_less_nat_alt)
qed

theorem random_next_correct_witness:
  "seed_ok 301 \<and> unat (Random_Next 301) = 5058907 \<and> seed_ok (Random_Next 301)"
  using random_next_correct [of 301] by (simp add: seed_ok_def)

end
