(* ===== verification/Skip_List.thy ===== *)
theory Skip_List
  imports Comparator Arena Random_Gen
begin

text \<open>
  The skip list of \<^verbatim>\<open>db/skiplist.h\<close>.  Nodes live in an explicit store: a list of nodes indexed by
  the order of allocation, where index 0 is \<^verbatim>\<open>head_\<close>, and a link is the index of a node or
  \<open>None\<close> for \<^verbatim>\<open>NULL\<close>.  The searches are the pointer-chasing loops of the source as partial
  functions (they need not end on a store with a cycle); that they return on a well-formed list is
  proved together with what they return.  The comparator is an argument, and the lemmas about the
  list hold for every comparator that satisfies \<open>three_way\<close>.
\<close>

record 'k node =
  node_key :: 'k
  node_next :: "nat option list"

record 'k skiplist =
  nodes :: "'k node list"
  max_height :: nat
  rnd :: u32

definition kMaxHeight :: nat where
  "kMaxHeight = 12"

definition head :: nat where
  "head = 0"

definition key_of :: "'k skiplist \<Rightarrow> nat \<Rightarrow> 'k" where
  "key_of sl x = node_key (nodes sl ! x)"

definition Next :: "'k skiplist \<Rightarrow> nat \<Rightarrow> nat \<Rightarrow> nat option" where
  "Next sl x n = node_next (nodes sl ! x) ! n"

definition SetNext :: "'k skiplist \<Rightarrow> nat \<Rightarrow> nat \<Rightarrow> nat option \<Rightarrow> 'k skiplist" where
  "SetNext sl x n y =
     sl\<lparr>nodes := (nodes sl)[x := (nodes sl ! x)\<lparr>node_next := (node_next (nodes sl ! x))[n := y]\<rparr>]\<rparr>"

text \<open>\<^verbatim>\<open>sizeof(Node)\<close> is 16 for the \<^verbatim>\<open>const char*\<close> keys of the memtable.\<close>

definition NewNode :: "new_char \<Rightarrow> 'k \<Rightarrow> nat \<Rightarrow> 'k skiplist \<times> arena \<Rightarrow> nat \<times> 'k skiplist \<times> arena" where
  "NewNode new_char key height = (\<lambda>(sl, a).
     let (mem, a') = AllocateAligned new_char (16 + 8 * (height - 1)) a
     in (length (nodes sl),
         sl\<lparr>nodes := nodes sl @ [\<lparr>node_key = key, node_next = replicate height None\<rparr>]\<rparr>, a'))"

definition make_SkipList :: "new_char \<Rightarrow> 'k \<Rightarrow> arena \<Rightarrow> 'k skiplist \<times> arena" where
  "make_SkipList new_char any_key a =
     (let (h, sl, a') = NewNode new_char any_key kMaxHeight
            (\<lparr>nodes = [], max_height = 1, rnd = make_Random 0xdeadbeef\<rparr>, a)
      in (fold (\<lambda>i sl. SetNext sl h i None) [0 ..< kMaxHeight] sl, a'))"

definition KeyIsAfterNode :: "('k \<Rightarrow> 'k \<Rightarrow> int) \<Rightarrow> 'k skiplist \<Rightarrow> 'k \<Rightarrow> nat option \<Rightarrow> bool" where
  "KeyIsAfterNode cmp sl key n = (case n of None \<Rightarrow> False | Some n \<Rightarrow> cmp (key_of sl n) key < 0)"

text \<open>\<open>prev\<close> is the array to fill, its entries \<open>None\<close> until they are written.\<close>

partial_function (option) find_ge_loop ::
  "('k \<Rightarrow> 'k \<Rightarrow> int) \<Rightarrow> 'k skiplist \<Rightarrow> 'k \<Rightarrow> nat \<Rightarrow> nat \<Rightarrow> nat option list \<Rightarrow>
   (nat option \<times> nat option list) option" where
  "find_ge_loop cmp sl key x level prev =
     (let nxt = Next sl x level
      in if KeyIsAfterNode cmp sl key nxt then find_ge_loop cmp sl key (the nxt) level prev
         else let prev' = prev[level := Some x]
              in if level = 0 then Some (nxt, prev')
                 else find_ge_loop cmp sl key x (level - 1) prev')"

definition FindGreaterOrEqual ::
  "('k \<Rightarrow> 'k \<Rightarrow> int) \<Rightarrow> 'k skiplist \<Rightarrow> 'k \<Rightarrow> nat option list \<Rightarrow> (nat option \<times> nat option list) option" where
  "FindGreaterOrEqual cmp sl key prev = find_ge_loop cmp sl key head (max_height sl - 1) prev"

partial_function (option) find_lt_loop ::
  "('k \<Rightarrow> 'k \<Rightarrow> int) \<Rightarrow> 'k skiplist \<Rightarrow> 'k \<Rightarrow> nat \<Rightarrow> nat \<Rightarrow> nat option" where
  "find_lt_loop cmp sl key x level =
     (case Next sl x level of
        None \<Rightarrow> if level = 0 then Some x else find_lt_loop cmp sl key x (level - 1)
      | Some n \<Rightarrow>
          if cmp (key_of sl n) key \<ge> 0
          then (if level = 0 then Some x else find_lt_loop cmp sl key x (level - 1))
          else find_lt_loop cmp sl key n level)"

definition FindLessThan :: "('k \<Rightarrow> 'k \<Rightarrow> int) \<Rightarrow> 'k skiplist \<Rightarrow> 'k \<Rightarrow> nat option" where
  "FindLessThan cmp sl key = find_lt_loop cmp sl key head (max_height sl - 1)"

partial_function (option) find_last_loop :: "'k skiplist \<Rightarrow> nat \<Rightarrow> nat \<Rightarrow> nat option" where
  "find_last_loop sl x level =
     (case Next sl x level of
        None \<Rightarrow> if level = 0 then Some x else find_last_loop sl x (level - 1)
      | Some n \<Rightarrow> find_last_loop sl n level)"

definition FindLast :: "'k skiplist \<Rightarrow> nat option" where
  "FindLast sl = find_last_loop sl head (max_height sl - 1)"

function random_height_loop :: "u32 \<Rightarrow> nat \<Rightarrow> nat \<times> u32" where
  "random_height_loop seed height =
     (if height < kMaxHeight
      then let seed' = Random_Next seed
           in if seed' mod 4 = 0 then random_height_loop seed' (height + 1) else (height, seed')
      else (height, seed))"
  by pat_completeness auto
termination by (relation "measure (\<lambda>(_, height). kMaxHeight - height)") auto

declare random_height_loop.simps [simp del]

definition RandomHeight :: "'k skiplist \<Rightarrow> nat \<times> 'k skiplist" where
  "RandomHeight sl = (let (height, seed) = random_height_loop (rnd sl) 1 in (height, sl\<lparr>rnd := seed\<rparr>))"

text \<open>One turn of the linking loop of \<^verbatim>\<open>Insert\<close>.\<close>

definition link_level :: "nat option list \<Rightarrow> nat \<Rightarrow> nat \<Rightarrow> 'k skiplist \<Rightarrow> 'k skiplist" where
  "link_level prev x i sl =
     (let p = the (prev ! i); sl1 = SetNext sl x i (Next sl p i)
      in SetNext sl1 p i (Some x))"

text \<open>\<^verbatim>\<open>Insert\<close> up to the linking loop: the predecessors, the new node with its height, the list with
  the node allocated.\<close>

definition Insert_prepare ::
  "('k \<Rightarrow> 'k \<Rightarrow> int) \<Rightarrow> new_char \<Rightarrow> 'k \<Rightarrow> 'k skiplist \<times> arena \<Rightarrow>
   (nat option list \<times> nat \<times> nat \<times> 'k skiplist \<times> arena) option" where
  "Insert_prepare cmp new_char key = (\<lambda>(sl, a).
     case FindGreaterOrEqual cmp sl key (replicate kMaxHeight None) of
       None \<Rightarrow> None
     | Some (_, prev) \<Rightarrow>
         let (height, sl1) = RandomHeight sl;
             (prev', sl2) =
               (if height > max_height sl1
                then (fold (\<lambda>i p. p[i := Some head]) [max_height sl1 ..< height] prev,
                      sl1\<lparr>max_height := height\<rparr>)
                else (prev, sl1));
             (x, sl3, a') = NewNode new_char key height (sl2, a)
         in Some (prev', x, height, sl3, a'))"

definition Insert ::
  "('k \<Rightarrow> 'k \<Rightarrow> int) \<Rightarrow> new_char \<Rightarrow> 'k \<Rightarrow> 'k skiplist \<times> arena \<Rightarrow> ('k skiplist \<times> arena) option" where
  "Insert cmp new_char key sla =
     (case Insert_prepare cmp new_char key sla of
        None \<Rightarrow> None
      | Some (prev, x, height, sl, a) \<Rightarrow> Some (fold (link_level prev x) [0 ..< height] sl, a))"

definition Contains :: "('k \<Rightarrow> 'k \<Rightarrow> int) \<Rightarrow> 'k skiplist \<Rightarrow> 'k \<Rightarrow> bool option" where
  "Contains cmp sl key =
     (case FindGreaterOrEqual cmp sl key [] of
        None \<Rightarrow> None
      | Some (None, _) \<Rightarrow> Some False
      | Some (Some x, _) \<Rightarrow> Some (cmp key (key_of sl x) = 0))"

subsection \<open>The iterator\<close>

text \<open>The state of an iterator is \<^verbatim>\<open>node_\<close>; the operations that search return \<open>None\<close> when the search
  does not return.\<close>

definition iter_Valid :: "nat option \<Rightarrow> bool" where
  "iter_Valid node \<longleftrightarrow> node \<noteq> None"

definition iter_key :: "'k skiplist \<Rightarrow> nat option \<Rightarrow> 'k" where
  "iter_key sl node = key_of sl (the node)"

definition iter_Next :: "'k skiplist \<Rightarrow> nat option \<Rightarrow> nat option" where
  "iter_Next sl node = Next sl (the node) 0"

definition iter_Prev :: "('k \<Rightarrow> 'k \<Rightarrow> int) \<Rightarrow> 'k skiplist \<Rightarrow> nat option \<Rightarrow> nat option option" where
  "iter_Prev cmp sl node =
     map_option (\<lambda>n. if n = head then None else Some n) (FindLessThan cmp sl (iter_key sl node))"

definition iter_Seek :: "('k \<Rightarrow> 'k \<Rightarrow> int) \<Rightarrow> 'k skiplist \<Rightarrow> 'k \<Rightarrow> nat option option" where
  "iter_Seek cmp sl target = map_option fst (FindGreaterOrEqual cmp sl target [])"

definition iter_SeekToFirst :: "'k skiplist \<Rightarrow> nat option" where
  "iter_SeekToFirst sl = Next sl head 0"

definition iter_SeekToLast :: "'k skiplist \<Rightarrow> nat option option" where
  "iter_SeekToLast sl = map_option (\<lambda>n. if n = head then None else Some n) (FindLast sl)"


subsection \<open>Paths\<close>

text \<open>\<open>path nx x ys\<close>: following \<open>nx\<close> from \<open>x\<close> visits exactly the nodes \<open>ys\<close> and then stops.\<close>

fun path :: "(nat \<Rightarrow> nat option) \<Rightarrow> nat \<Rightarrow> nat list \<Rightarrow> bool" where
  "path nx x [] \<longleftrightarrow> nx x = None"
| "path nx x (y # ys) \<longleftrightarrow> nx x = Some y \<and> path nx y ys"

abbreviation first :: "'a list \<Rightarrow> 'a option" where
  "first xs \<equiv> (case xs of [] \<Rightarrow> None | x # _ \<Rightarrow> Some x)"

lemma path_first: "path nx x ys \<Longrightarrow> nx x = first ys"
  by (cases ys) auto

lemma path_after: "path nx z (xs @ x # ys) \<Longrightarrow> path nx x ys"
  by (induction xs arbitrary: z) auto

lemma path_after_last: "path nx z (xs @ ys) \<Longrightarrow> path nx (last (z # xs)) ys"
  by (induction xs arbitrary: z) auto

lemma path_cong: "(\<And>y. y \<in> set (x # ys) \<Longrightarrow> nx' y = nx y) \<Longrightarrow> path nx' x ys = path nx x ys"
  by (induction ys arbitrary: x) auto

lemma path_insert:
  assumes "path nx z (xs @ ys)" "n \<notin> set (z # xs @ ys)" "distinct (z # xs @ ys)"
  shows "path (nx(n := nx (last (z # xs)), last (z # xs) := Some n)) z (xs @ n # ys)"
  using assms
proof (induction xs arbitrary: z)
  case Nil
  have "path (nx(n := nx z, z := Some n)) y zs = path nx y zs" if "ys = y # zs" for y zs
    using Nil.prems that by (intro path_cong) auto
  with Nil show ?case by (cases ys) (auto simp: fun_upd_same fun_upd_other simp del: fun_upd_apply)
next
  case (Cons x xs)
  let ?u = "nx(n := nx (last (x # xs)), last (x # xs) := Some n)"
  have "path ?u x (xs @ n # ys)" using Cons.prems by (intro Cons.IH) auto
  moreover have "last (x # xs) \<noteq> z" using Cons.prems(3) last_in_set [of "x # xs"] by auto
  then have "?u z = Some x" using Cons.prems by (simp del: last.simps)
  moreover have "last (z # x # xs) = last (x # xs)" by simp
  ultimately show ?case by (simp del: last.simps fun_upd_apply)
qed

subsection \<open>Reading after writing\<close>

lemma Next_SetNext:
  assumes "x < length (nodes sl)" "n < length (node_next (nodes sl ! x))"
  shows "Next (SetNext sl x n v) y m = (if y = x \<and> m = n then v else Next sl y m)"
  using assms by (simp add: Next_def SetNext_def nth_list_update)

lemma length_nodes_SetNext [simp]: "length (nodes (SetNext sl x n v)) = length (nodes sl)"
  by (simp add: SetNext_def)

lemma max_height_SetNext [simp]: "max_height (SetNext sl x n v) = max_height sl"
  by (simp add: SetNext_def)

lemma node_SetNext:
  "node_key (nodes (SetNext sl x n v) ! y) = node_key (nodes sl ! y) \<and>
   length (node_next (nodes (SetNext sl x n v) ! y)) = length (node_next (nodes sl ! y))"
  by (cases "x < length (nodes sl)") (simp_all add: SetNext_def nth_list_update list_update_beyond)

lemma length_next_SetNext [simp]:
  "length (node_next (nodes (SetNext sl x n v) ! y)) = length (node_next (nodes sl ! y))"
  by (simp add: node_SetNext)

lemma key_of_SetNext [simp]: "key_of (SetNext sl x n v) = key_of sl"
  by (rule ext) (simp add: key_of_def node_SetNext)

subsection \<open>The invariant\<close>

text \<open>
  \<open>skip_ok cmp sl xs h\<close>: the nodes of the list are \<open>xs\<close>, in key order, and node \<open>n\<close> is linked into
  the levels below \<open>h n\<close>.  Level \<open>i\<close> links exactly the nodes with \<open>i < h n\<close>.  A node whose links are
  not all set yet has an \<open>h n\<close> smaller than its height.
\<close>

definition links_ok :: "'k skiplist \<Rightarrow> nat list \<Rightarrow> (nat \<Rightarrow> nat) \<Rightarrow> bool" where
  "links_ok sl xs h \<longleftrightarrow>
     (\<forall>i < kMaxHeight. path (\<lambda>x. Next sl x i) head (filter (\<lambda>n. i < h n) xs))"

definition nodes_ok :: "'k skiplist \<Rightarrow> nat list \<Rightarrow> (nat \<Rightarrow> nat) \<Rightarrow> bool" where
  "nodes_ok sl xs h \<longleftrightarrow>
     0 < length (nodes sl) \<and> length (node_next (nodes sl ! head)) = kMaxHeight \<and>
     (\<forall>n \<in> set xs. n \<noteq> head \<and> n < length (nodes sl) \<and> h n \<le> length (node_next (nodes sl ! n))) \<and>
     distinct xs"

definition heights_ok :: "'k skiplist \<Rightarrow> nat list \<Rightarrow> (nat \<Rightarrow> nat) \<Rightarrow> bool" where
  "heights_ok sl xs h \<longleftrightarrow>
     1 \<le> max_height sl \<and> max_height sl \<le> kMaxHeight \<and> (\<forall>n \<in> set xs. 1 \<le> h n \<and> h n \<le> max_height sl)"

definition skip_sorted :: "('k \<Rightarrow> 'k \<Rightarrow> int) \<Rightarrow> 'k list \<Rightarrow> bool" where
  "skip_sorted cmp ks \<longleftrightarrow> sorted_wrt (\<lambda>a b. cmp a b < 0) ks"

definition skip_ok :: "('k \<Rightarrow> 'k \<Rightarrow> int) \<Rightarrow> 'k skiplist \<Rightarrow> nat list \<Rightarrow> (nat \<Rightarrow> nat) \<Rightarrow> bool" where
  "skip_ok cmp sl xs h \<longleftrightarrow> links_ok sl xs h \<and> nodes_ok sl xs h \<and> heights_ok sl xs h \<and>
     skip_sorted cmp (map (key_of sl) xs)"

text \<open>The abstract state: the sorted list of keys.\<close>

definition skip_repr :: "('k \<Rightarrow> 'k \<Rightarrow> int) \<Rightarrow> 'k skiplist \<Rightarrow> 'k list \<Rightarrow> bool" where
  "skip_repr cmp sl ks \<longleftrightarrow> (\<exists>xs h. skip_ok cmp sl xs h \<and> ks = map (key_of sl) xs)"

text \<open>An iterator at position \<open>i\<close> of the list; at the end of the list it is not valid.\<close>

definition iter_repr :: "('k \<Rightarrow> 'k \<Rightarrow> int) \<Rightarrow> 'k skiplist \<Rightarrow> 'k list \<Rightarrow> nat \<Rightarrow> nat option \<Rightarrow> bool" where
  "iter_repr cmp sl ks i node \<longleftrightarrow>
     (\<exists>xs h. skip_ok cmp sl xs h \<and> ks = map (key_of sl) xs \<and> i \<le> length xs \<and>
        node = (if i < length xs then Some (xs ! i) else None))"

subsection \<open>The searches\<close>

text \<open>On one level the search runs over the nodes before the key and stops at the last of them.\<close>

lemma find_ge_level:
  assumes "path (\<lambda>x. Next sl x level) x (bs @ as)"
    and "\<forall>b \<in> set bs. cmp (key_of sl b) key < 0" and "\<forall>a \<in> set as. \<not> cmp (key_of sl a) key < 0"
  shows "find_ge_loop cmp sl key x level prev =
    (let prev' = prev[level := Some (last (x # bs))]
     in if level = 0 then Some (first as, prev')
        else find_ge_loop cmp sl key (last (x # bs)) (level - 1) prev')"
  using assms
proof (induction bs arbitrary: x)
  case Nil
  then have "Next sl x level = first as" using path_first by fastforce
  then have "\<not> KeyIsAfterNode cmp sl key (Next sl x level)"
    using Nil.prems(3) by (auto simp: KeyIsAfterNode_def split: option.splits list.splits)
  with \<open>Next sl x level = first as\<close> show ?case
    by (subst find_ge_loop.simps) (simp add: Let_def)
next
  case (Cons b bs)
  then have step: "find_ge_loop cmp sl key x level prev = find_ge_loop cmp sl key b level prev"
    by (subst find_ge_loop.simps) (simp add: Let_def KeyIsAfterNode_def)
  have tail: "path (\<lambda>x. Next sl x level) b (bs @ as)" "\<forall>b \<in> set bs. cmp (key_of sl b) key < 0"
    using Cons.prems by auto
  have "last (x # b # bs) = last (b # bs)" by simp
  then show ?case by (simp only: step Cons.IH [OF tail Cons.prems(3)])
qed

text \<open>The split of a well-formed list at a key, and where the search enters a level.\<close>

lemma level_entry:
  assumes links: "links_ok sl (bs @ as) h" and i: "i < kMaxHeight"
    and x: "x = head \<or> x \<in> set bs \<and> i < h x"
  shows "\<exists>cs. path (\<lambda>x. Next sl x i) x (cs @ filter (\<lambda>n. i < h n) as) \<and> set cs \<subseteq> set bs \<and>
              last (x # cs) = last (head # filter (\<lambda>n. i < h n) bs)"
proof -
  let ?f = "filter (\<lambda>n. i < h n)"
  have p: "path (\<lambda>x. Next sl x i) head (?f bs @ ?f as)" using links i by (auto simp: links_ok_def)
  show ?thesis
  proof (cases "x = head")
    case True
    with p show ?thesis by (intro exI [of _ "?f bs"]) auto
  next
    case False
    with x have "x \<in> set (?f bs)" by auto
    then obtain us vs where "?f bs = us @ x # vs" by (meson split_list)
    with p path_after [of _ head us x "vs @ ?f as"] show ?thesis
      using filter_is_subset [of "\<lambda>n. i < h n" bs] by (intro exI [of _ vs]) auto
  qed
qed

lemma find_ge_loop_correct:
  assumes links: "links_ok sl (bs @ as) h"
    and bs: "\<forall>b \<in> set bs. cmp (key_of sl b) key < 0" and as: "\<forall>a \<in> set as. \<not> cmp (key_of sl a) key < 0"
    and low: "\<forall>a \<in> set as. 0 < h a"
  shows "level < kMaxHeight \<Longrightarrow> x = head \<or> x \<in> set bs \<and> level < h x \<Longrightarrow>
    \<exists>prev'. find_ge_loop cmp sl key x level prev = Some (first as, prev') \<and> length prev' = length prev \<and>
      (\<forall>j < length prev. prev' ! j =
         (if j \<le> level then Some (last (head # filter (\<lambda>n. j < h n) bs)) else prev ! j))"
proof (induction level arbitrary: x prev)
  case 0
  obtain cs where cs: "path (\<lambda>x. Next sl x 0) x (cs @ filter (\<lambda>n. 0 < h n) as)" "set cs \<subseteq> set bs"
      "last (x # cs) = last (head # filter (\<lambda>n. 0 < h n) bs)"
    using level_entry [OF links 0] by blast
  have "filter (\<lambda>n. 0 < h n) as = as" using low by simp
  then have "find_ge_loop cmp sl key x 0 prev =
      Some (first as, prev[0 := Some (last (head # filter (\<lambda>n. 0 < h n) bs))])"
    using find_ge_level [OF cs(1), of cmp key prev] bs as cs(2,3)
    by (simp add: Let_def subset_iff del: last.simps)
  then show ?case
    by (simp add: nth_list_update del: last.simps)
next
  case (Suc level)
  obtain cs where cs: "path (\<lambda>x. Next sl x (Suc level)) x (cs @ filter (\<lambda>n. Suc level < h n) as)"
      "set cs \<subseteq> set bs" "last (x # cs) = last (head # filter (\<lambda>n. Suc level < h n) bs)"
    using level_entry [OF links Suc.prems] by blast
  let ?y = "last (head # filter (\<lambda>n. Suc level < h n) bs)"
  have y: "?y = head \<or> ?y \<in> set bs \<and> level < h ?y"
    using last_in_set [of "filter (\<lambda>n. Suc level < h n) bs"] by auto
  have "find_ge_loop cmp sl key x (Suc level) prev =
        find_ge_loop cmp sl key ?y level (prev[Suc level := Some ?y])"
    using find_ge_level [OF cs(1), of cmp key prev] bs as cs(2,3)
    by (simp add: Let_def subset_iff del: last.simps)
  moreover obtain prev' where
    "find_ge_loop cmp sl key ?y level (prev[Suc level := Some ?y]) = Some (first as, prev')"
    "length prev' = length prev"
    "\<forall>j < length prev. prev' ! j = (if j \<le> level then Some (last (head # filter (\<lambda>n. j < h n) bs))
       else prev[Suc level := Some ?y] ! j)"
    using Suc.IH [of ?y "prev[Suc level := Some ?y]"] y Suc.prems(1) by (auto simp del: last.simps)
  ultimately show ?case
    by (intro exI [of _ prev']) (auto simp: nth_list_update le_Suc_eq simp del: last.simps)
qed

lemma find_lt_level:
  assumes "path (\<lambda>x. Next sl x level) x (bs @ as)"
    and "\<forall>b \<in> set bs. cmp (key_of sl b) key < 0" and "\<forall>a \<in> set as. \<not> cmp (key_of sl a) key < 0"
  shows "find_lt_loop cmp sl key x level =
    (if level = 0 then Some (last (x # bs)) else find_lt_loop cmp sl key (last (x # bs)) (level - 1))"
  using assms
proof (induction bs arbitrary: x)
  case Nil
  then have nx: "Next sl x level = first as" using path_first by fastforce
  show ?case
  proof (cases as)
    case Nil
    with nx show ?thesis by (subst find_lt_loop.simps) simp
  next
    case (Cons a as')
    with nx Nil.prems(3) show ?thesis by (subst find_lt_loop.simps) simp
  qed
next
  case (Cons b bs)
  then have step: "find_lt_loop cmp sl key x level = find_lt_loop cmp sl key b level"
    by (subst find_lt_loop.simps) simp
  have tail: "path (\<lambda>x. Next sl x level) b (bs @ as)" "\<forall>b \<in> set bs. cmp (key_of sl b) key < 0"
    using Cons.prems by auto
  have "last (x # b # bs) = last (b # bs)" by simp
  then show ?case by (simp only: step Cons.IH [OF tail Cons.prems(3)])
qed

lemma find_lt_loop_correct:
  assumes links: "links_ok sl (bs @ as) h"
    and bs: "\<forall>b \<in> set bs. cmp (key_of sl b) key < 0" and as: "\<forall>a \<in> set as. \<not> cmp (key_of sl a) key < 0"
    and low: "\<forall>b \<in> set bs. 0 < h b"
  shows "level < kMaxHeight \<Longrightarrow> x = head \<or> x \<in> set bs \<and> level < h x \<Longrightarrow>
    find_lt_loop cmp sl key x level = Some (last (head # bs))"
proof (induction level arbitrary: x)
  case 0
  obtain cs where cs: "path (\<lambda>x. Next sl x 0) x (cs @ filter (\<lambda>n. 0 < h n) as)" "set cs \<subseteq> set bs"
      "last (x # cs) = last (head # filter (\<lambda>n. 0 < h n) bs)"
    using level_entry [OF links 0] by blast
  have "filter (\<lambda>n. 0 < h n) bs = bs" using low by simp
  then show ?case
    using find_lt_level [OF cs(1), of cmp key] bs as cs(2,3) by (simp add: subset_iff del: last.simps)
next
  case (Suc level)
  obtain cs where cs: "path (\<lambda>x. Next sl x (Suc level)) x (cs @ filter (\<lambda>n. Suc level < h n) as)"
      "set cs \<subseteq> set bs" "last (x # cs) = last (head # filter (\<lambda>n. Suc level < h n) bs)"
    using level_entry [OF links Suc.prems] by blast
  let ?y = "last (head # filter (\<lambda>n. Suc level < h n) bs)"
  have y: "?y = head \<or> ?y \<in> set bs \<and> level < h ?y"
    using last_in_set [of "filter (\<lambda>n. Suc level < h n) bs"] by auto
  have "find_lt_loop cmp sl key x (Suc level) = find_lt_loop cmp sl key ?y level"
    using find_lt_level [OF cs(1), of cmp key] bs as cs(2,3) by (simp add: subset_iff del: last.simps)
  with Suc.IH [of ?y] y Suc.prems(1) show ?case by (simp del: last.simps)
qed

text \<open>\<^verbatim>\<open>FindLast\<close> is \<^verbatim>\<open>FindLessThan\<close> for a key after every other.\<close>

lemma find_last_level:
  assumes "path (\<lambda>x. Next sl x level) x bs"
  shows "find_last_loop sl x level =
    (if level = 0 then Some (last (x # bs)) else find_last_loop sl (last (x # bs)) (level - 1))"
  using assms
proof (induction bs arbitrary: x)
  case Nil
  then show ?case by (subst find_last_loop.simps) simp
next
  case (Cons b bs)
  then have step: "find_last_loop sl x level = find_last_loop sl b level"
    by (subst find_last_loop.simps) simp
  have tail: "path (\<lambda>x. Next sl x level) b bs" using Cons.prems by auto
  have "last (x # b # bs) = last (b # bs)" by simp
  then show ?case by (simp only: step Cons.IH [OF tail])
qed

lemma find_last_loop_correct:
  assumes links: "links_ok sl bs h" and low: "\<forall>b \<in> set bs. 0 < h b"
  shows "level < kMaxHeight \<Longrightarrow> x = head \<or> x \<in> set bs \<and> level < h x \<Longrightarrow>
    find_last_loop sl x level = Some (last (head # bs))"
proof (induction level arbitrary: x)
  case 0
  obtain cs where cs: "path (\<lambda>x. Next sl x 0) x cs"
      "last (x # cs) = last (head # filter (\<lambda>n. 0 < h n) bs)"
    using level_entry [of sl bs "[]" h 0 x] links 0 by auto
  have "filter (\<lambda>n. 0 < h n) bs = bs" using low by simp
  then show ?case using find_last_level [OF cs(1)] cs(2) by (simp del: last.simps)
next
  case (Suc level)
  obtain cs where cs: "path (\<lambda>x. Next sl x (Suc level)) x cs"
      "last (x # cs) = last (head # filter (\<lambda>n. Suc level < h n) bs)"
    using level_entry [of sl bs "[]" h "Suc level" x] links Suc.prems by auto
  let ?y = "last (head # filter (\<lambda>n. Suc level < h n) bs)"
  have y: "?y = head \<or> ?y \<in> set bs \<and> level < h ?y"
    using last_in_set [of "filter (\<lambda>n. Suc level < h n) bs"] by auto
  have "find_last_loop sl x (Suc level) = find_last_loop sl ?y level"
    using find_last_level [OF cs(1)] cs(2) by (simp del: last.simps)
  with Suc.IH [of ?y] y Suc.prems(1) show ?case by (simp del: last.simps)
qed

subsection \<open>Linking\<close>

lemma last_filter_cases: "last (head # filter P bs) = head \<or> last (head # filter P bs) \<in> set (filter P bs)"
  using last_in_set [of "filter P bs"] by auto

lemma Next_link_level:
  assumes "p < length (nodes sl)" "i < length (node_next (nodes sl ! p))" "prev ! i = Some p"
    and "n < length (nodes sl)" "i < length (node_next (nodes sl ! n))"
  shows "Next (link_level prev n i sl) y m =
    (if m = i then ((\<lambda>y. Next sl y i)(n := Next sl p i, p := Some n)) y else Next sl y m)"
  using assms by (simp add: link_level_def Let_def Next_SetNext)

lemma link_level_same [simp]:
  "length (nodes (link_level prev n i sl)) = length (nodes sl)"
  "max_height (link_level prev n i sl) = max_height sl"
  "key_of (link_level prev n i sl) = key_of sl"
  "length (node_next (nodes (link_level prev n i sl) ! y)) = length (node_next (nodes sl ! y))"
  by (simp_all add: link_level_def Let_def)

lemma filter_upd_notin: "n \<notin> set xs \<Longrightarrow> filter (\<lambda>m. i < (g(n := v)) m) xs = filter (\<lambda>m. i < g m) xs"
  by (induction xs) auto

lemma link_level_ok:
  assumes links: "links_ok sl (bs @ n # as) g" and nodes: "nodes_ok sl (bs @ n # as) g"
    and j: "g n = j" "j < kMaxHeight" "j < length (node_next (nodes sl ! n))"
    and prev: "prev ! j = Some (last (head # filter (\<lambda>m. j < g m) bs))"
  shows "links_ok (link_level prev n j sl) (bs @ n # as) (g(n := Suc j)) \<and>
         nodes_ok (link_level prev n j sl) (bs @ n # as) (g(n := Suc j))"
proof -
  let ?p = "last (head # filter (\<lambda>m. j < g m) bs)"
  let ?sl = "link_level prev n j sl"
  have n: "n \<noteq> head" "n < length (nodes sl)" "n \<notin> set bs" "n \<notin> set as"
    using nodes by (auto simp: nodes_ok_def)
  have p: "?p < length (nodes sl)" "j < length (node_next (nodes sl ! ?p))"
    using last_filter_cases [of "\<lambda>m. j < g m" bs] nodes j(2) unfolding nodes_ok_def head_def
    by (auto simp del: last.simps dest!: bspec)
  note upd = Next_link_level [OF p prev n(2) j(3)]
  have "path (\<lambda>x. Next ?sl x i) head (filter (\<lambda>m. i < (g(n := Suc j)) m) (bs @ n # as))"
    if i: "i < kMaxHeight" for i
  proof -
    let ?f = "filter (\<lambda>m. i < g m)"
    have old: "path (\<lambda>x. Next sl x i) head (?f (bs @ n # as))" using links i by (simp add: links_ok_def)
    have new: "filter (\<lambda>m. i < (g(n := Suc j)) m) (bs @ n # as) =
               (if i < Suc j then ?f bs @ n # ?f as else ?f bs @ ?f as)"
      using n by (simp add: filter_upd_notin fun_upd_same del: fun_upd_apply)
    show ?thesis
    proof (cases "i = j")
      case True
      have "path ((\<lambda>x. Next sl x i)(n := Next sl ?p i, ?p := Some n)) head (?f bs @ n # ?f as)"
        unfolding True using old j nodes n True
        by (intro path_insert) (auto simp: nodes_ok_def)
      then show ?thesis using True new upd [of _ i] by (simp del: fun_upd_apply last.simps)
    next
      case False
      with old new j(1) show ?thesis using upd [of _ i] by (auto simp: less_Suc_eq)
    qed
  qed
  then show ?thesis
    using nodes j by (auto simp: links_ok_def nodes_ok_def)
qed

lemma link_levels_ok:
  assumes links: "links_ok sl (bs @ as) h" and nodes: "nodes_ok sl (bs @ n # as) (h(n := 0))"
    and height: "height \<le> kMaxHeight" "length (node_next (nodes sl ! n)) = height"
    and prev: "\<forall>i < height. prev ! i = Some (last (head # filter (\<lambda>m. i < h m) bs))"
  shows "j \<le> height \<Longrightarrow> links_ok (fold (link_level prev n) [0 ..< j] sl) (bs @ n # as) (h(n := j)) \<and>
     nodes_ok (fold (link_level prev n) [0 ..< j] sl) (bs @ n # as) (h(n := j)) \<and>
     length (node_next (nodes (fold (link_level prev n) [0 ..< j] sl) ! n)) = height \<and>
     max_height (fold (link_level prev n) [0 ..< j] sl) = max_height sl \<and>
     key_of (fold (link_level prev n) [0 ..< j] sl) = key_of sl"
proof (induction j)
  case 0
  have "n \<notin> set bs" "n \<notin> set as" using nodes by (auto simp: nodes_ok_def)
  then show ?case using links nodes height
    by (simp add: links_ok_def filter_upd_notin fun_upd_same del: fun_upd_apply)
next
  case (Suc j)
  let ?sl = "fold (link_level prev n) [0 ..< j] sl"
  have n: "n \<notin> set bs" using nodes by (auto simp: nodes_ok_def)
  have "links_ok (link_level prev n j ?sl) (bs @ n # as) ((h(n := j))(n := Suc j)) \<and>
        nodes_ok (link_level prev n j ?sl) (bs @ n # as) ((h(n := j))(n := Suc j))"
    using Suc height prev n by (intro link_level_ok) (auto simp: filter_upd_notin fun_upd_same simp del: last.simps fun_upd_apply)
  with Suc show ?case by (simp del: fun_upd_apply)
qed

subsection \<open>The operations on the abstract list\<close>

lemma random_height_loop_range:
  "1 \<le> height \<Longrightarrow> height \<le> kMaxHeight \<Longrightarrow>
   1 \<le> fst (random_height_loop seed height) \<and> fst (random_height_loop seed height) \<le> kMaxHeight"
proof (induction seed height rule: random_height_loop.induct)
  case (1 seed height)
  then show ?case by (subst (1 2) random_height_loop.simps) (auto simp: Let_def)
qed

lemma nth_fold_update:
  "b \<le> length p \<Longrightarrow> i < length p \<Longrightarrow>
   fold (\<lambda>i p. p[i := v]) [a ..< b] p ! i = (if a \<le> i \<and> i < b then v else p ! i)"
proof (induction b)
  case (Suc b)
  have len: "length (fold (\<lambda>i p. p[i := v]) xs p) = length p" for xs
    by (induction xs arbitrary: p) auto
  show ?case using Suc len by (auto simp: nth_list_update less_Suc_eq)
qed simp

lemma make_SkipList_ok:
  assumes "make_SkipList new_char k a = (sl, a')"
  shows "skip_ok cmp sl [] (\<lambda>_. 0)"
proof -
  have set_nones: "fold (\<lambda>i sl. SetNext sl 0 i None) xs sl0 = sl0"
    if "nodes sl0 = [\<lparr>node_key = k, node_next = replicate kMaxHeight None\<rparr>]" for xs and sl0 :: "'a skiplist"
  proof (induction xs)
    case (Cons i xs)
    have "(replicate kMaxHeight None)[i := None] = replicate kMaxHeight (None :: nat option)"
      by (cases "i < kMaxHeight") (simp_all add: list_update_same_conv list_update_beyond)
    then have "SetNext sl0 0 i None = sl0" using that by (cases sl0) (simp add: SetNext_def)
    with Cons show ?case by simp
  qed simp
  show ?thesis
    using assms unfolding make_SkipList_def NewNode_def
    by (auto simp: Let_def set_nones skip_ok_def links_ok_def nodes_ok_def heights_ok_def skip_sorted_def
        Next_def head_def kMaxHeight_def split: prod.splits)
qed

text \<open>The split of the list at a key.\<close>

abbreviation nodes_before :: "('k \<Rightarrow> 'k \<Rightarrow> int) \<Rightarrow> 'k skiplist \<Rightarrow> 'k \<Rightarrow> nat list \<Rightarrow> nat list" where
  "nodes_before cmp sl key \<equiv> takeWhile (\<lambda>n. cmp (key_of sl n) key < 0)"

abbreviation nodes_from :: "('k \<Rightarrow> 'k \<Rightarrow> int) \<Rightarrow> 'k skiplist \<Rightarrow> 'k \<Rightarrow> nat list \<Rightarrow> nat list" where
  "nodes_from cmp sl key \<equiv> dropWhile (\<lambda>n. cmp (key_of sl n) key < 0)"

definition keys_ok :: "('k \<Rightarrow> bool) \<Rightarrow> 'k skiplist \<Rightarrow> nat list \<Rightarrow> bool" where
  "keys_ok key_ok sl xs \<longleftrightarrow> (\<forall>n \<in> set xs. key_ok (key_of sl n))"

lemma heights_okD:
  assumes "heights_ok sl xs h"
  shows "\<forall>n \<in> set xs. 0 < h n" "max_height sl - 1 < kMaxHeight"
  using assms by (auto simp: heights_ok_def)

lemma before_less: "\<forall>n \<in> set (nodes_before cmp sl key xs). cmp (key_of sl n) key < 0"
  by (auto dest: set_takeWhileD)

context three_way
begin

lemma from_not_less:
  assumes "skip_sorted cmp (map (key_of sl) xs)" "keys_ok key_ok sl xs" "key_ok key"
    and "n \<in> set (nodes_from cmp sl key xs)"
  shows "\<not> cmp (key_of sl n) key < 0"
  using assms
proof (induction xs)
  case (Cons x xs)
  show ?case
  proof (cases "n = x \<or> cmp (key_of sl x) key < 0")
    case True
    then show ?thesis using Cons by (auto simp: skip_sorted_def keys_ok_def split: if_splits)
  next
    case False
    then have "n \<in> set xs" "cmp (key_of sl x) (key_of sl n) < 0"
      using Cons.prems by (auto simp: skip_sorted_def)
    then show ?thesis
      using False Cons.prems cmp_less_trans [of "key_of sl x" "key_of sl n" key] by (auto simp: keys_ok_def)
  qed
qed simp

lemma FindGreaterOrEqual_correct:
  assumes ok: "skip_ok cmp sl xs h" and keys: "keys_ok key_ok sl xs" "key_ok key"
  shows "\<exists>prev'. FindGreaterOrEqual cmp sl key prev = Some (first (nodes_from cmp sl key xs), prev') \<and>
    length prev' = length prev \<and>
    (\<forall>j < length prev. prev' ! j =
       (if j < max_height sl then Some (last (head # filter (\<lambda>n. j < h n) (nodes_before cmp sl key xs)))
        else prev ! j))"
proof -
  let ?b = "nodes_before cmp sl key xs" and ?a = "nodes_from cmp sl key xs"
  have links: "links_ok sl (?b @ ?a) h" using ok by (simp add: skip_ok_def)
  have bs: "\<forall>b \<in> set ?b. cmp (key_of sl b) key < 0" by (rule before_less)
  have as: "\<forall>a \<in> set ?a. \<not> cmp (key_of sl a) key < 0"
    using from_not_less ok keys by (auto simp: skip_ok_def)
  have low: "\<forall>a \<in> set ?a. 0 < h a"
    using ok heights_okD by (auto simp: skip_ok_def dest!: set_dropWhileD)
  have top: "max_height sl - 1 < kMaxHeight" using ok heights_okD by (auto simp: skip_ok_def)
  have "j \<le> max_height sl - 1 \<longleftrightarrow> j < max_height sl" for j
    using ok by (auto simp: skip_ok_def heights_ok_def)
  with find_ge_loop_correct [where cmp = cmp and key = key and prev = prev and x = head, OF links bs as low top]
  show ?thesis
    unfolding FindGreaterOrEqual_def by (simp del: last.simps)
qed

lemma FindLessThan_correct:
  assumes ok: "skip_ok cmp sl xs h" and keys: "keys_ok key_ok sl xs" "key_ok key"
  shows "FindLessThan cmp sl key = Some (last (head # nodes_before cmp sl key xs))"
  unfolding FindLessThan_def
proof (rule find_lt_loop_correct [where h = h and as = "nodes_from cmp sl key xs"])
  show "links_ok sl (nodes_before cmp sl key xs @ nodes_from cmp sl key xs) h"
    using ok by (simp add: skip_ok_def)
  show "\<forall>a \<in> set (nodes_from cmp sl key xs). \<not> cmp (key_of sl a) key < 0"
    using from_not_less ok keys by (auto simp: skip_ok_def)
  show "\<forall>b \<in> set (nodes_before cmp sl key xs). 0 < h b" "max_height sl - 1 < kMaxHeight"
    using ok heights_okD by (auto simp: skip_ok_def dest!: set_takeWhileD)
  show "\<forall>b \<in> set (nodes_before cmp sl key xs). cmp (key_of sl b) key < 0" by (rule before_less)
qed simp

end

lemma FindLast_correct:
  assumes "skip_ok cmp sl xs h"
  shows "FindLast sl = Some (last (head # xs))"
  using assms heights_okD unfolding FindLast_def skip_ok_def
  by (intro find_last_loop_correct [of sl xs h]) blast+

lemma nodes_ok_NewNode:
  assumes "nodes_ok sl (bs @ as) h" "NewNode new_char key height (sl, a) = (n, sl', a')"
  shows "nodes_ok sl' (bs @ n # as) (h(n := 0)) \<and> length (node_next (nodes sl' ! n)) = height \<and>
         key_of sl' n = key \<and> (\<forall>x \<in> set (bs @ as). key_of sl' x = key_of sl x) \<and>
         max_height sl' = max_height sl \<and>
         (\<forall>x < length (nodes sl). Next sl' x = Next sl x) \<and> n \<notin> set (bs @ as)"
proof -
  have n: "n = length (nodes sl)" and
    sl': "sl' = sl\<lparr>nodes := nodes sl @ [\<lparr>node_key = key, node_next = replicate height None\<rparr>]\<rparr>"
    using assms(2) by (simp_all add: NewNode_def Let_def split: prod.splits)
  have old: "nodes sl' ! x = nodes sl ! x" if "x < length (nodes sl)" for x
    using that by (simp add: sl' nth_append)
  have new: "nodes sl' ! n = \<lparr>node_key = key, node_next = replicate height None\<rparr>"
    by (simp add: sl' n)
  have len: "length (nodes sl') = Suc (length (nodes sl))" "max_height sl' = max_height sl"
    by (simp_all add: sl')
  have lt: "x < length (nodes sl)" if "x \<in> set (bs @ as)" for x
    using assms(1) that by (auto simp: nodes_ok_def)
  have "nodes_ok sl' (bs @ n # as) (h(n := 0))"
    using assms(1) old new lt unfolding nodes_ok_def len by (auto simp: n head_def less_Suc_eq)
  with old new lt len show ?thesis
    by (auto simp: key_of_def Next_def fun_eq_iff n)
qed

lemma nodes_ok_drop: "nodes_ok sl (bs @ n # as) (h(n := v)) \<Longrightarrow> nodes_ok sl (bs @ as) h"
  by (auto simp: nodes_ok_def split: if_splits)

lemma links_ok_NewNode:
  assumes "links_ok sl xs h" "nodes_ok sl xs h" "\<forall>x < length (nodes sl). Next sl' x = Next sl x"
  shows "links_ok sl' xs h"
  unfolding links_ok_def
proof (intro allI impI)
  fix i assume i: "i < kMaxHeight"
  have "path (\<lambda>x. Next sl' x i) head (filter (\<lambda>n. i < h n) xs) =
        path (\<lambda>x. Next sl x i) head (filter (\<lambda>n. i < h n) xs)"
    using assms(2,3) by (intro path_cong) (auto simp: nodes_ok_def head_def)
  with assms(1) i show "path (\<lambda>x. Next sl' x i) head (filter (\<lambda>n. i < h n) xs)"
    by (simp add: links_ok_def)
qed

lemma skip_sorted_insert:
  assumes "skip_sorted cmp (bs @ as)" "\<forall>b \<in> set bs. cmp b k < 0" "\<forall>a \<in> set as. cmp k a < 0"
  shows "skip_sorted cmp (bs @ k # as)"
  using assms by (auto simp: skip_sorted_def sorted_wrt_append)

context three_way
begin

text \<open>What the code has established when the linking loop starts.\<close>

lemma Insert_prepare_correct:
  assumes ok: "skip_ok cmp sl xs h" and keys: "keys_ok key_ok sl xs" "key_ok key"
  shows "\<exists>prev n height sl' a'. Insert_prepare cmp new_char key (sl, a) = Some (prev, n, height, sl', a') \<and>
    1 \<le> height \<and> height \<le> max_height sl' \<and> max_height sl' \<le> kMaxHeight \<and> max_height sl \<le> max_height sl' \<and>
    links_ok sl' xs h \<and>
    nodes_ok sl' (nodes_before cmp sl key xs @ n # nodes_from cmp sl key xs) (h(n := 0)) \<and>
    length (node_next (nodes sl' ! n)) = height \<and> key_of sl' n = key \<and>
    (\<forall>x \<in> set xs. key_of sl' x = key_of sl x) \<and>
    (\<forall>i < height. prev ! i = Some (last (head # filter (\<lambda>m. i < h m) (nodes_before cmp sl key xs))))"
proof -
  let ?b = "nodes_before cmp sl key xs" and ?a = "nodes_from cmp sl key xs"
  obtain prev where prev: "FindGreaterOrEqual cmp sl key (replicate kMaxHeight None) = Some (first ?a, prev)"
    "length prev = kMaxHeight"
    "\<forall>j < kMaxHeight. prev ! j =
       (if j < max_height sl then Some (last (head # filter (\<lambda>n. j < h n) ?b)) else None)"
    using FindGreaterOrEqual_correct [OF ok keys, of "replicate kMaxHeight None"]
    by (auto simp del: last.simps cong: if_cong)
  obtain height seed where rh: "random_height_loop (rnd sl) 1 = (height, seed)" by fastforce
  then have height: "1 \<le> height" "height \<le> kMaxHeight"
    using random_height_loop_range [of 1 "rnd sl"] by (simp_all add: kMaxHeight_def)
  have mh: "1 \<le> max_height sl" "max_height sl \<le> kMaxHeight" "\<forall>n \<in> set xs. h n \<le> max_height sl"
    using ok by (auto simp: skip_ok_def heights_ok_def)
  define prev' where "prev' = (if height > max_height sl
      then fold (\<lambda>i p. p[i := Some head]) [max_height sl ..< height] prev else prev)"
  define sl2 where "sl2 = (if height > max_height sl then sl\<lparr>rnd := seed, max_height := height\<rparr>
      else sl\<lparr>rnd := seed\<rparr>)"
  obtain n sl3 a' where new: "NewNode new_char key height (sl2, a) = (n, sl3, a')"
    by (cases "NewNode new_char key height (sl2, a)")
  have prep: "Insert_prepare cmp new_char key (sl, a) = Some (prev', n, height, sl3, a')"
    using prev(1) rh new by (simp add: Insert_prepare_def RandomHeight_def prev'_def sl2_def split: if_splits)
  have same: "key_of sl2 = key_of sl" "Next sl2 = Next sl" "nodes sl2 = nodes sl"
    by (simp_all add: sl2_def key_of_def Next_def fun_eq_iff)
  have "nodes_ok sl2 (?b @ ?a) h" "links_ok sl2 xs h"
    using ok by (simp_all add: skip_ok_def nodes_ok_def links_ok_def same)
  note nn = nodes_ok_NewNode [OF this(1) new] and li = links_ok_NewNode [OF this(2)]
  have "prev' ! i = Some (last (head # filter (\<lambda>m. i < h m) ?b))" if "i < height" for i
  proof (cases "i < max_height sl")
    case True
    then show ?thesis using that height prev(2,3) mh by (simp add: prev'_def nth_fold_update del: last.simps)
  next
    case False
    then have "filter (\<lambda>m. i < h m) ?b = []" using mh(3) by (auto simp: filter_empty_conv dest!: set_takeWhileD)
    then show ?thesis using False that height prev(2) by (simp add: prev'_def nth_fold_update)
  qed
  moreover have "links_ok sl3 xs h"
    using li [of sl3] nn ok by (simp add: skip_ok_def same nodes_ok_def)
  ultimately show ?thesis
    using prep nn height mh same(1) by (auto simp: sl2_def simp del: last.simps)
qed

text \<open>The state after any number of turns of the linking loop: a well-formed list without the new node
  (no turn) or with it (some turns), linked into the levels done so far.\<close>

lemma linking_ok:
  assumes ok: "skip_ok cmp sl xs h" and keys: "keys_ok key_ok sl xs" "key_ok key"
    and fresh: "\<forall>x \<in> set xs. cmp (key_of sl x) key \<noteq> 0"
    and prep: "Insert_prepare cmp new_char key (sl, a) = Some (prev, n, height, sl', a')" and "j \<le> height"
  shows "(if j = 0 then skip_ok cmp sl' xs h
          else skip_ok cmp (fold (link_level prev n) [0 ..< j] sl')
                 (nodes_before cmp sl key xs @ n # nodes_from cmp sl key xs) (h(n := j))) \<and>
         key_of (fold (link_level prev n) [0 ..< j] sl') n = key \<and>
         (\<forall>x \<in> set xs. key_of (fold (link_level prev n) [0 ..< j] sl') x = key_of sl x) \<and> 1 \<le> height"
proof -
  let ?b = "nodes_before cmp sl key xs" and ?a = "nodes_from cmp sl key xs"
  let ?sl = "fold (link_level prev n) [0 ..< j] sl'"
  have p: "1 \<le> height" "height \<le> max_height sl'" "max_height sl' \<le> kMaxHeight" "max_height sl \<le> max_height sl'"
    "links_ok sl' (?b @ ?a) h" "nodes_ok sl' (?b @ n # ?a) (h(n := 0))"
    "length (node_next (nodes sl' ! n)) = height" "key_of sl' n = key"
    "\<forall>x \<in> set xs. key_of sl' x = key_of sl x"
    "\<forall>i < height. prev ! i = Some (last (head # filter (\<lambda>m. i < h m) ?b))"
    using Insert_prepare_correct [OF ok keys, of new_char a] prep by (simp_all del: last.simps)
  note l = link_levels_ok [OF p(5,6) _ p(7,10) \<open>j \<le> height\<close>]
  have hs: "\<forall>x \<in> set xs. 1 \<le> h x \<and> h x \<le> max_height sl'"
    using ok p(4) by (auto simp: skip_ok_def heights_ok_def)
  have old: "skip_sorted cmp (map (key_of sl') (?b @ ?a))"
    using ok p(9) by (simp add: skip_ok_def cong: map_cong)
  have sub: "set ?b \<subseteq> set xs" "set ?a \<subseteq> set xs" by (auto dest: set_takeWhileD set_dropWhileD)
  have gt: "cmp key (key_of sl' x) < 0" if "x \<in> set ?a" for x
    using that sub from_not_less [of sl xs key x] fresh cmp_flip [of "key_of sl x" key] ok keys p(9)
    by (force simp: skip_ok_def keys_ok_def)
  have sorted: "skip_sorted cmp (map (key_of sl') (?b @ n # ?a))"
    unfolding map_append list.map p(8)
    using gt sub p(9) before_less [of cmp sl key xs]
    by (intro skip_sorted_insert old [unfolded map_append]) (auto simp: subset_iff)
  show ?thesis
  proof (cases "j = 0")
    case True
    have "nodes_ok sl' xs h" using nodes_ok_drop [OF p(6)] by simp
    with True p old hs show ?thesis by (simp add: skip_ok_def heights_ok_def del: last.simps)
  next
    case False
    have "max_height ?sl = max_height sl'" using l p(2,3) by simp
    then have "heights_ok ?sl (?b @ n # ?a) (h(n := j))"
      using p(1-3) hs sub \<open>j \<le> height\<close> False by (auto simp: heights_ok_def)
    with False l p sorted show ?thesis by (simp add: skip_ok_def del: last.simps fun_upd_apply)
  qed
qed

lemma Insert_correct:
  assumes ok: "skip_ok cmp sl xs h" and keys: "keys_ok key_ok sl xs" "key_ok key"
    and fresh: "\<forall>x \<in> set xs. cmp (key_of sl x) key \<noteq> 0"
  shows "\<exists>sl' a' n h'. Insert cmp new_char key (sl, a) = Some (sl', a') \<and>
    skip_ok cmp sl' (nodes_before cmp sl key xs @ n # nodes_from cmp sl key xs) h' \<and>
    key_of sl' n = key \<and> (\<forall>x \<in> set xs. key_of sl' x = key_of sl x)"
proof -
  obtain prev n height sl' a' where
    prep: "Insert_prepare cmp new_char key (sl, a) = Some (prev, n, height, sl', a')" and "1 \<le> height"
    using Insert_prepare_correct [OF ok keys, of new_char a] by blast
  let ?sl = "fold (link_level prev n) [0 ..< height] sl'"
  have "Insert cmp new_char key (sl, a) = Some (?sl, a')" by (simp add: Insert_def prep)
  moreover have "skip_ok cmp ?sl (nodes_before cmp sl key xs @ n # nodes_from cmp sl key xs) (h(n := height))"
      "key_of ?sl n = key" "\<forall>x \<in> set xs. key_of ?sl x = key_of sl x"
    using linking_ok [OF ok keys fresh prep order_refl] \<open>1 \<le> height\<close>
    by (simp_all del: fun_upd_apply split: if_splits)
  ultimately show ?thesis by blast
qed

text \<open>The same for the abstract state.\<close>

abbreviation keys_before :: "'k \<Rightarrow> 'k list \<Rightarrow> 'k list" where
  "keys_before key \<equiv> takeWhile (\<lambda>k. cmp k key < 0)"

abbreviation keys_from :: "'k \<Rightarrow> 'k list \<Rightarrow> 'k list" where
  "keys_from key \<equiv> dropWhile (\<lambda>k. cmp k key < 0)"

lemma Insert_repr:
  assumes "skip_repr cmp sl ks" "\<forall>k \<in> set ks. key_ok k \<and> cmp k key \<noteq> 0" "key_ok key"
  shows "\<exists>sl' a'. Insert cmp new_char key (sl, a) = Some (sl', a') \<and>
    skip_repr cmp sl' (keys_before key ks @ key # keys_from key ks)"
proof -
  obtain xs h where ok: "skip_ok cmp sl xs h" and ks: "ks = map (key_of sl) xs"
    using assms(1) by (auto simp: skip_repr_def)
  obtain sl' a' n h' where ins: "Insert cmp new_char key (sl, a) = Some (sl', a')"
      "skip_ok cmp sl' (nodes_before cmp sl key xs @ n # nodes_from cmp sl key xs) h'"
      "key_of sl' n = key" "\<forall>x \<in> set xs. key_of sl' x = key_of sl x"
    using Insert_correct [OF ok, of key new_char a] assms(2,3) unfolding ks keys_ok_def by auto
  have "map (key_of sl') (nodes_before cmp sl key xs @ n # nodes_from cmp sl key xs) =
        keys_before key ks @ key # keys_from key ks"
    using ins(3,4) by (auto simp: ks takeWhile_map dropWhile_map o_def dest!: set_takeWhileD set_dropWhileD)
  with ins show ?thesis unfolding skip_repr_def by metis
qed

lemma skip_repr_obtain:
  assumes "skip_repr cmp sl ks" "\<forall>k \<in> set ks. key_ok k"
  obtains xs h where "skip_ok cmp sl xs h" "ks = map (key_of sl) xs" "keys_ok key_ok sl xs"
  using assms by (auto simp: skip_repr_def keys_ok_def)

lemma equal_is_first:
  assumes "skip_sorted cmp (map (key_of sl) xs)" "keys_ok key_ok sl xs" "key_ok key"
    and "y \<in> set xs" "cmp (key_of sl y) key = 0"
  shows "\<exists>ys. nodes_from cmp sl key xs = y # ys"
  using assms
proof (induction xs)
  case (Cons x xs)
  show ?case
  proof (cases "y = x")
    case False
    then have "cmp (key_of sl x) (key_of sl y) < 0" using Cons.prems by (auto simp: skip_sorted_def)
    then have "cmp (key_of sl x) key < 0"
      using Cons.prems cmp_less_le_trans [of "key_of sl x" "key_of sl y" key] by (auto simp: keys_ok_def)
    then show ?thesis using Cons False by (simp add: skip_sorted_def keys_ok_def)
  qed (use Cons in auto)
qed simp

lemma Contains_repr:
  assumes "skip_repr cmp sl ks" "\<forall>k \<in> set ks. key_ok k" "key_ok key"
  shows "Contains cmp sl key = Some (\<exists>k \<in> set ks. cmp k key = 0)"
proof -
  obtain xs h where ok: "skip_ok cmp sl xs h" and ks: "ks = map (key_of sl) xs" and keys: "keys_ok key_ok sl xs"
    using assms(1,2) by (rule skip_repr_obtain)
  obtain prev where f: "FindGreaterOrEqual cmp sl key [] = Some (first (nodes_from cmp sl key xs), prev)"
    using FindGreaterOrEqual_correct [OF ok keys assms(3), of "[]"] by auto
  have flip: "cmp key (key_of sl x) = 0 \<longleftrightarrow> cmp (key_of sl x) key = 0" if "x \<in> set xs" for x
    using that keys assms(3) cmp_eq_sym by (auto simp: keys_ok_def)
  have eq: "\<exists>ys. nodes_from cmp sl key xs = y # ys" if "y \<in> set xs" "cmp (key_of sl y) key = 0" for y
    using equal_is_first that ok keys assms(3) by (auto simp: skip_ok_def)
  show ?thesis
  proof (cases "nodes_from cmp sl key xs")
    case Nil
    then have "\<not> (\<exists>k \<in> set ks. cmp k key = 0)" using eq by (auto simp: ks)
    then show ?thesis using f [unfolded Nil] by (simp add: Contains_def)
  next
    case (Cons x ys)
    then have "x \<in> set xs" by (metis list.set_intros(1) set_dropWhileD)
    moreover have "y = x" if "y \<in> set xs" "cmp (key_of sl y) key = 0" for y
      using eq [OF that] Cons by simp
    ultimately show ?thesis using f [unfolded Cons] flip by (auto simp: Contains_def ks)
  qed
qed

lemma path_nth:
  "path nx x ys \<Longrightarrow> i < length ys \<Longrightarrow> nx (ys ! i) = (if Suc i < length ys then Some (ys ! Suc i) else None)"
proof (induction ys arbitrary: x i)
  case (Cons y ys)
  then show ?case by (cases i; cases ys) auto
qed simp

lemma level0_path: "skip_ok cmp sl xs h \<Longrightarrow> path (\<lambda>x. Next sl x 0) head xs"
proof -
  assume ok: "skip_ok cmp sl xs h"
  then have "filter (\<lambda>n. 0 < h n) xs = xs" using heights_okD(1) [of sl xs h] by (simp add: skip_ok_def)
  with ok show ?thesis unfolding skip_ok_def links_ok_def kMaxHeight_def by (metis zero_less_numeral)
qed

lemma iter_reprI:
  assumes "skip_ok cmp sl xs h" "ks = map (key_of sl) xs" "i \<le> length xs"
    and "node = (if i < length xs then Some (xs ! i) else None)"
  shows "iter_repr cmp sl ks i node"
  using assms unfolding iter_repr_def by blast

lemma iter_SeekToFirst_repr: "skip_repr cmp sl ks \<Longrightarrow> iter_repr cmp sl ks 0 (iter_SeekToFirst sl)"
proof -
  assume "skip_repr cmp sl ks"
  then obtain xs h where ok: "skip_ok cmp sl xs h" and ks: "ks = map (key_of sl) xs" by (auto simp: skip_repr_def)
  have "iter_SeekToFirst sl = first xs"
    using path_first [OF level0_path [OF ok]] by (simp add: iter_SeekToFirst_def)
  then show ?thesis using iter_reprI [OF ok ks, of 0] by (cases xs) simp_all
qed

lemma iter_Next_repr:
  assumes "iter_repr cmp sl ks i node" "i < length ks"
  shows "iter_repr cmp sl ks (Suc i) (iter_Next sl node) \<and> iter_Valid node \<and> iter_key sl node = ks ! i"
proof -
  obtain xs h where ok: "skip_ok cmp sl xs h" and ks: "ks = map (key_of sl) xs" and node: "node = Some (xs ! i)"
    using assms by (auto simp: iter_repr_def)
  have "iter_Next sl node = (if Suc i < length xs then Some (xs ! Suc i) else None)"
    using path_nth [OF level0_path [OF ok]] assms(2) by (simp add: iter_Next_def node ks)
  then have "iter_repr cmp sl ks (Suc i) (iter_Next sl node)"
    using iter_reprI [OF ok ks, of "Suc i"] assms(2) by (simp add: ks)
  then show ?thesis using assms(2) by (simp add: node ks iter_Valid_def iter_key_def)
qed

lemma iter_Seek_repr:
  assumes "skip_repr cmp sl ks" "\<forall>k \<in> set ks. key_ok k" "key_ok key"
  shows "\<exists>node. iter_Seek cmp sl key = Some node \<and> iter_repr cmp sl ks (length (keys_before key ks)) node"
proof -
  obtain xs h where ok: "skip_ok cmp sl xs h" and ks: "ks = map (key_of sl) xs" and keys: "keys_ok key_ok sl xs"
    using assms(1,2) by (rule skip_repr_obtain)
  have "first (nodes_from cmp sl key xs) = (let i = length (nodes_before cmp sl key xs)
      in if i < length xs then Some (xs ! i) else None)"
    by (induction xs) (auto simp: Let_def)
  moreover have "length (keys_before key ks) = length (nodes_before cmp sl key xs)"
    by (simp add: ks takeWhile_map o_def)
  moreover obtain prev where "FindGreaterOrEqual cmp sl key [] = Some (first (nodes_from cmp sl key xs), prev)"
    using FindGreaterOrEqual_correct [OF ok keys assms(3), of "[]"] by auto
  ultimately show ?thesis
    using iter_reprI [OF ok ks, of "length (nodes_before cmp sl key xs)"]
      length_takeWhile_le [of "\<lambda>n. cmp (key_of sl n) key < 0" xs]
    by (simp add: iter_Seek_def Let_def)
qed

lemma takeWhile_sorted_nth:
  assumes "skip_sorted cmp ks" "\<forall>k \<in> set ks. key_ok k" "i < length ks"
  shows "keys_before (ks ! i) ks = take i ks"
proof (rule takeWhile_eq_take_P_nth)
  show "cmp (ks ! j) (ks ! i) < 0" if "j < i" "j < length ks" for j
    using sorted_wrt_nth_less [of "\<lambda>a b. cmp a b < 0" ks j i] assms that by (simp add: skip_sorted_def)
  show "\<not> cmp (ks ! i) (ks ! i) < 0" if "i < length ks"
    using cmp_refl assms(2) that by simp
qed

lemma iter_Prev_repr:
  assumes "iter_repr cmp sl ks i node" "i < length ks" "\<forall>k \<in> set ks. key_ok k"
  shows "\<exists>node'. iter_Prev cmp sl node = Some node' \<and>
    iter_repr cmp sl ks (if i = 0 then length ks else i - 1) node'"
proof -
  obtain xs h where ok: "skip_ok cmp sl xs h" and ks: "ks = map (key_of sl) xs" and node: "node = Some (xs ! i)"
    using assms by (auto simp: iter_repr_def)
  have keys: "keys_ok key_ok sl xs" "key_ok (ks ! i)" using assms(2,3) by (auto simp: ks keys_ok_def)
  have "length (keys_before (ks ! i) ks) = i"
    using takeWhile_sorted_nth [of ks i] ok assms(2,3) by (simp add: ks skip_ok_def)
  then have "length (nodes_before cmp sl (ks ! i) xs) = i" by (simp add: ks takeWhile_map o_def)
  then have "nodes_before cmp sl (ks ! i) xs = take i xs" by (metis takeWhile_eq_take)
  then have "FindLessThan cmp sl (ks ! i) = Some (if i = 0 then head else xs ! (i - 1))"
    using FindLessThan_correct [OF ok keys] assms(2) by (auto simp: last_conv_nth ks)
  moreover have "xs ! (i - 1) \<noteq> head" using ok assms(2) by (auto simp: skip_ok_def nodes_ok_def ks)
  moreover have "iter_repr cmp sl ks (i - 1) (Some (xs ! (i - 1)))"
    by (rule iter_reprI [OF ok ks]) (use assms(2) in \<open>simp_all add: ks\<close>)
  moreover have "iter_repr cmp sl ks (length ks) None"
    by (rule iter_reprI [OF ok ks]) (simp_all add: ks)
  ultimately show ?thesis
    using assms(2) by (cases "i = 0") (simp_all add: iter_Prev_def iter_key_def node ks)
qed

lemma iter_SeekToLast_repr:
  assumes "skip_repr cmp sl ks"
  shows "\<exists>node. iter_SeekToLast sl = Some node \<and> iter_repr cmp sl ks (length ks - 1) node"
proof -
  obtain xs h where ok: "skip_ok cmp sl xs h" and ks: "ks = map (key_of sl) xs"
    using assms by (auto simp: skip_repr_def)
  have "last xs \<noteq> head" if "xs \<noteq> []"
    using ok last_in_set [OF that] by (auto simp: skip_ok_def nodes_ok_def)
  then show ?thesis
    using iter_reprI [OF ok ks, of "length xs - 1"] FindLast_correct [OF ok]
    by (cases "xs = []") (simp_all add: iter_SeekToLast_def ks last_conv_nth)
qed

end

subsection \<open>Properties\<close>

definition sorted_insert :: "('k \<Rightarrow> 'k \<Rightarrow> int) \<Rightarrow> 'k \<Rightarrow> 'k list \<Rightarrow> 'k list" where
  "sorted_insert cmp key ks = takeWhile (\<lambda>k. cmp k key < 0) ks @ key # dropWhile (\<lambda>k. cmp k key < 0) ks"

lemma set_sorted_insert [simp]: "set (sorted_insert cmp key ks) = insert key (set ks)"
  using set_append [of "takeWhile (\<lambda>k. cmp k key < 0) ks" "dropWhile (\<lambda>k. cmp k key < 0) ks"]
  by (auto simp: sorted_insert_def)

lemma skip_repr_make: "skip_repr cmp (fst (make_SkipList new_char k a)) []"
  using make_SkipList_ok [of new_char k a _ _ cmp] by (fastforce simp: skip_repr_def prod_eq_iff)

text \<open>C12: on a skip list that holds the sorted keys \<open>ks\<close>, \<^verbatim>\<open>Insert\<close> of a key that is not present
  returns (its search loop ends) and yields a well-formed skip list that holds the keys with the new
  one inserted at its place; \<^verbatim>\<open>Contains\<close> then answers exactly whether an equal key is present.\<close>

theorem skiplist_insert_contains:
  assumes "three_way cmp key_ok" and "skip_repr cmp sl ks"
    and "\<forall>k \<in> set ks. key_ok k \<and> cmp k key \<noteq> 0" and "key_ok key"
  shows "\<exists>sl' a'. Insert cmp new_char key (sl, a) = Some (sl', a') \<and>
    skip_repr cmp sl' (sorted_insert cmp key ks) \<and>
    (\<forall>k. key_ok k \<longrightarrow> Contains cmp sl' k = Some (cmp key k = 0 \<or> (\<exists>k' \<in> set ks. cmp k' k = 0)))"
proof -
  obtain sl' a' where ins: "Insert cmp new_char key (sl, a) = Some (sl', a')"
      "skip_repr cmp sl' (sorted_insert cmp key ks)"
    using three_way.Insert_repr [OF assms] unfolding sorted_insert_def by blast
  have "Contains cmp sl' k = Some (\<exists>k' \<in> set (sorted_insert cmp key ks). cmp k' k = 0)" if "key_ok k" for k
    using three_way.Contains_repr [OF assms(1) ins(2) _ that] assms(3,4) by simp
  with ins show ?thesis by simp
qed

theorem skiplist_insert_contains_witness:
  "let sl = fst (make_SkipList bump_new [] make_Arena) in
   three_way Bytewise_Compare (\<lambda>_. True) \<and> skip_repr Bytewise_Compare sl [] \<and>
   (\<exists>sl' a'. Insert Bytewise_Compare bump_new [7] (sl, make_Arena) = Some (sl', a') \<and>
      Contains Bytewise_Compare sl' [7] = Some True)"
proof -
  let ?sl = "fst (make_SkipList bump_new [] make_Arena)"
  have "\<exists>sl' a'. Insert Bytewise_Compare bump_new [7] (?sl, make_Arena) = Some (sl', a') \<and>
      skip_repr Bytewise_Compare sl' (sorted_insert Bytewise_Compare [7] []) \<and>
      (\<forall>k. True \<longrightarrow> Contains Bytewise_Compare sl' k =
         Some (Bytewise_Compare [7] k = 0 \<or> (\<exists>k' \<in> set []. Bytewise_Compare k' k = 0)))"
    by (rule skiplist_insert_contains [OF bytewise.three_way_axioms skip_repr_make]) simp_all
  moreover have "Bytewise_Compare [7] [7] = 0" by (rule bytewise.cmp_refl) simp
  ultimately show ?thesis using bytewise.three_way_axioms skip_repr_make unfolding Let_def by fastforce
qed

text \<open>C13: a reader may run while a writer is in the linking loop of \<^verbatim>\<open>Insert\<close>.  Whatever number \<open>j\<close> of
  levels is linked, a search of the list at that moment returns, and is positioned exactly as in the
  old list (no level linked) or in the new list (level 0 linked): a partly linked node is never
  half-visible.\<close>

theorem skiplist_reader_during_insert:
  assumes "three_way cmp key_ok" and "skip_repr cmp sl ks"
    and "\<forall>k \<in> set ks. key_ok k \<and> cmp k key \<noteq> 0" and "key_ok key"
    and "Insert_prepare cmp new_char key (sl, a) = Some (prev, n, height, sl', a')"
    and "j \<le> height" and "key_ok target"
  shows "let slj = fold (link_level prev n) [0 ..< j] sl';
             ksj = (if j = 0 then ks else sorted_insert cmp key ks)
         in \<exists>node. iter_Seek cmp slj target = Some node \<and>
              iter_repr cmp slj ksj (length (takeWhile (\<lambda>k. cmp k target < 0) ksj)) node"
proof -
  obtain xs h where ok: "skip_ok cmp sl xs h" and ks: "ks = map (key_of sl) xs" and keys: "keys_ok key_ok sl xs"
    using three_way.skip_repr_obtain [OF assms(1,2)] assms(3) by blast
  let ?slj = "fold (link_level prev n) [0 ..< j] sl'"
  let ?ys = "nodes_before cmp sl key xs @ n # nodes_from cmp sl key xs"
  have fresh: "\<forall>x \<in> set xs. cmp (key_of sl x) key \<noteq> 0" using assms(3) by (auto simp: ks)
  note l = three_way.linking_ok [OF assms(1) ok keys assms(4) fresh assms(5,6)]
  have "map (key_of ?slj) ?ys = sorted_insert cmp key ks"
    using l by (auto simp: ks sorted_insert_def takeWhile_map dropWhile_map o_def dest!: set_takeWhileD set_dropWhileD)
  moreover have "map (key_of ?slj) xs = ks" using l by (auto simp: ks)
  ultimately have "skip_repr cmp ?slj (if j = 0 then ks else sorted_insert cmp key ks)"
    using l unfolding skip_repr_def by (metis (no_types, lifting) fold_simps(1) upt_0)
  then show ?thesis
    using three_way.iter_Seek_repr [OF assms(1) _ _ assms(7)] assms(3,4)
    unfolding Let_def by (simp split: if_splits)
qed

theorem skiplist_reader_during_insert_witness:
  "let sl = fst (make_SkipList bump_new [] make_Arena) in
   \<exists>prev n height sl' a'.
     Insert_prepare Bytewise_Compare bump_new [7] (sl, make_Arena) = Some (prev, n, height, sl', a') \<and> 1 \<le> height \<and>
     (\<exists>node. iter_Seek Bytewise_Compare (link_level prev n 0 sl') [7] = Some node \<and>
        iter_repr Bytewise_Compare (link_level prev n 0 sl') [[7]] 0 node)"
proof -
  let ?sl = "fst (make_SkipList bump_new [] make_Arena)"
  obtain prev n height sl' a' where
    prep: "Insert_prepare Bytewise_Compare bump_new [7] (?sl, make_Arena) = Some (prev, n, height, sl', a')"
      "1 \<le> height"
    using bytewise.Insert_prepare_correct [where sl = ?sl and xs = "[]" and h = "\<lambda>_. 0" and key = "[7]" and
        new_char = bump_new and a = make_Arena]
      make_SkipList_ok [of bump_new "[]" make_Arena ?sl _ Bytewise_Compare]
    by (fastforce simp: keys_ok_def prod_eq_iff)
  have "Bytewise_Compare [7] [7] = 0" by (rule bytewise.cmp_refl) simp
  then show ?thesis
    using skiplist_reader_during_insert [OF bytewise.three_way_axioms skip_repr_make _ _ prep(1), where target = "[7]" and j = 1]
      prep
    by (auto simp: Let_def sorted_insert_def)
qed

text \<open>C14: the iterator moves over the sorted keys: \<^verbatim>\<open>SeekToFirst\<close> and \<^verbatim>\<open>SeekToLast\<close> go to the two ends,
  \<^verbatim>\<open>Seek\<close> to the first key at or after the target, \<^verbatim>\<open>Next\<close> and \<^verbatim>\<open>Prev\<close> one key on or back, and
  \<^verbatim>\<open>key\<close> is the key at the position.\<close>

theorem skiplist_iterator_correct:
  assumes "three_way cmp key_ok" and "skip_repr cmp sl ks" and "\<forall>k \<in> set ks. key_ok k"
  shows "iter_repr cmp sl ks 0 (iter_SeekToFirst sl) \<and>
    (\<exists>node. iter_SeekToLast sl = Some node \<and> iter_repr cmp sl ks (length ks - 1) node) \<and>
    (\<forall>key. key_ok key \<longrightarrow> (\<exists>node. iter_Seek cmp sl key = Some node \<and>
       iter_repr cmp sl ks (length (takeWhile (\<lambda>k. cmp k key < 0) ks)) node)) \<and>
    (\<forall>i node. iter_repr cmp sl ks i node \<longrightarrow> i < length ks \<longrightarrow>
       iter_Valid node \<and> iter_key sl node = ks ! i \<and>
       iter_repr cmp sl ks (Suc i) (iter_Next sl node) \<and>
       (\<exists>node'. iter_Prev cmp sl node = Some node' \<and>
          iter_repr cmp sl ks (if i = 0 then length ks else i - 1) node'))"
  using three_way.iter_SeekToFirst_repr [OF assms(1,2)] three_way.iter_SeekToLast_repr [OF assms(1,2)]
    three_way.iter_Seek_repr [OF assms] three_way.iter_Next_repr [OF assms(1)]
    three_way.iter_Prev_repr [OF assms(1) _ _ assms(3)]
  by blast

theorem skiplist_iterator_correct_witness:
  "let sl = fst (make_SkipList bump_new [] make_Arena) in
   three_way Bytewise_Compare (\<lambda>_. True) \<and> skip_repr Bytewise_Compare sl [] \<and>
   iter_repr Bytewise_Compare sl [] 0 (iter_SeekToFirst sl)"
  using skiplist_iterator_correct [OF bytewise.three_way_axioms skip_repr_make]
    bytewise.three_way_axioms skip_repr_make unfolding Let_def by auto

end
