(* ===== verification/Mem_Table.thy ===== *)
theory Mem_Table
  imports Skip_List Db_Format
begin

text \<open>
  The in-memory table of \<^verbatim>\<open>db/memtable.h\<close> and \<^verbatim>\<open>db/memtable.cpp\<close>.  The key of a skip-list node
  is a pointer to an immutable entry in the arena; the model stores the bytes of the entry in the node
  and keeps the arena for its accounting.  \<open>ucmp\<close> is the \<^verbatim>\<open>Compare\<close> of the user comparator.
\<close>

text \<open>\<^verbatim>\<open>GetLengthPrefixedSlice(data)\<close>: the slice, and the bytes that follow it.  A varint that does not
  decode gives a null pointer, here the empty slice; entries written by \<^verbatim>\<open>Add\<close> always decode.\<close>

definition entry_slice :: "slice \<Rightarrow> slice \<times> slice" where
  "entry_slice data =
     (case GetVarint32Ptr (take 5 data) of
        None \<Rightarrow> ([], [])
      | Some (len, rest) \<Rightarrow>
          let p = drop (length (take 5 data) - length rest) data
          in (take (unat len) p, drop (unat len) p))"

definition KeyComparator :: "(slice \<Rightarrow> slice \<Rightarrow> int) \<Rightarrow> slice \<Rightarrow> slice \<Rightarrow> int" where
  "KeyComparator ucmp aptr bptr =
     (let a = fst (entry_slice aptr); b = fst (entry_slice bptr)
      in InternalKeyComparator_Compare ucmp a b)"

definition EncodeKey :: "slice \<Rightarrow> slice" where
  "EncodeKey target = PutVarint32 [] (word_of_nat (length target)) @ target"

record MemTable =
  mt_refs :: int
  mt_arena :: arena
  mt_table :: "slice skiplist"

definition make_MemTable :: "new_char \<Rightarrow> MemTable" where
  "make_MemTable new_char =
     (let (table, a) = make_SkipList new_char [] make_Arena
      in \<lparr>mt_refs = 0, mt_arena = a, mt_table = table\<rparr>)"

definition MemTable_Ref :: "MemTable \<Rightarrow> MemTable" where
  "MemTable_Ref m = m\<lparr>mt_refs := mt_refs m + 1\<rparr>"

text \<open>\<open>None\<close>: the table was deleted.\<close>

definition MemTable_Unref :: "MemTable \<Rightarrow> MemTable option" where
  "MemTable_Unref m = (let refs = mt_refs m - 1 in if refs \<le> 0 then None else Some (m\<lparr>mt_refs := refs\<rparr>))"

definition ApproximateMemoryUsage :: "(nat \<Rightarrow> nat) \<Rightarrow> MemTable \<Rightarrow> nat" where
  "ApproximateMemoryUsage capacity m = MemoryUsage capacity (mt_arena m)"

definition MemTable_Add ::
  "new_char \<Rightarrow> (slice \<Rightarrow> slice \<Rightarrow> int) \<Rightarrow> u64 \<Rightarrow> ValueType \<Rightarrow> slice \<Rightarrow> slice \<Rightarrow> MemTable \<Rightarrow> MemTable option" where
  "MemTable_Add new_char ucmp seq t key val m =
     (let key_size = length key;
          val_size = length val;
          internal_key_size = key_size + 8;
          encoded_len = VarintLength (word_of_nat internal_key_size) + internal_key_size +
                        VarintLength (word_of_nat val_size) + val_size;
          (_, a) = Allocate new_char encoded_len (mt_arena m);
          buf = EncodeVarint32 (word_of_nat internal_key_size) @ key @
                EncodeFixed64 (push_bit 8 seq OR type_byte t) @
                EncodeVarint32 (word_of_nat val_size) @ val
      in case Insert (KeyComparator ucmp) new_char buf (mt_table m, a) of
           None \<Rightarrow> None
         | Some (table, a') \<Rightarrow> Some (m\<lparr>mt_table := table, mt_arena := a'\<rparr>))"

text \<open>\<^verbatim>\<open>Get\<close> returns whether the key was found, and updates \<^verbatim>\<open>*value\<close> or \<^verbatim>\<open>*s\<close>.\<close>

definition MemTable_Get ::
  "(slice \<Rightarrow> slice \<Rightarrow> int) \<Rightarrow> MemTable \<Rightarrow> LookupKey \<Rightarrow> slice \<Rightarrow> status \<Rightarrow> (bool \<times> slice \<times> status) option" where
  "MemTable_Get ucmp m key val s =
     (case iter_Seek (KeyComparator ucmp) (mt_table m) (memtable_key key) of
        None \<Rightarrow> None
      | Some iter \<Rightarrow> Some (
          if iter_Valid iter then
            let entry = iter_key (mt_table m) iter in
            case GetVarint32Ptr (take 5 entry) of
              None \<Rightarrow> (False, val, s)
            | Some (key_length, rest) \<Rightarrow>
                let key_ptr = drop (length (take 5 entry) - length rest) entry in
                if ucmp (take (unat (key_length - 8)) key_ptr) (lookup_user_key key) = 0 then
                  let tag = DecodeFixed64 (drop (unat key_length - 8) key_ptr) in
                  if tag AND 0xff = type_byte kTypeValue then
                    (True, fst (entry_slice (drop (unat key_length) key_ptr)), s)
                  else if tag AND 0xff = type_byte kTypeDeletion then
                    (True, val, NotFound [] [])
                  else (False, val, s)
                else (False, val, s)
          else (False, val, s)))"

subsection \<open>The iterator\<close>

definition MemTableIterator_Seek :: "(slice \<Rightarrow> slice \<Rightarrow> int) \<Rightarrow> MemTable \<Rightarrow> slice \<Rightarrow> nat option option" where
  "MemTableIterator_Seek ucmp m k = iter_Seek (KeyComparator ucmp) (mt_table m) (EncodeKey k)"

definition MemTableIterator_key :: "MemTable \<Rightarrow> nat option \<Rightarrow> slice" where
  "MemTableIterator_key m iter = fst (entry_slice (iter_key (mt_table m) iter))"

definition MemTableIterator_value :: "MemTable \<Rightarrow> nat option \<Rightarrow> slice" where
  "MemTableIterator_value m iter = fst (entry_slice (snd (entry_slice (iter_key (mt_table m) iter))))"

subsection \<open>Entries\<close>

text \<open>An abstract entry and its bytes.\<close>

record mem_entry =
  me_key :: slice
  me_seq :: u64
  me_type :: ValueType
  me_value :: slice

definition entry_key :: "mem_entry \<Rightarrow> slice" where
  "entry_key e = InternalKey (me_key e) (me_seq e) (me_type e)"

definition entry_bytes :: "mem_entry \<Rightarrow> slice" where
  "entry_bytes e = EncodeVarint32 (word_of_nat (length (me_key e) + 8)) @ entry_key e @
     EncodeVarint32 (word_of_nat (length (me_value e))) @ me_value e"

text \<open>What the format can hold: lengths below \<open>2 ^ 32\<close>, sequence numbers below \<open>2 ^ 56\<close>.\<close>

definition entry_ok :: "(slice \<Rightarrow> bool) \<Rightarrow> mem_entry \<Rightarrow> bool" where
  "entry_ok key_ok e \<longleftrightarrow> key_ok (me_key e) \<and> length (me_key e) + 8 < 2 ^ 32 \<and> length (me_value e) < 2 ^ 32 \<and>
     me_seq e \<le> kMaxSequenceNumber"

lemma entry_varint:
  "\<exists>rest. GetVarint32Ptr (take 5 (EncodeVarint32 v @ x)) = Some (v, rest) \<and>
     drop (length (take 5 (EncodeVarint32 v @ x)) - length rest) (EncodeVarint32 v @ x) = x"
proof -
  let ?e = "EncodeVarint32 v"
  have t: "take 5 (?e @ x) = ?e @ take (5 - length ?e) x" using length_EncodeVarint32 [of v] by simp
  then have "GetVarint32Ptr (take 5 (?e @ x)) = Some (v, take (5 - length ?e) x)"
    using GetVarint32_Put unfolding GetVarint32_def by metis
  moreover have "length (take 5 (?e @ x)) - length (take (5 - length ?e) x) = length ?e"
    unfolding t by simp
  ultimately show ?thesis by (metis append_eq_conv_conj)
qed

lemma entry_slice_append:
  assumes "length k < 2 ^ 32"
  shows "entry_slice (EncodeVarint32 (word_of_nat (length k)) @ k @ rest) = (k, rest)"
proof -
  obtain r where "GetVarint32Ptr (take 5 (EncodeVarint32 (word_of_nat (length k)) @ k @ rest)) =
      Some (word_of_nat (length k), r)"
    "drop (length (take 5 (EncodeVarint32 (word_of_nat (length k)) @ k @ rest)) - length r)
       (EncodeVarint32 (word_of_nat (length k)) @ k @ rest) = k @ rest"
    using entry_varint [of "word_of_nat (length k)" "k @ rest"] by blast
  with assms show ?thesis
    by (simp only: entry_slice_def option.case prod.case Let_def)
      (simp add: unat_word_of_nat_small)
qed

lemma length_entry_key [simp]: "length (entry_key e) = length (me_key e) + 8"
  by (simp add: entry_key_def)

lemma entry_slice_entry:
  assumes "entry_ok key_ok e"
  shows "entry_slice (entry_bytes e) =
    (entry_key e, EncodeVarint32 (word_of_nat (length (me_value e))) @ me_value e)"
  using assms entry_slice_append [of "entry_key e"] by (simp add: entry_bytes_def entry_ok_def)

lemma entry_value:
  assumes "entry_ok key_ok e"
  shows "fst (entry_slice (EncodeVarint32 (word_of_nat (length (me_value e))) @ me_value e)) = me_value e"
  using assms entry_slice_append [of "me_value e" "[]"] by (simp add: entry_ok_def)

text \<open>The buffer \<^verbatim>\<open>Add\<close> fills is the entry, and \<^verbatim>\<open>encoded_len\<close> is its length (the assertion at the
  end of \<^verbatim>\<open>Add\<close>).\<close>

lemma encoded_len_correct:
  assumes "entry_ok key_ok e"
  shows "VarintLength (word_of_nat (length (me_key e) + 8)) + (length (me_key e) + 8) +
         VarintLength (word_of_nat (length (me_value e))) + length (me_value e) = length (entry_bytes e)"
proof -
  have "length (EncodeVarint32 (word_of_nat n)) = VarintLength (word_of_nat n)" if "n < 2 ^ 32" for n
  proof -
    have "ucast (word_of_nat n :: u32) = (word_of_nat n :: u64)"
      using that by (simp add: word_unat_eq_iff unat_ucast_up unat_word_of_nat_small)
    then show ?thesis by (simp add: EncodeVarint32_eq VarintLength_eq)
  qed
  note this [of "length (me_key e) + 8"] this [of "length (me_value e)"]
  with assms show ?thesis by (simp add: entry_bytes_def entry_ok_def del: of_nat_add)
qed

lemma MemTable_Add_entry:
  "MemTable_Add new_char ucmp (me_seq e) (me_type e) (me_key e) (me_value e) m =
     (case Insert (KeyComparator ucmp) new_char (entry_bytes e)
        (mt_table m, snd (Allocate new_char
           (VarintLength (word_of_nat (length (me_key e) + 8)) + (length (me_key e) + 8) +
            VarintLength (word_of_nat (length (me_value e))) + length (me_value e)) (mt_arena m))) of
        None \<Rightarrow> None
      | Some (table, a') \<Rightarrow> Some (m\<lparr>mt_table := table, mt_arena := a'\<rparr>))"
  by (simp add: MemTable_Add_def Let_def entry_bytes_def entry_key_def InternalKey_def AppendInternalKey_def
      PackSequenceAndType_def PutFixed64_def split: prod.split)

lemma KeyComparator_entries:
  assumes "entry_ok key_ok d" "entry_ok key_ok e"
  shows "KeyComparator ucmp (entry_bytes d) (entry_bytes e) =
         InternalKeyComparator_Compare ucmp (entry_key d) (entry_key e)"
  using assms by (simp add: KeyComparator_def entry_slice_entry)

lemma KeyComparator_lookup:
  assumes "entry_ok key_ok e" "length u + 8 < 2 ^ 32"
  shows "KeyComparator ucmp (entry_bytes e) (memtable_key (make_LookupKey u s)) =
         InternalKeyComparator_Compare ucmp (entry_key e) (InternalKey u s kValueTypeForSeek)"
  using assms entry_slice_append [of "InternalKey u s kValueTypeForSeek" "[]"]
  by (simp add: KeyComparator_def entry_slice_entry memtable_key_lookup)

subsection \<open>Contents\<close>

definition mem_key_ok :: "(slice \<Rightarrow> bool) \<Rightarrow> slice \<Rightarrow> bool" where
  "mem_key_ok key_ok b \<longleftrightarrow> internal_key_ok key_ok (fst (entry_slice b))"

sublocale user_comparator \<subseteq> mem: three_way "KeyComparator Compare" "mem_key_ok key_ok"
  by unfold_locales
    (simp_all add: KeyComparator_def mem_key_ok_def Let_def internal.cmp_flip, blast intro: internal.cmp_trans)

text \<open>\<open>mem_repr\<close>: the entries of the table, in the order of their internal keys.\<close>

definition mem_repr :: "(slice \<Rightarrow> slice \<Rightarrow> int) \<Rightarrow> (slice \<Rightarrow> bool) \<Rightarrow> MemTable \<Rightarrow> mem_entry list \<Rightarrow> bool" where
  "mem_repr ucmp key_ok m es \<longleftrightarrow>
     skip_repr (KeyComparator ucmp) (mt_table m) (map entry_bytes es) \<and> (\<forall>e \<in> set es. entry_ok key_ok e)"

text \<open>The entries a read of user key \<open>u\<close> at sequence number \<open>s\<close> may see, and the newest of them.\<close>

definition visible :: "(slice \<Rightarrow> slice \<Rightarrow> int) \<Rightarrow> slice \<Rightarrow> u64 \<Rightarrow> mem_entry \<Rightarrow> bool" where
  "visible ucmp u s e \<longleftrightarrow> ucmp (me_key e) u = 0 \<and> me_seq e \<le> s"

definition newest :: "(slice \<Rightarrow> slice \<Rightarrow> int) \<Rightarrow> slice \<Rightarrow> u64 \<Rightarrow> mem_entry set \<Rightarrow> mem_entry \<Rightarrow> bool" where
  "newest ucmp u s E e \<longleftrightarrow> e \<in> E \<and> visible ucmp u s e \<and> (\<forall>d \<in> E. visible ucmp u s d \<longrightarrow> me_seq d \<le> me_seq e)"

lemma entry_mem_key_ok: "entry_ok key_ok e \<Longrightarrow> mem_key_ok key_ok (entry_bytes e)"
  using entry_slice_entry [of key_ok e]
  by (simp add: mem_key_ok_def internal_key_ok_def) (simp add: entry_key_def entry_ok_def)

lemma lookup_mem_key_ok:
  "key_ok u \<Longrightarrow> length u + 8 < 2 ^ 32 \<Longrightarrow> mem_key_ok key_ok (memtable_key (make_LookupKey u s))"
  using entry_slice_append [of "InternalKey u s kValueTypeForSeek" "[]"]
  by (simp add: mem_key_ok_def internal_key_ok_def memtable_key_lookup)

lemma make_MemTable_repr: "mem_repr ucmp key_ok (make_MemTable new_char) []"
  using skip_repr_make [of "KeyComparator ucmp" new_char "[]" make_Arena]
  by (cases "make_SkipList new_char ([] :: slice) make_Arena") (simp add: mem_repr_def make_MemTable_def)

lemma dropWhile_Cons_nth:
  "dropWhile P xs = y # ys \<Longrightarrow>
   length (takeWhile P xs) < length xs \<and> xs ! length (takeWhile P xs) = y \<and> y \<in> set xs"
  by (induction xs) (auto split: if_splits)

lemma iter_repr_end: "iter_repr cmp sl ks i node \<Longrightarrow> length ks \<le> i \<Longrightarrow> node = None"
  by (auto simp: iter_repr_def)

context user_comparator
begin

lemma MemTable_Add_repr:
  assumes m: "mem_repr Compare key_ok m es" and e: "entry_ok key_ok e"
    and new: "\<forall>d \<in> set es. InternalKeyComparator_Compare Compare (entry_key d) (entry_key e) \<noteq> 0"
  shows "\<exists>m' es'. MemTable_Add new_char Compare (me_seq e) (me_type e) (me_key e) (me_value e) m = Some m' \<and>
    mem_repr Compare key_ok m' es' \<and> set es' = insert e (set es)"
proof -
  let ?P = "\<lambda>d. KeyComparator Compare (entry_bytes d) (entry_bytes e) < 0"
  let ?es = "takeWhile ?P es @ e # dropWhile ?P es"
  have "\<forall>k \<in> set (map entry_bytes es). mem_key_ok key_ok k \<and> KeyComparator Compare k (entry_bytes e) \<noteq> 0"
    using m e new by (auto simp: mem_repr_def entry_mem_key_ok KeyComparator_entries)
  then obtain sl' a' where "Insert (KeyComparator Compare) new_char (entry_bytes e)
      (mt_table m, snd (Allocate new_char
           (VarintLength (word_of_nat (length (me_key e) + 8)) + (length (me_key e) + 8) +
            VarintLength (word_of_nat (length (me_value e))) + length (me_value e)) (mt_arena m))) = Some (sl', a')"
    and "skip_repr (KeyComparator Compare) sl' (map entry_bytes ?es)"
    using mem.Insert_repr [of "mt_table m" "map entry_bytes es" "entry_bytes e" new_char] m e
    by (fastforce simp: mem_repr_def entry_mem_key_ok takeWhile_map dropWhile_map o_def)
  moreover have "set ?es = insert e (set es)"
    using set_append [of "takeWhile ?P es" "dropWhile ?P es"] by auto
  ultimately show ?thesis
    using m e unfolding MemTable_Add_entry
    by (intro exI [of _ "m\<lparr>mt_table := sl', mt_arena := a'\<rparr>"] exI [of _ ?es]) (auto simp: mem_repr_def)
qed

text \<open>\<^verbatim>\<open>Get\<close> on the entry the search stops at.\<close>

lemma MemTable_Get_at:
  assumes seek: "iter_Seek (KeyComparator Compare) (mt_table m) (memtable_key (make_LookupKey u s)) = Some iter"
    and iter: "iter_Valid iter" "iter_key (mt_table m) iter = entry_bytes e" and e: "entry_ok key_ok e"
  shows "MemTable_Get Compare m (make_LookupKey u s) val st = Some (
    if Compare (me_key e) u = 0
    then (case me_type e of kTypeValue \<Rightarrow> (True, me_value e, st) | kTypeDeletion \<Rightarrow> (True, val, NotFound [] []))
    else (False, val, st))"
proof -
  let ?v = "EncodeVarint32 (word_of_nat (length (me_value e))) @ me_value e"
  let ?n = "word_of_nat (length (me_key e) + 8) :: u32"
  obtain r where r: "GetVarint32Ptr (take 5 (entry_bytes e)) = Some (?n, r)"
    "drop (length (take 5 (entry_bytes e)) - length r) (entry_bytes e) = entry_key e @ ?v"
    using entry_varint [of ?n "entry_key e @ ?v"] unfolding entry_bytes_def by blast
  have n: "unat ?n = length (me_key e) + 8" "unat (?n - 8) = length (me_key e)"
    using e by (simp add: entry_ok_def unat_word_of_nat_small del: of_nat_add)
      (use e in \<open>simp add: entry_ok_def unat_word_of_nat_small\<close>)
  have k: "take (length (me_key e)) (entry_key e @ ?v) = me_key e"
      "drop (length (me_key e) + 8) (entry_key e @ ?v) = ?v"
      "DecodeFixed64 (drop (length (me_key e)) (entry_key e @ ?v)) = PackSequenceAndType (me_seq e) (me_type e)"
    by (simp_all add: entry_key_def InternalKey_def AppendInternalKey_def PutFixed64_def)
  have t: "PackSequenceAndType (me_seq e) (me_type e) AND 0xff = type_byte (me_type e)"
    unfolding PackSequenceAndType_def
    by (rule bit_word_eqI) (cases "me_type e"; auto simp: bit_simps bit_masks)
  show ?thesis
    unfolding MemTable_Get_def seek option.case iter r prod.case Let_def n
    using k t entry_value [OF e] iter(1)
    by (cases "me_type e") (simp_all add: k)
qed

abbreviation entry_less :: "mem_entry \<Rightarrow> mem_entry \<Rightarrow> bool" where
  "entry_less d e \<equiv> InternalKeyComparator_Compare Compare (entry_key d) (entry_key e) < 0"

text \<open>In a sorted list of entries the first one that is not before \<open>(u, s)\<close> decides the read.\<close>

lemma first_not_before:
  assumes ok: "\<forall>e \<in> set es. entry_ok key_ok e" and u: "key_ok u" and es: "es = bs @ e # as"
    and sorted: "sorted_wrt entry_less es"
    and bs: "\<forall>b \<in> set bs. Compare (me_key b) u < 0 \<or> Compare (me_key b) u = 0 \<and> s < me_seq b"
    and e: "\<not> (Compare (me_key e) u < 0 \<or> Compare (me_key e) u = 0 \<and> s < me_seq e)"
  shows "if Compare (me_key e) u = 0 then newest Compare u s (set es) e
         else \<not> (\<exists>d \<in> set es. visible Compare u s d)"
proof -
  have later: "d = e \<or> Compare (me_key e) (me_key d) < 0 \<or> Compare (me_key e) (me_key d) = 0 \<and> me_seq d \<le> me_seq e"
    if "d \<in> set es" "visible Compare u s d" for d
  proof -
    have "d \<notin> set bs" using bs that(2) by (auto simp: visible_def)
    then have "d = e \<or> entry_less e d" using that(1) sorted by (auto simp: es sorted_wrt_append)
    then show ?thesis
      using internal_compare_keys(1) [of "me_seq e" "me_seq d" Compare "me_key e" "me_type e" "me_key d" "me_type d"]
        ok that(1) by (auto simp: es entry_key_def entry_ok_def)
  qed
  have trans: "Compare (me_key e) u \<le> 0" if "d \<in> set es" "visible Compare u s d" for d
    using later [OF that] that cmp_trans [of "me_key e" "me_key d" u] ok u
    by (auto simp: es visible_def entry_ok_def)
  have strict: "\<not> Compare (me_key e) (me_key d) < 0"
    if "d \<in> set es" "visible Compare u s d" "Compare (me_key e) u = 0" for d
    using that ok u cmp_less_le_trans [of "me_key e" "me_key d" u] by (auto simp: es visible_def entry_ok_def)
  show ?thesis
    using later trans strict e by (auto simp: newest_def es) (auto simp: visible_def)
qed

lemma MemTable_Get_correct:
  assumes m: "mem_repr Compare key_ok m es" and u: "key_ok u" "length u + 8 < 2 ^ 32" "s \<le> kMaxSequenceNumber"
  shows "if \<exists>e \<in> set es. visible Compare u s e
    then \<exists>e. newest Compare u s (set es) e \<and> MemTable_Get Compare m (make_LookupKey u s) val st =
      Some (case me_type e of kTypeValue \<Rightarrow> (True, me_value e, st) | kTypeDeletion \<Rightarrow> (True, val, NotFound [] []))
    else MemTable_Get Compare m (make_LookupKey u s) val st = Some (False, val, st)"
proof -
  let ?t = "memtable_key (make_LookupKey u s)"
  let ?P = "\<lambda>e. KeyComparator Compare (entry_bytes e) ?t < 0"
  let ?i = "length (takeWhile ?P es)"
  have ok: "\<forall>e \<in> set es. entry_ok key_ok e" using m by (simp add: mem_repr_def)
  have keys: "\<forall>k \<in> set (map entry_bytes es). mem_key_ok key_ok k" "mem_key_ok key_ok ?t"
    using ok u by (auto simp: entry_mem_key_ok lookup_mem_key_ok)
  obtain iter where seek: "iter_Seek (KeyComparator Compare) (mt_table m) ?t = Some iter"
    and at: "iter_repr (KeyComparator Compare) (mt_table m) (map entry_bytes es) ?i iter"
    using mem.iter_Seek_repr [OF _ keys, of "mt_table m"] m
    by (auto simp: mem_repr_def takeWhile_map o_def)
  have sorted: "sorted_wrt (\<lambda>d e. InternalKeyComparator_Compare Compare (entry_key d) (entry_key e) < 0) es"
  proof -
    have "skip_sorted (KeyComparator Compare) (map entry_bytes es)"
      using m by (auto simp: mem_repr_def skip_repr_def skip_ok_def)
    then have "sorted_wrt (\<lambda>d e. KeyComparator Compare (entry_bytes d) (entry_bytes e) < 0) es"
      by (simp add: skip_sorted_def sorted_wrt_map)
    then show ?thesis
      by (rule sorted_wrt_mono_rel [rotated]) (use ok KeyComparator_entries in force)
  qed
  have before: "?P e \<longleftrightarrow> Compare (me_key e) u < 0 \<or> Compare (me_key e) u = 0 \<and> s < me_seq e"
    if "e \<in> set es" for e
    using that ok u internal_compare_keys(1) [of "me_seq e" s Compare "me_key e" "me_type e" u kTypeValue]
    by (auto simp: KeyComparator_lookup entry_key_def kValueTypeForSeek_def entry_ok_def)
  show ?thesis
  proof (cases "dropWhile ?P es")
    case Nil
    then have "\<not> (\<exists>e \<in> set es. visible Compare u s e)" using before by (force simp: visible_def)
    moreover have "takeWhile ?P es = es" using Nil by simp
    then have "?i = length es" by (rule arg_cong)
    then have "iter = None" using iter_repr_end [OF at] by simp
    ultimately show ?thesis using seek by (simp add: MemTable_Get_def iter_Valid_def)
  next
    case (Cons e as)
    then have es: "es = takeWhile ?P es @ e # as" by (metis takeWhile_dropWhile_id)
    have i: "?i < length es" "es ! ?i = e" "e \<in> set es" using dropWhile_Cons_nth [OF Cons] by auto
    then have iter: "iter_Valid iter" "iter_key (mt_table m) iter = entry_bytes e"
      using mem.iter_Next_repr [OF at] by auto
    have "\<not> ?P e" using hd_dropWhile [of ?P es] Cons by simp
    moreover have "\<forall>b \<in> set (takeWhile ?P es). ?P b" "set (takeWhile ?P es) \<subseteq> set es"
      by (auto dest: set_takeWhileD)
    ultimately have "if Compare (me_key e) u = 0 then newest Compare u s (set es) e
         else \<not> (\<exists>d \<in> set es. visible Compare u s d)"
      using before i(3) by (intro first_not_before [OF ok u(1) es sorted]) auto
    then show ?thesis
      using MemTable_Get_at [OF seek iter] ok i(3) by (auto simp: newest_def split: if_splits)
  qed
qed

end

subsection \<open>Properties\<close>

text \<open>A run of \<^verbatim>\<open>Add\<close> calls.\<close>

fun add_all :: "new_char \<Rightarrow> (slice \<Rightarrow> slice \<Rightarrow> int) \<Rightarrow> mem_entry list \<Rightarrow> MemTable \<Rightarrow> MemTable option" where
  "add_all new_char ucmp [] m = Some m"
| "add_all new_char ucmp (e # es) m =
     (case MemTable_Add new_char ucmp (me_seq e) (me_type e) (me_key e) (me_value e) m of
        None \<Rightarrow> None
      | Some m' \<Rightarrow> add_all new_char ucmp es m')"

context user_comparator
begin

lemma add_all_repr:
  assumes "mem_repr Compare key_ok m ds" "\<forall>e \<in> set es. entry_ok key_ok e"
    and "distinct (map me_seq es)" "\<forall>d \<in> set ds. \<forall>e \<in> set es. me_seq d \<noteq> me_seq e"
  shows "\<exists>m' es'. add_all new_char Compare es m = Some m' \<and> mem_repr Compare key_ok m' es' \<and>
    set es' = set ds \<union> set es"
  using assms
proof (induction es arbitrary: m ds)
  case (Cons e es)
  have "InternalKeyComparator_Compare Compare (entry_key d) (entry_key e) \<noteq> 0" if "d \<in> set ds" for d
    using that Cons.prems internal_compare_keys(2) [of "me_seq d" "me_seq e"]
    by (auto simp: entry_key_def mem_repr_def entry_ok_def)
  then obtain m1 ds1 where m1:
    "MemTable_Add new_char Compare (me_seq e) (me_type e) (me_key e) (me_value e) m = Some m1"
    "mem_repr Compare key_ok m1 ds1" "set ds1 = insert e (set ds)"
    using MemTable_Add_repr [OF Cons.prems(1), of e new_char] Cons.prems(2) by auto
  have "\<forall>d \<in> set ds1. \<forall>e \<in> set es. me_seq d \<noteq> me_seq e"
    using m1(3) Cons.prems(3,4) by (auto simp: image_iff)
  with Cons.IH [OF m1(2)] Cons.prems(2,3) m1 show ?case by auto
qed auto

end

text \<open>C11: after any sequence of \<^verbatim>\<open>Add\<close> calls with distinct sequence numbers, in whatever order, every
  call has returned and \<^verbatim>\<open>Get\<close> for a user key at a snapshot finds the entry with the largest
  sequence number not above the snapshot: its value, or NotFound when it is a deletion; when no such
  entry exists it reports that the key was not found here and changes nothing.\<close>

theorem memtable_get_newest:
  assumes "user_comparator ucmp key_ok sep succ"
    and "\<forall>e \<in> set es. entry_ok key_ok e" and "distinct (map me_seq es)"
    and "key_ok u" and "length u + 8 < 2 ^ 32" and "s \<le> kMaxSequenceNumber"
  shows "\<exists>m. add_all new_char ucmp es (make_MemTable new_char) = Some m \<and>
    (if \<exists>e \<in> set es. visible ucmp u s e
     then \<exists>e. newest ucmp u s (set es) e \<and> MemTable_Get ucmp m (make_LookupKey u s) val st =
       Some (case me_type e of kTypeValue \<Rightarrow> (True, me_value e, st) | kTypeDeletion \<Rightarrow> (True, val, NotFound [] []))
     else MemTable_Get ucmp m (make_LookupKey u s) val st = Some (False, val, st))"
proof -
  obtain m es' where m: "add_all new_char ucmp es (make_MemTable new_char) = Some m"
    "mem_repr ucmp key_ok m es'" and es': "set es' = set es"
    using user_comparator.add_all_repr [OF assms(1) make_MemTable_repr assms(2,3), of new_char new_char] by auto
  show ?thesis
    using user_comparator.MemTable_Get_correct [OF assms(1) m(2) assms(4,5,6), of val st] m(1)
    unfolding es' by blast
qed

theorem memtable_get_newest_witness:
  "let e = \<lparr>me_key = [107], me_seq = 5, me_type = kTypeValue, me_value = [118]\<rparr>;
       d = \<lparr>me_key = [107], me_seq = 9, me_type = kTypeDeletion, me_value = []\<rparr>
   in \<exists>m. add_all bump_new Bytewise_Compare [d, e] (make_MemTable bump_new) = Some m \<and>
        MemTable_Get Bytewise_Compare m (make_LookupKey [107] 7) [] None = Some (True, [118], None) \<and>
        entry_ok (\<lambda>_. True) d"
proof -
  let ?e = "\<lparr>me_key = [107], me_seq = 5, me_type = kTypeValue, me_value = [118]\<rparr>"
  let ?d = "\<lparr>me_key = [107], me_seq = 9, me_type = kTypeDeletion, me_value = []\<rparr>"
  have r: "Bytewise_Compare [107] [107] = 0" by (rule bytewise.cmp_refl) simp
  have ok: "entry_ok (\<lambda>_. True) ?e" "entry_ok (\<lambda>_. True) ?d" "(7 :: u64) \<le> kMaxSequenceNumber"
    by (simp_all add: entry_ok_def kMaxSequenceNumber_def)
  have "\<not> (9 :: u64) \<le> 7" by simp
  then show ?thesis
    using memtable_get_newest [OF icmp.user_comparator_axioms, of "[?d, ?e]" "[107]" 7 bump_new "[]" None] ok r
    by (auto simp: newest_def visible_def split: if_splits)
qed

end
