(* ===== verification/Write_Batch.thy ===== *)
theory Write_Batch
  imports Mem_Table
begin

text \<open>
  Write batches: \<^verbatim>\<open>db/write_batch.cpp\<close> and \<^verbatim>\<open>db/write_batch_internal.h\<close>.  A batch is its
  \<^verbatim>\<open>rep_\<close>: a sequence number, a count and the operations one after the other.  A handler is a
  pair of functions on a handler state \<open>'h\<close>; \<^verbatim>\<open>MemTableInserter\<close> is the handler whose state is
  its \<^verbatim>\<open>sequence_\<close> and the memtable it writes to.
\<close>

definition kHeader :: nat where
  "kHeader = 12"

definition WriteBatch_Clear :: slice where
  "WriteBatch_Clear = resize [] kHeader"

text \<open>The loop of \<^verbatim>\<open>Iterate\<close>: the status of an early return, or the number of records found; and the
  handler state.\<close>

function iterate_loop ::
  "(slice \<Rightarrow> slice \<Rightarrow> 'h \<Rightarrow> 'h) \<Rightarrow> (slice \<Rightarrow> 'h \<Rightarrow> 'h) \<Rightarrow> slice \<Rightarrow> int \<Rightarrow> 'h \<Rightarrow> (status + int) \<times> 'h" where
  "iterate_loop put del [] found h = (Inr found, h)"
| "iterate_loop put del (tag # input) found h =
     (if tag = ucast (type_byte kTypeValue) then
        (case GetLengthPrefixedSlice input of
           None \<Rightarrow> (Inl (Corruption (str ''bad WriteBatch Put'') []), h)
         | Some (key, input') \<Rightarrow>
             (case GetLengthPrefixedSlice input' of
                None \<Rightarrow> (Inl (Corruption (str ''bad WriteBatch Put'') []), h)
              | Some (val, input'') \<Rightarrow> iterate_loop put del input'' (found + 1) (put key val h)))
      else if tag = ucast (type_byte kTypeDeletion) then
        (case GetLengthPrefixedSlice input of
           None \<Rightarrow> (Inl (Corruption (str ''bad WriteBatch Delete'') []), h)
         | Some (key, input') \<Rightarrow> iterate_loop put del input' (found + 1) (del key h))
      else (Inl (Corruption (str ''unknown WriteBatch tag'') []), h))"
  by pat_completeness auto
termination
  by (relation "measure (\<lambda>(_, _, input, _, _). length input)")
    (auto dest!: length_GetLengthPrefixedSlice)

text \<open>\<^verbatim>\<open>Count\<close> is an \<^verbatim>\<open>int\<close> read from an unsigned 32-bit field.\<close>

definition WriteBatch_Count :: "slice \<Rightarrow> int" where
  "WriteBatch_Count rep = sint (DecodeFixed32 (drop 8 rep))"

definition WriteBatch_SetCount :: "slice \<Rightarrow> int \<Rightarrow> slice" where
  "WriteBatch_SetCount rep n = patch rep 8 (EncodeFixed32 (word_of_int n))"

definition WriteBatch_Sequence :: "slice \<Rightarrow> u64" where
  "WriteBatch_Sequence rep = DecodeFixed64 rep"

definition WriteBatch_SetSequence :: "slice \<Rightarrow> u64 \<Rightarrow> slice" where
  "WriteBatch_SetSequence rep seq = patch rep 0 (EncodeFixed64 seq)"

definition WriteBatch_Iterate ::
  "(slice \<Rightarrow> slice \<Rightarrow> 'h \<Rightarrow> 'h) \<Rightarrow> (slice \<Rightarrow> 'h \<Rightarrow> 'h) \<Rightarrow> slice \<Rightarrow> 'h \<Rightarrow> status \<times> 'h" where
  "WriteBatch_Iterate put del rep h =
     (if length rep < kHeader then (Corruption (str ''malformed WriteBatch (too small)'') [], h)
      else case iterate_loop put del (drop kHeader rep) 0 h of
             (Inl s, h') \<Rightarrow> (s, h')
           | (Inr found, h') \<Rightarrow>
               if found \<noteq> WriteBatch_Count rep
               then (Corruption (str ''WriteBatch has wrong count'') [], h')
               else (None, h'))"

definition WriteBatch_Put :: "slice \<Rightarrow> slice \<Rightarrow> slice \<Rightarrow> slice" where
  "WriteBatch_Put rep key val =
     (let rep1 = WriteBatch_SetCount rep (WriteBatch_Count rep + 1);
          rep2 = rep1 @ [ucast (type_byte kTypeValue)]
      in PutLengthPrefixedSlice (PutLengthPrefixedSlice rep2 key) val)"

definition WriteBatch_Delete :: "slice \<Rightarrow> slice \<Rightarrow> slice" where
  "WriteBatch_Delete rep key =
     (let rep1 = WriteBatch_SetCount rep (WriteBatch_Count rep + 1);
          rep2 = rep1 @ [ucast (type_byte kTypeDeletion)]
      in PutLengthPrefixedSlice rep2 key)"

text \<open>\<^verbatim>\<open>MemTableInserter\<close>: the memtable is \<open>None\<close> once an \<^verbatim>\<open>Add\<close> has not returned.\<close>

type_synonym inserter = "u64 \<times> MemTable option"

definition MemTableInserter_Put ::
  "new_char \<Rightarrow> (slice \<Rightarrow> slice \<Rightarrow> int) \<Rightarrow> slice \<Rightarrow> slice \<Rightarrow> inserter \<Rightarrow> inserter" where
  "MemTableInserter_Put new_char ucmp key val = (\<lambda>(seq, mem).
     (seq + 1, Option.bind mem (MemTable_Add new_char ucmp seq kTypeValue key val)))"

definition MemTableInserter_Delete ::
  "new_char \<Rightarrow> (slice \<Rightarrow> slice \<Rightarrow> int) \<Rightarrow> slice \<Rightarrow> inserter \<Rightarrow> inserter" where
  "MemTableInserter_Delete new_char ucmp key = (\<lambda>(seq, mem).
     (seq + 1, Option.bind mem (MemTable_Add new_char ucmp seq kTypeDeletion key [])))"

definition InsertInto ::
  "new_char \<Rightarrow> (slice \<Rightarrow> slice \<Rightarrow> int) \<Rightarrow> slice \<Rightarrow> MemTable \<Rightarrow> status \<times> MemTable option" where
  "InsertInto new_char ucmp rep mem =
     (let (s, (_, mem')) = WriteBatch_Iterate (MemTableInserter_Put new_char ucmp)
            (MemTableInserter_Delete new_char ucmp) rep (WriteBatch_Sequence rep, Some mem)
      in (s, mem'))"

definition WriteBatch_SetContents :: "slice \<Rightarrow> slice" where
  "WriteBatch_SetContents contents = contents"

definition WriteBatch_Append :: "slice \<Rightarrow> slice \<Rightarrow> slice" where
  "WriteBatch_Append dst src =
     WriteBatch_SetCount dst (WriteBatch_Count dst + WriteBatch_Count src) @ drop kHeader src"

subsection \<open>Batches as lists of operations\<close>

datatype batch_op = BPut slice slice | BDelete slice

fun apply_op :: "batch_op \<Rightarrow> slice \<Rightarrow> slice" where
  "apply_op (BPut k v) rep = WriteBatch_Put rep k v"
| "apply_op (BDelete k) rep = WriteBatch_Delete rep k"

fun handle_op :: "(slice \<Rightarrow> slice \<Rightarrow> 'h \<Rightarrow> 'h) \<Rightarrow> (slice \<Rightarrow> 'h \<Rightarrow> 'h) \<Rightarrow> batch_op \<Rightarrow> 'h \<Rightarrow> 'h" where
  "handle_op put del (BPut k v) = put k v"
| "handle_op put del (BDelete k) = del k"

fun op_ok :: "batch_op \<Rightarrow> bool" where
  "op_ok (BPut k v) \<longleftrightarrow> length k < 2 ^ 32 \<and> length v < 2 ^ 32"
| "op_ok (BDelete k) \<longleftrightarrow> length k < 2 ^ 32"

fun encode_op :: "batch_op \<Rightarrow> slice" where
  "encode_op (BPut k v) = 1 # EncodeVarint32 (word_of_nat (length k)) @ k @
     EncodeVarint32 (word_of_nat (length v)) @ v"
| "encode_op (BDelete k) = 0 # EncodeVarint32 (word_of_nat (length k)) @ k"

definition batch_rep :: "u64 \<Rightarrow> batch_op list \<Rightarrow> slice" where
  "batch_rep seq ops = EncodeFixed64 seq @ EncodeFixed32 (word_of_nat (length ops)) @ concat (map encode_op ops)"

lemma iterate_loop_ops:
  assumes "\<forall>x \<in> set ops. op_ok x"
  shows "iterate_loop put del (concat (map encode_op ops)) found h =
         (Inr (found + int (length ops)), fold (handle_op put del) ops h)"
  using assms
proof (induction ops arbitrary: found h)
  case (Cons x ops)
  then show ?case
    by (cases x) (simp_all add: GetLengthPrefixedSlice_Put)
qed simp

lemma drop_batch_rep: "drop kHeader (batch_rep seq ops) = concat (map encode_op ops)"
  by (simp add: batch_rep_def kHeader_def)

lemma Count_batch_rep: "length ops < 2 ^ 31 \<Longrightarrow> WriteBatch_Count (batch_rep seq ops) = int (length ops)"
  by (simp add: WriteBatch_Count_def batch_rep_def sint_uint unsigned_of_nat take_bit_nat_eq_self
      signed_take_bit_int_eq_self)

lemma Sequence_batch_rep: "WriteBatch_Sequence (batch_rep seq ops) = seq"
  by (simp add: WriteBatch_Sequence_def batch_rep_def)

lemma SetCount_batch_rep:
  "WriteBatch_SetCount (batch_rep seq ops) (int n) =
     EncodeFixed64 seq @ EncodeFixed32 (word_of_nat n) @ concat (map encode_op ops)"
  by (simp add: WriteBatch_SetCount_def batch_rep_def patch_def)

lemma SetSequence_batch_rep: "WriteBatch_SetSequence (batch_rep s ops) seq = batch_rep seq ops"
  by (simp add: WriteBatch_SetSequence_def batch_rep_def patch_def)

lemma Clear_batch_rep: "WriteBatch_Clear = batch_rep 0 []"
  by (simp add: WriteBatch_Clear_def batch_rep_def kHeader_def resize_def EncodeFixed64_def EncodeFixed32_def
      numeral_eq_Suc)

lemma apply_op_batch_rep:
  assumes "length ops < 2 ^ 31"
  shows "apply_op x (batch_rep seq ops) = batch_rep seq (ops @ [x])"
  using SetCount_batch_rep [of seq ops "length ops + 1"] Count_batch_rep [OF assms]
  by (cases x) (simp_all add: WriteBatch_Put_def WriteBatch_Delete_def Let_def PutLengthPrefixedSlice_def
      PutVarint32_def batch_rep_def add.commute)

lemma apply_ops_batch_rep:
  assumes "length ops + length ops2 \<le> 2 ^ 31"
  shows "fold apply_op ops2 (batch_rep seq ops) = batch_rep seq (ops @ ops2)"
  using assms
proof (induction ops2 arbitrary: ops)
  case (Cons x ops2)
  then show ?case using Cons.IH [of "ops @ [x]"] by (simp add: apply_op_batch_rep)
qed simp

lemma Iterate_batch_rep:
  assumes "\<forall>x \<in> set ops. op_ok x" "length ops < 2 ^ 31"
  shows "WriteBatch_Iterate put del (batch_rep seq ops) h = (None, fold (handle_op put del) ops h)"
proof -
  have "kHeader \<le> length (batch_rep seq ops)" by (simp add: batch_rep_def kHeader_def)
  then show ?thesis
    using assms by (simp add: WriteBatch_Iterate_def drop_batch_rep iterate_loop_ops Count_batch_rep)
qed

lemma Append_batch_rep:
  assumes "length ops < 2 ^ 31" "length ops' < 2 ^ 31"
  shows "WriteBatch_Append (batch_rep seq ops) (batch_rep seq' ops') = batch_rep seq (ops @ ops')"
proof -
  have "WriteBatch_Count (batch_rep seq ops) + WriteBatch_Count (batch_rep seq' ops') =
        int (length ops + length ops')"
    using assms by (simp add: Count_batch_rep)
  then show ?thesis
    by (simp only: WriteBatch_Append_def SetCount_batch_rep drop_batch_rep) (simp add: batch_rep_def)
qed

subsection \<open>Insertion into a memtable\<close>

text \<open>The entries a batch stands for: consecutive sequence numbers in the order of the operations.\<close>

fun op_entry :: "u64 \<Rightarrow> batch_op \<Rightarrow> mem_entry" where
  "op_entry seq (BPut k v) = \<lparr>me_key = k, me_seq = seq, me_type = kTypeValue, me_value = v\<rparr>"
| "op_entry seq (BDelete k) = \<lparr>me_key = k, me_seq = seq, me_type = kTypeDeletion, me_value = []\<rparr>"

fun op_entries :: "u64 \<Rightarrow> batch_op list \<Rightarrow> mem_entry list" where
  "op_entries seq [] = []"
| "op_entries seq (x # ops) = op_entry seq x # op_entries (seq + 1) ops"

lemma fold_inserter:
  "fold (handle_op (MemTableInserter_Put new_char ucmp) (MemTableInserter_Delete new_char ucmp)) ops (seq, mem) =
     (seq + word_of_nat (length ops), Option.bind mem (add_all new_char ucmp (op_entries seq ops)))"
proof (induction ops arbitrary: seq mem)
  case (Cons x ops)
  have "handle_op (MemTableInserter_Put new_char ucmp) (MemTableInserter_Delete new_char ucmp) x (seq, mem) =
    (seq + 1, Option.bind mem (MemTable_Add new_char ucmp seq (me_type (op_entry seq x)) (me_key (op_entry seq x))
       (me_value (op_entry seq x))))"
    by (cases x) (simp_all add: MemTableInserter_Put_def MemTableInserter_Delete_def)
  moreover have "me_seq (op_entry seq x) = seq" by (cases x) simp_all
  ultimately show ?case by (cases mem) (simp_all add: Cons.IH add.assoc split: option.split)
next
  case Nil
  show ?case by (cases mem) simp_all
qed

lemma InsertInto_batch_rep:
  assumes "\<forall>x \<in> set ops. op_ok x" "length ops < 2 ^ 31"
  shows "InsertInto new_char ucmp (batch_rep seq ops) mem =
         (None, add_all new_char ucmp (op_entries seq ops) mem)"
  using assms by (simp add: InsertInto_def Iterate_batch_rep Sequence_batch_rep fold_inserter)

lemma length_op_entries [simp]: "length (op_entries seq ops) = length ops"
  by (induction ops arbitrary: seq) simp_all

lemma me_seq_op_entry [simp]: "me_seq (op_entry seq x) = seq"
  by (cases x) simp_all

lemma nth_op_entries: "i < length ops \<Longrightarrow> op_entries seq ops ! i = op_entry (seq + word_of_nat i) (ops ! i)"
proof (induction ops arbitrary: seq i)
  case (Cons x ops)
  then show ?case by (cases i) (simp_all add: add.assoc)
qed simp

lemma unat_seq_plus:
  assumes "unat (seq :: u64) + n \<le> unat kMaxSequenceNumber"
  shows "unat (seq + word_of_nat n) = unat seq + n"
proof -
  have "unat seq + n < 2 ^ 64" using assms unat_lt_exp [of kMaxSequenceNumber] by simp
  then show ?thesis by (simp add: unat_word_ariths unsigned_of_nat take_bit_eq_mod)
qed

fun op_key :: "batch_op \<Rightarrow> slice" where
  "op_key (BPut k v) = k"
| "op_key (BDelete k) = k"

fun op_result :: "batch_op \<Rightarrow> slice \<Rightarrow> status \<Rightarrow> bool \<times> slice \<times> status" where
  "op_result (BPut k v) val st = (True, v, st)"
| "op_result (BDelete k) val st = (True, val, NotFound [] [])"

lemma me_key_op_entry [simp]: "me_key (op_entry seq x) = op_key x"
  by (cases x) simp_all

lemma op_entry_result:
  "(case me_type (op_entry seq x) of kTypeValue \<Rightarrow> (True, me_value (op_entry seq x), st)
    | kTypeDeletion \<Rightarrow> (True, val, NotFound [] [])) = op_result x val st"
  by (cases x) simp_all

lemma set_op_entries: "set (op_entries seq ops) = (\<lambda>i. op_entry (seq + word_of_nat i) (ops ! i)) ` {..< length ops}"
  by (force simp: set_conv_nth nth_op_entries)

text \<open>The newest entry of a batch for a key comes from the last operation on that key.\<close>

lemma newest_op_entries:
  assumes seqs: "unat seq + length ops \<le> unat kMaxSequenceNumber"
    and new: "newest ucmp u (seq + word_of_nat (length ops)) (set (op_entries seq ops)) e"
  shows "\<exists>i. i < length ops \<and> e = op_entry (seq + word_of_nat i) (ops ! i) \<and>
    find (\<lambda>x. ucmp (op_key x) u = 0) (rev ops) = Some (ops ! i)"
proof -
  let ?P = "\<lambda>x. ucmp (op_key x) u = 0"
  have un: "unat (seq + word_of_nat j) = unat seq + j" if "j \<le> length ops" for j
    using that seqs by (intro unat_seq_plus) simp
  obtain i where i: "i < length ops" "e = op_entry (seq + word_of_nat i) (ops ! i)" "?P (ops ! i)"
    using new by (auto simp: newest_def visible_def set_op_entries)
  have later: "\<not> ?P (ops ! j)" if "i < j" "j < length ops" for j
  proof
    assume "?P (ops ! j)"
    then have "visible ucmp u (seq + word_of_nat (length ops)) (op_entry (seq + word_of_nat j) (ops ! j))"
      using that by (simp add: visible_def word_le_nat_alt un)
    then have "seq + word_of_nat j \<le> me_seq e" using new that(2) by (force simp: newest_def set_op_entries)
    then show False using that i by (simp add: word_le_nat_alt un)
  qed
  have "find ?P (rev ops) = Some (ops ! i)"
  proof -
    have "rev ops ! (length ops - Suc i) = ops ! i" using i(1) by (simp add: rev_nth)
    moreover have "\<not> ?P (rev ops ! k)" if "k < length ops - Suc i" for k
      using that i(1) by (simp add: rev_nth later)
    ultimately show ?thesis
      using i(1,3) unfolding find_Some_iff by (intro exI [of _ "length ops - Suc i"]) auto
  qed
  with i show ?thesis by blast
qed

lemma op_entries_ok:
  assumes "\<forall>x \<in> set ops. op_ok x \<and> key_ok (op_key x) \<and> length (op_key x) + 8 < 2 ^ 32"
    and "unat seq + length ops \<le> unat kMaxSequenceNumber"
  shows "\<forall>e \<in> set (op_entries seq ops). entry_ok key_ok e"
proof
  fix e assume "e \<in> set (op_entries seq ops)"
  then obtain i where i: "i < length ops" "e = op_entry (seq + word_of_nat i) (ops ! i)"
    by (auto simp: set_op_entries)
  then have "ops ! i \<in> set ops" "unat (seq + word_of_nat i) = unat seq + i"
    using assms(2) by (auto intro: unat_seq_plus)
  with i show "entry_ok key_ok e"
    using assms by (cases "ops ! i") (fastforce simp: entry_ok_def word_le_nat_alt)+
qed

subsection \<open>Properties\<close>

text \<open>C30: a batch that was built by \<^verbatim>\<open>Put\<close> and \<^verbatim>\<open>Delete\<close> calls carries its sequence number and the
  number of its operations, and \<^verbatim>\<open>Iterate\<close> hands exactly these operations to the handler, in order,
  and returns OK.\<close>

theorem write_batch_roundtrip:
  assumes "\<forall>x \<in> set ops. op_ok x" and "length ops < 2 ^ 31"
  shows "let rep = WriteBatch_SetSequence (fold apply_op ops WriteBatch_Clear) seq
         in WriteBatch_Sequence rep = seq \<and> WriteBatch_Count rep = int (length ops) \<and>
            WriteBatch_Iterate put del rep h = (None, fold (handle_op put del) ops h)"
  using assms apply_ops_batch_rep [of "[]" ops 0]
  by (simp add: Let_def Clear_batch_rep SetSequence_batch_rep Sequence_batch_rep Count_batch_rep Iterate_batch_rep)

theorem write_batch_roundtrip_witness:
  "let rep = WriteBatch_SetSequence (fold apply_op [BPut [1] [2, 3], BDelete [1]] WriteBatch_Clear) 77
   in WriteBatch_Iterate (\<lambda>k v h. h @ [(k, v)]) (\<lambda>k h. h @ [(k, [])]) rep [] = (None, [([1], [2, 3]), ([1], [])])"
  using write_batch_roundtrip [of "[BPut [1] [2, 3], BDelete [1]]" 77 "\<lambda>k v h. h @ [(k, v)]" "\<lambda>k h. h @ [(k, [])]" "[]"]
  by (simp add: Let_def)

text \<open>C31: \<^verbatim>\<open>Append\<close> of two batches is the batch of the operations of both, one after the other.\<close>

theorem write_batch_append:
  assumes "length ops1 + length ops2 < 2 ^ 31"
  shows "WriteBatch_Append (fold apply_op ops1 WriteBatch_Clear) (fold apply_op ops2 WriteBatch_Clear) =
         fold apply_op (ops1 @ ops2) WriteBatch_Clear"
  using assms apply_ops_batch_rep [of "[]" ops1 0] apply_ops_batch_rep [of "[]" ops2 0]
    apply_ops_batch_rep [of ops1 ops2 0] Append_batch_rep [of ops1 ops2 0 0]
  by (simp add: Clear_batch_rep)

theorem write_batch_append_witness:
  "WriteBatch_Append (WriteBatch_Put WriteBatch_Clear [1] [2]) (WriteBatch_Delete WriteBatch_Clear [3]) =
   WriteBatch_Delete (WriteBatch_Put WriteBatch_Clear [1] [2]) [3]"
  using write_batch_append [of "[BPut [1] [2]]" "[BDelete [3]]"] by simp

text \<open>C3: inserting a batch into an empty memtable returns OK, and a read of a key at the sequence
  number after the batch gives what the last operation of the batch on that key says: its value, a
  deletion, or nothing when the batch does not mention the key.\<close>

theorem write_batch_then_get:
  assumes "user_comparator ucmp key_ok sep succ"
    and "\<forall>x \<in> set ops. op_ok x \<and> key_ok (op_key x) \<and> length (op_key x) + 8 < 2 ^ 32"
    and "length ops < 2 ^ 31" and "unat seq + length ops \<le> unat kMaxSequenceNumber"
    and "key_ok u" and "length u + 8 < 2 ^ 32"
  shows "\<exists>m. InsertInto new_char ucmp (WriteBatch_SetSequence (fold apply_op ops WriteBatch_Clear) seq)
               (make_MemTable new_char) = (None, Some m) \<and>
     MemTable_Get ucmp m (make_LookupKey u (seq + word_of_nat (length ops))) val st =
       Some (case find (\<lambda>x. ucmp (op_key x) u = 0) (rev ops) of
               None \<Rightarrow> (False, val, st) | Some x \<Rightarrow> op_result x val st)"
proof -
  let ?s = "seq + word_of_nat (length ops)" and ?E = "set (op_entries seq ops)"
  have rep: "WriteBatch_SetSequence (fold apply_op ops WriteBatch_Clear) seq = batch_rep seq ops"
    using assms(3) apply_ops_batch_rep [of "[]" ops 0] by (simp add: Clear_batch_rep SetSequence_batch_rep)
  have un: "unat (seq + word_of_nat j) = unat seq + j" if "j \<le> length ops" for j
    using that assms(4) by (intro unat_seq_plus) simp
  note ok = op_entries_ok [OF assms(2,4)]
  have "distinct (map me_seq (op_entries seq ops))"
    unfolding distinct_conv_nth by (auto simp: nth_op_entries word_unat_eq_iff un)
  then obtain m es where m: "add_all new_char ucmp (op_entries seq ops) (make_MemTable new_char) = Some m"
    "mem_repr ucmp key_ok m es" and es: "set es = ?E"
    using user_comparator.add_all_repr [OF assms(1) make_MemTable_repr ok, of new_char new_char] by auto
  have s: "?s \<le> kMaxSequenceNumber" using assms(4) by (simp add: word_le_nat_alt un)
  note get = user_comparator.MemTable_Get_correct [OF assms(1) m(2) assms(5,6) s, of val st, unfolded es]
  have "MemTable_Get ucmp m (make_LookupKey u ?s) val st =
      Some (case find (\<lambda>x. ucmp (op_key x) u = 0) (rev ops) of
               None \<Rightarrow> (False, val, st) | Some x \<Rightarrow> op_result x val st)"
  proof (cases "\<exists>e \<in> ?E. visible ucmp u ?s e")
    case True
    with get obtain e where e: "newest ucmp u ?s ?E e" "MemTable_Get ucmp m (make_LookupKey u ?s) val st =
      Some (case me_type e of kTypeValue \<Rightarrow> (True, me_value e, st) | kTypeDeletion \<Rightarrow> (True, val, NotFound [] []))"
      by auto
    with newest_op_entries [OF assms(4) e(1)] show ?thesis by (auto simp: op_entry_result)
  next
    case False
    have "ucmp (op_key x) u \<noteq> 0" if "x \<in> set ops" for x
      using False that by (fastforce simp: set_op_entries visible_def in_set_conv_nth word_le_nat_alt un)
    then have "find (\<lambda>x. ucmp (op_key x) u = 0) (rev ops) = None" by (simp add: find_None_iff)
    with False get show ?thesis by simp
  qed
  then show ?thesis using m(1) assms(2,3) by (simp add: rep InsertInto_batch_rep)
qed

theorem write_batch_then_get_witness:
  "\<exists>m. InsertInto bump_new Bytewise_Compare
         (WriteBatch_SetSequence (fold apply_op [BPut [7] [1], BDelete [8], BPut [7] [2]] WriteBatch_Clear) 10)
         (make_MemTable bump_new) = (None, Some m) \<and>
     MemTable_Get Bytewise_Compare m (make_LookupKey [7] 13) [] None = Some (True, [2], None)"
proof -
  have "Bytewise_Compare [7] [7] = 0" by (rule bytewise.cmp_refl) simp
  then show ?thesis
    using write_batch_then_get [OF icmp.user_comparator_axioms,
      where ops = "[BPut [7] [1], BDelete [8], BPut [7] [2]]" and seq = 10 and u = "[7]" and new_char = bump_new
        and val = "[]" and st = None]
    by (simp add: kMaxSequenceNumber_def)
qed

end
