(* ===== verification/Version_Edit.thy ===== *)
theory Version_Edit
  imports Write_Batch "HOL-Library.Product_Lexorder" "HOL-Library.Monad_Syntax"
begin

text \<open>
  \<^verbatim>\<open>db/version_edit.h\<close> and \<^verbatim>\<open>db/version_edit.cpp\<close>: file metadata, the record of a change between two
  versions, and its serialised form.  An internal key is its bytes.  The ordered set of deleted files is
  the sorted list of its elements, in the order the set iterates over them.
\<close>

record FileMetaData =
  fm_refs :: int
  fm_allowed_seeks :: int
  fm_number :: u64
  fm_file_size :: u64
  fm_smallest :: slice
  fm_largest :: slice

definition make_FileMetaData :: "u64 \<Rightarrow> u64 \<Rightarrow> slice \<Rightarrow> slice \<Rightarrow> FileMetaData" where
  "make_FileMetaData number file_size smallest largest =
     \<lparr>fm_refs = 0, fm_allowed_seeks = 2 ^ 30, fm_number = number, fm_file_size = file_size,
      fm_smallest = smallest, fm_largest = largest\<rparr>"

record VersionEdit =
  ve_comparator :: slice
  ve_log_number :: u64
  ve_prev_log_number :: u64
  ve_next_file_number :: u64
  ve_last_sequence :: u64
  ve_has_comparator :: bool
  ve_has_log_number :: bool
  ve_has_prev_log_number :: bool
  ve_has_next_file_number :: bool
  ve_has_last_sequence :: bool
  ve_compact_pointers :: "(nat \<times> slice) list"
  ve_deleted_files :: "(nat \<times> u64) list"
  ve_new_files :: "(nat \<times> FileMetaData) list"

text \<open>\<^verbatim>\<open>Clear\<close> leaves the compaction pointers as they are.\<close>

definition VersionEdit_Clear :: "VersionEdit \<Rightarrow> VersionEdit" where
  "VersionEdit_Clear e =
     e\<lparr>ve_comparator := [], ve_log_number := 0, ve_prev_log_number := 0, ve_last_sequence := 0,
       ve_next_file_number := 0, ve_has_comparator := False, ve_has_log_number := False,
       ve_has_prev_log_number := False, ve_has_next_file_number := False, ve_has_last_sequence := False,
       ve_deleted_files := [], ve_new_files := []\<rparr>"

definition make_VersionEdit :: VersionEdit where
  "make_VersionEdit =
     \<lparr>ve_comparator = [], ve_log_number = 0, ve_prev_log_number = 0, ve_next_file_number = 0, ve_last_sequence = 0,
      ve_has_comparator = False, ve_has_log_number = False, ve_has_prev_log_number = False,
      ve_has_next_file_number = False, ve_has_last_sequence = False, ve_compact_pointers = [],
      ve_deleted_files = [], ve_new_files = []\<rparr>"

definition SetComparatorName :: "slice \<Rightarrow> VersionEdit \<Rightarrow> VersionEdit" where
  "SetComparatorName name e = e\<lparr>ve_has_comparator := True, ve_comparator := name\<rparr>"

definition SetLogNumber :: "u64 \<Rightarrow> VersionEdit \<Rightarrow> VersionEdit" where
  "SetLogNumber num e = e\<lparr>ve_has_log_number := True, ve_log_number := num\<rparr>"

definition SetPrevLogNumber :: "u64 \<Rightarrow> VersionEdit \<Rightarrow> VersionEdit" where
  "SetPrevLogNumber num e = e\<lparr>ve_has_prev_log_number := True, ve_prev_log_number := num\<rparr>"

definition SetNextFile :: "u64 \<Rightarrow> VersionEdit \<Rightarrow> VersionEdit" where
  "SetNextFile num e = e\<lparr>ve_has_next_file_number := True, ve_next_file_number := num\<rparr>"

definition SetLastSequence :: "u64 \<Rightarrow> VersionEdit \<Rightarrow> VersionEdit" where
  "SetLastSequence seq e = e\<lparr>ve_has_last_sequence := True, ve_last_sequence := seq\<rparr>"

definition SetCompactPointer :: "nat \<Rightarrow> slice \<Rightarrow> VersionEdit \<Rightarrow> VersionEdit" where
  "SetCompactPointer level key e = e\<lparr>ve_compact_pointers := ve_compact_pointers e @ [(level, key)]\<rparr>"

definition AddFile :: "nat \<Rightarrow> u64 \<Rightarrow> u64 \<Rightarrow> slice \<Rightarrow> slice \<Rightarrow> VersionEdit \<Rightarrow> VersionEdit" where
  "AddFile level file file_size smallest largest e =
     e\<lparr>ve_new_files := ve_new_files e @ [(level, make_FileMetaData file file_size smallest largest)]\<rparr>"

definition set_insert :: "'a::linorder \<Rightarrow> 'a list \<Rightarrow> 'a list" where
  "set_insert x xs = (if x \<in> set xs then xs else insort x xs)"

definition DeleteFile :: "nat \<Rightarrow> u64 \<Rightarrow> VersionEdit \<Rightarrow> VersionEdit" where
  "DeleteFile level file e = e\<lparr>ve_deleted_files := set_insert (level, file) (ve_deleted_files e)\<rparr>"

datatype Tag = kComparator | kLogNumber | kNextFileNumber | kLastSequence | kCompactPointer | kDeletedFile
  | kNewFile | kPrevLogNumber

fun tag_number :: "Tag \<Rightarrow> u32" where
  "tag_number kComparator = 1"
| "tag_number kLogNumber = 2"
| "tag_number kNextFileNumber = 3"
| "tag_number kLastSequence = 4"
| "tag_number kCompactPointer = 5"
| "tag_number kDeletedFile = 6"
| "tag_number kNewFile = 7"
| "tag_number kPrevLogNumber = 9"

definition VersionEdit_EncodeTo :: "VersionEdit \<Rightarrow> slice \<Rightarrow> slice" where
  "VersionEdit_EncodeTo e dst =
     (let dst = (if ve_has_comparator e
                 then PutLengthPrefixedSlice (PutVarint32 dst (tag_number kComparator)) (ve_comparator e) else dst);
          dst = (if ve_has_log_number e
                 then PutVarint64 (PutVarint32 dst (tag_number kLogNumber)) (ve_log_number e) else dst);
          dst = (if ve_has_prev_log_number e
                 then PutVarint64 (PutVarint32 dst (tag_number kPrevLogNumber)) (ve_prev_log_number e) else dst);
          dst = (if ve_has_next_file_number e
                 then PutVarint64 (PutVarint32 dst (tag_number kNextFileNumber)) (ve_next_file_number e) else dst);
          dst = (if ve_has_last_sequence e
                 then PutVarint64 (PutVarint32 dst (tag_number kLastSequence)) (ve_last_sequence e) else dst);
          dst = fold (\<lambda>(level, key) dst.
                  PutLengthPrefixedSlice (PutVarint32 (PutVarint32 dst (tag_number kCompactPointer)) (word_of_nat level)) key)
                  (ve_compact_pointers e) dst;
          dst = fold (\<lambda>(level, number) dst.
                  PutVarint64 (PutVarint32 (PutVarint32 dst (tag_number kDeletedFile)) (word_of_nat level)) number)
                  (ve_deleted_files e) dst
      in fold (\<lambda>(level, f) dst.
           let dst = PutVarint32 (PutVarint32 dst (tag_number kNewFile)) (word_of_nat level);
               dst = PutVarint64 (PutVarint64 dst (fm_number f)) (fm_file_size f)
           in PutLengthPrefixedSlice (PutLengthPrefixedSlice dst (fm_smallest f)) (fm_largest f))
           (ve_new_files e) dst)"

definition GetInternalKey :: "slice \<Rightarrow> (slice \<times> slice) option" where
  "GetInternalKey input = GetLengthPrefixedSlice input"

definition GetLevel :: "slice \<Rightarrow> (nat \<times> slice) option" where
  "GetLevel input =
     (case GetVarint32 input of
        None \<Rightarrow> None
      | Some (v, input) \<Rightarrow> if unat v < kNumLevels then Some (unat v, input) else None)"

text \<open>One turn of the loop of \<^verbatim>\<open>DecodeFrom\<close> after the tag: the message, or the rest of the input and the
  edit.\<close>

definition or_msg :: "string \<Rightarrow> (slice \<times> VersionEdit) option \<Rightarrow> slice + slice \<times> VersionEdit" where
  "or_msg msg r = (case r of None \<Rightarrow> Inl (str msg) | Some x \<Rightarrow> Inr x)"

definition decode_field :: "u32 \<Rightarrow> slice \<Rightarrow> VersionEdit \<Rightarrow> slice + slice \<times> VersionEdit" where
  "decode_field tag input e =
     (if tag = tag_number kComparator then or_msg ''comparator name'' (do {
        (str, input) \<leftarrow> GetLengthPrefixedSlice input;
        Some (input, e\<lparr>ve_comparator := str, ve_has_comparator := True\<rparr>) })
      else if tag = tag_number kLogNumber then or_msg ''log number'' (do {
        (n, input) \<leftarrow> GetVarint64 input;
        Some (input, e\<lparr>ve_log_number := n, ve_has_log_number := True\<rparr>) })
      else if tag = tag_number kPrevLogNumber then or_msg ''previous log number'' (do {
        (n, input) \<leftarrow> GetVarint64 input;
        Some (input, e\<lparr>ve_prev_log_number := n, ve_has_prev_log_number := True\<rparr>) })
      else if tag = tag_number kNextFileNumber then or_msg ''next file number'' (do {
        (n, input) \<leftarrow> GetVarint64 input;
        Some (input, e\<lparr>ve_next_file_number := n, ve_has_next_file_number := True\<rparr>) })
      else if tag = tag_number kLastSequence then or_msg ''last sequence number'' (do {
        (n, input) \<leftarrow> GetVarint64 input;
        Some (input, e\<lparr>ve_last_sequence := n, ve_has_last_sequence := True\<rparr>) })
      else if tag = tag_number kCompactPointer then or_msg ''compaction pointer'' (do {
        (level, input) \<leftarrow> GetLevel input;
        (key, input) \<leftarrow> GetInternalKey input;
        Some (input, e\<lparr>ve_compact_pointers := ve_compact_pointers e @ [(level, key)]\<rparr>) })
      else if tag = tag_number kDeletedFile then or_msg ''deleted file'' (do {
        (level, input) \<leftarrow> GetLevel input;
        (number, input) \<leftarrow> GetVarint64 input;
        Some (input, e\<lparr>ve_deleted_files := set_insert (level, number) (ve_deleted_files e)\<rparr>) })
      else if tag = tag_number kNewFile then or_msg ''new-file entry'' (do {
        (level, input) \<leftarrow> GetLevel input;
        (number, input) \<leftarrow> GetVarint64 input;
        (file_size, input) \<leftarrow> GetVarint64 input;
        (smallest, input) \<leftarrow> GetInternalKey input;
        (largest, input) \<leftarrow> GetInternalKey input;
        Some (input, e\<lparr>ve_new_files := ve_new_files e @
          [(level, make_FileMetaData number file_size smallest largest)]\<rparr>) })
      else Inl (str ''unknown tag''))"

lemma length_GetLevel: "GetLevel p = Some (v, q) \<Longrightarrow> length q < length p"
  by (auto simp: GetLevel_def dest: length_GetVarint32 split: option.splits if_splits)

lemma or_msg_Inr: "or_msg m r = Inr x \<longleftrightarrow> r = Some x"
  by (simp add: or_msg_def split: option.splits)

lemma decode_field_shorter: "decode_field tag input e = Inr (input', e') \<Longrightarrow> length input' < length input"
  unfolding decode_field_def
  by (auto simp: or_msg_Inr bind_eq_Some_conv GetInternalKey_def dest!: decoders_consume length_GetLevel split: if_splits)

function decode_loop :: "slice \<Rightarrow> VersionEdit \<Rightarrow> slice option \<times> VersionEdit" where
  "decode_loop input e =
     (case GetVarint32 input of
        None \<Rightarrow> (if input = [] then None else Some (str ''invalid tag''), e)
      | Some (tag, input1) \<Rightarrow>
          (case decode_field tag input1 e of
             Inl msg \<Rightarrow> (Some msg, e)
           | Inr (input2, e2) \<Rightarrow> decode_loop input2 e2))"
  by pat_completeness auto
termination
  by (relation "measure (\<lambda>(input, _). length input)")
    (auto dest!: length_GetVarint32 decode_field_shorter)

declare decode_loop.simps [simp del]

definition VersionEdit_DecodeFrom :: "slice \<Rightarrow> VersionEdit \<Rightarrow> status \<times> VersionEdit" where
  "VersionEdit_DecodeFrom src e =
     (let (msg, e') = decode_loop src (VersionEdit_Clear e)
      in (case msg of None \<Rightarrow> None | Some m \<Rightarrow> Corruption (str ''VersionEdit'') m, e'))"

subsection \<open>Round trip\<close>

text \<open>The bytes of each kind of field.\<close>

definition enc_slice :: "slice \<Rightarrow> slice" where
  "enc_slice s = EncodeVarint32 (word_of_nat (length s)) @ s"

fun enc_pointer :: "nat \<times> slice \<Rightarrow> slice" where
  "enc_pointer (level, key) = EncodeVarint32 5 @ EncodeVarint32 (word_of_nat level) @ enc_slice key"

fun enc_deleted :: "nat \<times> u64 \<Rightarrow> slice" where
  "enc_deleted (level, number) = EncodeVarint32 6 @ EncodeVarint32 (word_of_nat level) @ EncodeVarint64 number"

fun enc_new :: "nat \<times> FileMetaData \<Rightarrow> slice" where
  "enc_new (level, f) = EncodeVarint32 7 @ EncodeVarint32 (word_of_nat level) @ EncodeVarint64 (fm_number f) @
     EncodeVarint64 (fm_file_size f) @ enc_slice (fm_smallest f) @ enc_slice (fm_largest f)"

lemma fold_app: "fold (\<lambda>x dst. dst @ g x) xs dst = dst @ concat (map g xs)"
  by (induction xs arbitrary: dst) simp_all

lemma EncodeTo_bytes:
  "VersionEdit_EncodeTo e dst = dst @
     (if ve_has_comparator e then EncodeVarint32 1 @ enc_slice (ve_comparator e) else []) @
     (if ve_has_log_number e then EncodeVarint32 2 @ EncodeVarint64 (ve_log_number e) else []) @
     (if ve_has_prev_log_number e then EncodeVarint32 9 @ EncodeVarint64 (ve_prev_log_number e) else []) @
     (if ve_has_next_file_number e then EncodeVarint32 3 @ EncodeVarint64 (ve_next_file_number e) else []) @
     (if ve_has_last_sequence e then EncodeVarint32 4 @ EncodeVarint64 (ve_last_sequence e) else []) @
     concat (map enc_pointer (ve_compact_pointers e)) @ concat (map enc_deleted (ve_deleted_files e)) @
     concat (map enc_new (ve_new_files e))"
proof -
  have p: "(\<lambda>(level, key) dst. PutLengthPrefixedSlice (PutVarint32 (PutVarint32 dst (tag_number kCompactPointer))
      (word_of_nat level)) key) = (\<lambda>x dst. dst @ enc_pointer x)"
    by (auto simp: fun_eq_iff PutLengthPrefixedSlice_def PutVarint32_def enc_slice_def)
  have d: "(\<lambda>(level, number) dst. PutVarint64 (PutVarint32 (PutVarint32 dst (tag_number kDeletedFile))
      (word_of_nat level)) number) = (\<lambda>x dst. dst @ enc_deleted x)"
    by (auto simp: fun_eq_iff PutVarint64_def PutVarint32_def)
  have n: "(\<lambda>(level, f) dst. let dst = PutVarint32 (PutVarint32 dst (tag_number kNewFile)) (word_of_nat level);
      dst = PutVarint64 (PutVarint64 dst (fm_number f)) (fm_file_size f)
      in PutLengthPrefixedSlice (PutLengthPrefixedSlice dst (fm_smallest f)) (fm_largest f)) = (\<lambda>x dst. dst @ enc_new x)"
    by (auto simp: fun_eq_iff PutLengthPrefixedSlice_def PutVarint64_def PutVarint32_def enc_slice_def)
  show ?thesis
    unfolding VersionEdit_EncodeTo_def p d n
    by (simp add: fold_app PutLengthPrefixedSlice_def PutVarint64_def PutVarint32_def enc_slice_def Let_def)
qed

text \<open>Decoding one field.\<close>

lemma GetSlice_enc: "length s < 2 ^ 32 \<Longrightarrow> GetLengthPrefixedSlice (enc_slice s @ rest) = Some (s, rest)"
  by (simp add: enc_slice_def codec_simps)

lemma GetLevel_enc: "level < kNumLevels \<Longrightarrow> GetLevel (EncodeVarint32 (word_of_nat level) @ rest) = Some (level, rest)"
  by (simp add: GetLevel_def codec_simps kNumLevels_def unat_word_of_nat_small)

lemmas get_simps = GetSlice_enc GetLevel_enc GetVarint64_Put GetVarint32_Put GetInternalKey_def

lemma decode_one:
  assumes "decode_field tag (p @ rest) e = Inr (rest, e')"
  shows "decode_loop (EncodeVarint32 tag @ p @ rest) e = decode_loop rest e'"
  using assms by (subst decode_loop.simps) (simp add: codec_simps)

lemma decode_scalars:
  "length s < 2 ^ 32 \<Longrightarrow> decode_loop (EncodeVarint32 1 @ enc_slice s @ rest) e =
     decode_loop rest (e\<lparr>ve_comparator := s, ve_has_comparator := True\<rparr>)"
  "decode_loop (EncodeVarint32 2 @ EncodeVarint64 n @ rest) e =
     decode_loop rest (e\<lparr>ve_log_number := n, ve_has_log_number := True\<rparr>)"
  "decode_loop (EncodeVarint32 9 @ EncodeVarint64 n @ rest) e =
     decode_loop rest (e\<lparr>ve_prev_log_number := n, ve_has_prev_log_number := True\<rparr>)"
  "decode_loop (EncodeVarint32 3 @ EncodeVarint64 n @ rest) e =
     decode_loop rest (e\<lparr>ve_next_file_number := n, ve_has_next_file_number := True\<rparr>)"
  "decode_loop (EncodeVarint32 4 @ EncodeVarint64 n @ rest) e =
     decode_loop rest (e\<lparr>ve_last_sequence := n, ve_has_last_sequence := True\<rparr>)"
  by (rule decode_one, simp add: decode_field_def or_msg_def get_simps)+

lemma decode_pointers:
  "\<forall>(level, key)\<in>set cps. level < kNumLevels \<and> length key < 2 ^ 32 \<Longrightarrow>
   decode_loop (concat (map enc_pointer cps) @ rest) e =
     decode_loop rest (e\<lparr>ve_compact_pointers := ve_compact_pointers e @ cps\<rparr>)"
proof (induction cps arbitrary: e)
  case (Cons x cps)
  obtain level key where x: "x = (level, key)" by (cases x)
  have "decode_loop (EncodeVarint32 5 @ (EncodeVarint32 (word_of_nat level) @ enc_slice key) @
      concat (map enc_pointer cps) @ rest) e = decode_loop (concat (map enc_pointer cps) @ rest)
      (e\<lparr>ve_compact_pointers := ve_compact_pointers e @ [(level, key)]\<rparr>)"
    using Cons.prems x by (intro decode_one) (simp add: decode_field_def or_msg_def get_simps)
  then show ?case using Cons x by simp
qed simp

lemma insort_last: "\<forall>y\<in>set xs. y < x \<Longrightarrow> insort x xs = xs @ [x :: 'a::linorder]"
  by (induction xs) auto

lemma set_insert_last: "sorted_wrt (<) (xs @ [x]) \<Longrightarrow> set_insert x xs = xs @ [x]"
  unfolding set_insert_def by (auto simp: sorted_wrt_append insort_last)

lemma sorted_set_insert: "sorted_wrt (<) xs \<Longrightarrow> sorted_wrt (<) (set_insert (x :: 'a::linorder) xs)"
  unfolding set_insert_def strict_sorted_iff by (simp add: sorted_insort distinct_insort)

lemma set_set_insert [simp]: "set (set_insert x xs) = insert x (set xs)"
  unfolding set_insert_def by (auto simp: set_insort_key)

lemma decode_deleted:
  "\<forall>(level, n)\<in>set ds. level < kNumLevels \<Longrightarrow> sorted_wrt (<) (ve_deleted_files e @ ds) \<Longrightarrow>
   decode_loop (concat (map enc_deleted ds) @ rest) e =
     decode_loop rest (e\<lparr>ve_deleted_files := ve_deleted_files e @ ds\<rparr>)"
proof (induction ds arbitrary: e)
  case (Cons x ds)
  obtain level n where x: "x = (level, n)" by (cases x)
  have s: "set_insert x (ve_deleted_files e) = ve_deleted_files e @ [x]"
    using Cons.prems(2) by (intro set_insert_last) (simp add: sorted_wrt_append)
  have "decode_loop (EncodeVarint32 6 @ (EncodeVarint32 (word_of_nat level) @ EncodeVarint64 n) @
      concat (map enc_deleted ds) @ rest) e = decode_loop (concat (map enc_deleted ds) @ rest)
      (e\<lparr>ve_deleted_files := ve_deleted_files e @ [x]\<rparr>)"
    using Cons.prems(1) x s by (intro decode_one) (simp add: decode_field_def or_msg_def get_simps)
  then show ?case using Cons x by simp
qed simp

lemma decode_new:
  "\<forall>(level, f)\<in>set fs. level < kNumLevels \<and> length (fm_smallest f) < 2 ^ 32 \<and> length (fm_largest f) < 2 ^ 32 \<and>
     f = make_FileMetaData (fm_number f) (fm_file_size f) (fm_smallest f) (fm_largest f) \<Longrightarrow>
   decode_loop (concat (map enc_new fs) @ rest) e = decode_loop rest (e\<lparr>ve_new_files := ve_new_files e @ fs\<rparr>)"
proof (induction fs arbitrary: e)
  case (Cons x fs)
  obtain level f where x: "x = (level, f)" by (cases x)
  have f: "make_FileMetaData (fm_number f) (fm_file_size f) (fm_smallest f) (fm_largest f) = f"
    using Cons.prems x by simp
  have "decode_loop (EncodeVarint32 7 @ (EncodeVarint32 (word_of_nat level) @ EncodeVarint64 (fm_number f) @
      EncodeVarint64 (fm_file_size f) @ enc_slice (fm_smallest f) @ enc_slice (fm_largest f)) @
      concat (map enc_new fs) @ rest) e = decode_loop (concat (map enc_new fs) @ rest)
      (e\<lparr>ve_new_files := ve_new_files e @ [x]\<rparr>)"
    using Cons.prems x f by (intro decode_one) (simp add: decode_field_def or_msg_def get_simps)
  then show ?case using Cons x by simp
qed simp

text \<open>The well-formed edits: levels and lengths are in range, fields that are not set have their initial
  value, the set of deleted files is sorted, new files have the initial counters.\<close>

definition edit_ok :: "VersionEdit \<Rightarrow> bool" where
  "edit_ok e \<longleftrightarrow>
     (\<forall>(level, key)\<in>set (ve_compact_pointers e). level < kNumLevels \<and> length key < 2 ^ 32) \<and>
     (\<forall>(level, n)\<in>set (ve_deleted_files e). level < kNumLevels) \<and>
     sorted_wrt (<) (ve_deleted_files e) \<and>
     (\<forall>(level, f)\<in>set (ve_new_files e). level < kNumLevels \<and> length (fm_smallest f) < 2 ^ 32 \<and>
        length (fm_largest f) < 2 ^ 32 \<and>
        f = make_FileMetaData (fm_number f) (fm_file_size f) (fm_smallest f) (fm_largest f)) \<and>
     length (ve_comparator e) < 2 ^ 32 \<and>
     (\<not> ve_has_comparator e \<longrightarrow> ve_comparator e = []) \<and>
     (\<not> ve_has_log_number e \<longrightarrow> ve_log_number e = 0) \<and>
     (\<not> ve_has_prev_log_number e \<longrightarrow> ve_prev_log_number e = 0) \<and>
     (\<not> ve_has_next_file_number e \<longrightarrow> ve_next_file_number e = 0) \<and>
     (\<not> ve_has_last_sequence e \<longrightarrow> ve_last_sequence e = 0)"

lemma edit_ok_make: "edit_ok make_VersionEdit"
  by (simp add: edit_ok_def make_VersionEdit_def)

lemma edit_ok_setters:
  assumes "edit_ok e"
  shows "length name < 2 ^ 32 \<Longrightarrow> edit_ok (SetComparatorName name e)"
    and "edit_ok (SetLogNumber n e)" "edit_ok (SetPrevLogNumber n e)" "edit_ok (SetNextFile n e)"
    and "edit_ok (SetLastSequence n e)"
    and "level < kNumLevels \<Longrightarrow> length key < 2 ^ 32 \<Longrightarrow> edit_ok (SetCompactPointer level key e)"
    and "level < kNumLevels \<Longrightarrow> length sm < 2 ^ 32 \<Longrightarrow> length la < 2 ^ 32 \<Longrightarrow> edit_ok (AddFile level n sz sm la e)"
    and "level < kNumLevels \<Longrightarrow> edit_ok (DeleteFile level n e)"
  using assms
  by (auto simp: edit_ok_def SetComparatorName_def SetLogNumber_def SetPrevLogNumber_def SetNextFile_def
      SetLastSequence_def SetCompactPointer_def AddFile_def DeleteFile_def make_FileMetaData_def sorted_set_insert)

lemma decode_optional:
  "length s < 2 ^ 32 \<Longrightarrow> decode_loop ((if b then EncodeVarint32 1 @ enc_slice s else []) @ rest) e =
     decode_loop rest (if b then e\<lparr>ve_comparator := s, ve_has_comparator := True\<rparr> else e)"
  "decode_loop ((if b then EncodeVarint32 2 @ EncodeVarint64 n else []) @ rest) e =
     decode_loop rest (if b then e\<lparr>ve_log_number := n, ve_has_log_number := True\<rparr> else e)"
  "decode_loop ((if b then EncodeVarint32 9 @ EncodeVarint64 n else []) @ rest) e =
     decode_loop rest (if b then e\<lparr>ve_prev_log_number := n, ve_has_prev_log_number := True\<rparr> else e)"
  "decode_loop ((if b then EncodeVarint32 3 @ EncodeVarint64 n else []) @ rest) e =
     decode_loop rest (if b then e\<lparr>ve_next_file_number := n, ve_has_next_file_number := True\<rparr> else e)"
  "decode_loop ((if b then EncodeVarint32 4 @ EncodeVarint64 n else []) @ rest) e =
     decode_loop rest (if b then e\<lparr>ve_last_sequence := n, ve_has_last_sequence := True\<rparr> else e)"
  by (simp_all add: decode_scalars)

lemma decode_encoded:
  assumes "edit_ok e"
  shows "decode_loop (VersionEdit_EncodeTo e []) (VersionEdit_Clear e0) =
    (None, e\<lparr>ve_compact_pointers := ve_compact_pointers e0 @ ve_compact_pointers e\<rparr>)"
proof -
  note ok = assms [unfolded edit_ok_def]
  have nil: "decode_loop [] x = (None, x)" for x
    by (subst decode_loop.simps) (simp add: GetVarint32_def GetVarint32Ptr_def GetVarint32PtrFallback_def)
  have new: "decode_loop (concat (map enc_new (ve_new_files e))) x =
      (None, x\<lparr>ve_new_files := ve_new_files x @ ve_new_files e\<rparr>)" for x
    using decode_new [of "ve_new_files e" "[]" x] ok nil by simp
  let ?s = "\<lambda>x. x\<lparr>ve_comparator := ve_comparator e, ve_has_comparator := ve_has_comparator e,
    ve_log_number := ve_log_number e, ve_has_log_number := ve_has_log_number e,
    ve_prev_log_number := ve_prev_log_number e, ve_has_prev_log_number := ve_has_prev_log_number e,
    ve_next_file_number := ve_next_file_number e, ve_has_next_file_number := ve_has_next_file_number e,
    ve_last_sequence := ve_last_sequence e, ve_has_last_sequence := ve_has_last_sequence e\<rparr>"
  have "decode_loop (VersionEdit_EncodeTo e []) (VersionEdit_Clear e0) =
      decode_loop (concat (map enc_pointer (ve_compact_pointers e)) @ concat (map enc_deleted (ve_deleted_files e)) @
        concat (map enc_new (ve_new_files e))) (?s (VersionEdit_Clear e0))"
    unfolding EncodeTo_bytes append_Nil using ok
    by (simp only: decode_optional, intro arg_cong [where f = "decode_loop _"] VersionEdit.equality)
      (simp_all add: VersionEdit_Clear_def)
  also have "\<dots> = (None, (?s (VersionEdit_Clear e0))\<lparr>ve_compact_pointers := ve_compact_pointers e0 @ ve_compact_pointers e,
      ve_deleted_files := ve_deleted_files e, ve_new_files := ve_new_files e\<rparr>)"
    using ok by (simp add: decode_pointers decode_deleted new VersionEdit_Clear_def)
  finally show ?thesis by simp
qed

text \<open>C29: A serialised edit is read back.  For every well-formed edit, \<^verbatim>\<open>DecodeFrom\<close> of the bytes of \<^verbatim>\<open>EncodeTo\<close>
  returns OK and gives the edit, whatever the edit it decodes into held before, except that the compaction pointers
  of that edit stay in front, because \<^verbatim>\<open>Clear\<close> does not clear them.\<close>

theorem version_edit_roundtrip:
  assumes "edit_ok e"
  shows "VersionEdit_DecodeFrom (VersionEdit_EncodeTo e []) e0 =
    (None, e\<lparr>ve_compact_pointers := ve_compact_pointers e0 @ ve_compact_pointers e\<rparr>)"
  using decode_encoded [OF assms] by (simp add: VersionEdit_DecodeFrom_def)

theorem version_edit_roundtrip_witness:
  "VersionEdit_DecodeFrom
     (VersionEdit_EncodeTo (DeleteFile 1 4 (AddFile 2 9 100 [1] [2] (SetLogNumber 7 make_VersionEdit))) []) make_VersionEdit =
   (None, DeleteFile 1 4 (AddFile 2 9 100 [1] [2] (SetLogNumber 7 make_VersionEdit)))"
proof -
  have "edit_ok (DeleteFile 1 4 (AddFile 2 9 100 [1] [2] (SetLogNumber 7 make_VersionEdit)))"
    by (intro edit_ok_setters edit_ok_make) (simp_all add: kNumLevels_def)
  from version_edit_roundtrip [OF this, of make_VersionEdit] show ?thesis
    by (simp add: DeleteFile_def AddFile_def SetLogNumber_def make_VersionEdit_def)
qed

text \<open>A truncated or damaged edit is refused: the error paths.\<close>

lemma decode_unknown_tag:
  assumes "\<forall>t. tag \<noteq> tag_number t"
  shows "VersionEdit_DecodeFrom (EncodeVarint32 tag @ rest) e =
    (Corruption (str ''VersionEdit'') (str ''unknown tag''), VersionEdit_Clear e)"
proof -
  have "decode_field tag rest (VersionEdit_Clear e) = Inl (str ''unknown tag'')"
    using assms unfolding decode_field_def by presburger
  then show ?thesis
    by (simp add: VersionEdit_DecodeFrom_def decode_loop.simps [of "EncodeVarint32 tag @ rest"] codec_simps)
qed

end
