(* ===== verification/Db_Version.thy ===== *)
theory Db_Version
  imports Complex_Main Version_Edit
begin

text \<open>
  \<^verbatim>\<open>Version\<close> of \<^verbatim>\<open>db/version_set.h\<close> and \<^verbatim>\<open>db/version_set.cpp\<close>: the files of each level and the searches
  over them.  A pointer to file metadata is the metadata; the counter \<^verbatim>\<open>allowed_seeks\<close>, which changes
  behind the pointer, is a store from file numbers to counters.  An index into the files of a level is a
  natural number (\<^verbatim>\<open>uint32_t\<close> in the code, for fewer than \<open>2 ^ 31\<close> files).  The compaction score is an
  exact fraction.  Reading a table through the table cache is a parameter \<open>tget\<close> of \<^verbatim>\<open>Get\<close>: for a file
  and an internal key, the status and the entry the callback is called with.
\<close>

record Version =
  v_refs :: int
  v_files :: "nat \<Rightarrow> FileMetaData list"
  v_file_to_compact :: "FileMetaData option"
  v_file_to_compact_level :: int
  v_compaction_score :: rat
  v_compaction_level :: int

definition make_Version :: Version where
  "make_Version = \<lparr>v_refs = 0, v_files = \<lambda>_. [], v_file_to_compact = None, v_file_to_compact_level = -1,
     v_compaction_score = -1, v_compaction_level = -1\<rparr>"

definition Version_Ref :: "Version \<Rightarrow> Version" where
  "Version_Ref v = v\<lparr>v_refs := v_refs v + 1\<rparr>"

text \<open>\<open>None\<close>: the version has been deleted.\<close>

definition Version_Unref :: "Version \<Rightarrow> Version option" where
  "Version_Unref v = (if v_refs v - 1 = 0 then None else Some (v\<lparr>v_refs := v_refs v - 1\<rparr>))"

abbreviation icompare :: "(slice \<Rightarrow> slice \<Rightarrow> int) \<Rightarrow> slice \<Rightarrow> slice \<Rightarrow> int" where
  "icompare ucmp \<equiv> InternalKeyComparator_Compare ucmp"

abbreviation smallest_user :: "FileMetaData \<Rightarrow> slice" where
  "smallest_user f \<equiv> ExtractUserKey (fm_smallest f)"

abbreviation largest_user :: "FileMetaData \<Rightarrow> slice" where
  "largest_user f \<equiv> ExtractUserKey (fm_largest f)"

function find_file_loop :: "(slice \<Rightarrow> slice \<Rightarrow> int) \<Rightarrow> FileMetaData list \<Rightarrow> slice \<Rightarrow> nat \<Rightarrow> nat \<Rightarrow> nat" where
  "find_file_loop ucmp files key left right =
     (if left < right then
        let mid = (left + right) div 2; f = files ! mid
        in if icompare ucmp (fm_largest f) key < 0
           then find_file_loop ucmp files key (mid + 1) right
           else find_file_loop ucmp files key left mid
      else right)"
  by pat_completeness auto
termination
  by (relation "measure (\<lambda>(_, _, _, left, right). right - left)") auto

declare find_file_loop.simps [simp del]

definition FindFile :: "(slice \<Rightarrow> slice \<Rightarrow> int) \<Rightarrow> FileMetaData list \<Rightarrow> slice \<Rightarrow> nat" where
  "FindFile ucmp files key = find_file_loop ucmp files key 0 (length files)"

definition AfterFile :: "(slice \<Rightarrow> slice \<Rightarrow> int) \<Rightarrow> slice option \<Rightarrow> FileMetaData \<Rightarrow> bool" where
  "AfterFile ucmp user_key f = (case user_key of None \<Rightarrow> False | Some u \<Rightarrow> ucmp u (largest_user f) > 0)"

definition BeforeFile :: "(slice \<Rightarrow> slice \<Rightarrow> int) \<Rightarrow> slice option \<Rightarrow> FileMetaData \<Rightarrow> bool" where
  "BeforeFile ucmp user_key f = (case user_key of None \<Rightarrow> False | Some u \<Rightarrow> ucmp u (smallest_user f) < 0)"

definition SomeFileOverlapsRange ::
  "(slice \<Rightarrow> slice \<Rightarrow> int) \<Rightarrow> bool \<Rightarrow> FileMetaData list \<Rightarrow> slice option \<Rightarrow> slice option \<Rightarrow> bool" where
  "SomeFileOverlapsRange ucmp disjoint_sorted_files files smallest_user_key largest_user_key =
     (if \<not> disjoint_sorted_files then
        list_ex (\<lambda>f. \<not> (AfterFile ucmp smallest_user_key f \<or> BeforeFile ucmp largest_user_key f)) files
      else let index = (case smallest_user_key of
                          None \<Rightarrow> 0
                        | Some u \<Rightarrow> FindFile ucmp files (InternalKey u kMaxSequenceNumber kValueTypeForSeek))
           in if index \<ge> length files then False
              else \<not> BeforeFile ucmp largest_user_key (files ! index))"

subsection \<open>LevelFileNumIterator\<close>

text \<open>The state of the iterator is its index; the length of the list marks it as invalid.\<close>

definition LevelFileNumIterator_init :: "FileMetaData list \<Rightarrow> nat" where
  "LevelFileNumIterator_init flist = length flist"

definition LevelFileNumIterator_Valid :: "FileMetaData list \<Rightarrow> nat \<Rightarrow> bool" where
  "LevelFileNumIterator_Valid flist index = (index < length flist)"

definition LevelFileNumIterator_Seek :: "(slice \<Rightarrow> slice \<Rightarrow> int) \<Rightarrow> FileMetaData list \<Rightarrow> slice \<Rightarrow> nat" where
  "LevelFileNumIterator_Seek ucmp flist target = FindFile ucmp flist target"

definition LevelFileNumIterator_SeekToFirst :: nat where
  "LevelFileNumIterator_SeekToFirst = 0"

definition LevelFileNumIterator_SeekToLast :: "FileMetaData list \<Rightarrow> nat" where
  "LevelFileNumIterator_SeekToLast flist = (if flist = [] then 0 else length flist - 1)"

definition LevelFileNumIterator_Next :: "nat \<Rightarrow> nat" where
  "LevelFileNumIterator_Next index = index + 1"

definition LevelFileNumIterator_Prev :: "FileMetaData list \<Rightarrow> nat \<Rightarrow> nat" where
  "LevelFileNumIterator_Prev flist index = (if index = 0 then length flist else index - 1)"

definition LevelFileNumIterator_key :: "FileMetaData list \<Rightarrow> nat \<Rightarrow> slice" where
  "LevelFileNumIterator_key flist index = fm_largest (flist ! index)"

definition LevelFileNumIterator_value :: "FileMetaData list \<Rightarrow> nat \<Rightarrow> slice" where
  "LevelFileNumIterator_value flist index =
     EncodeFixed64 (fm_number (flist ! index)) @ EncodeFixed64 (fm_file_size (flist ! index))"

text \<open>\<^verbatim>\<open>GetFileIterator\<close>: which file of the table cache the value of the iterator stands for.\<close>

definition GetFileIterator :: "slice \<Rightarrow> status + u64 \<times> u64" where
  "GetFileIterator file_value =
     (if length file_value \<noteq> 16 then Inl (Corruption (str ''FileReader invoked with unexpected value'') [])
      else Inr (DecodeFixed64 file_value, DecodeFixed64 (drop 8 file_value)))"

subsection \<open>Get\<close>

datatype SaverState = Saver_kNotFound | Saver_kFound | Saver_kDeleted | Saver_kCorrupt

definition SaveValue ::
  "(slice \<Rightarrow> slice \<Rightarrow> int) \<Rightarrow> slice \<Rightarrow> slice \<Rightarrow> slice \<Rightarrow> SaverState \<times> slice \<Rightarrow> SaverState \<times> slice" where
  "SaveValue ucmp user_key ikey v s =
     (case ParseInternalKey ikey of
        None \<Rightarrow> (Saver_kCorrupt, snd s)
      | Some parsed_key \<Rightarrow>
          if ucmp (pk_user_key parsed_key) user_key = 0
          then if pk_type parsed_key = kTypeValue then (Saver_kFound, v) else (Saver_kDeleted, snd s)
          else s)"

type_synonym table_get = "u64 \<Rightarrow> u64 \<Rightarrow> slice \<Rightarrow> status \<times> (slice \<times> slice) option"

record GetState =
  gs_seek_file :: "(FileMetaData \<times> nat) option"
  gs_last_file_read :: "(FileMetaData \<times> nat) option"
  gs_value :: slice

text \<open>The loop over the files to search in a level; \<open>Some s\<close> is a return with status \<open>s\<close>.\<close>

fun search_files ::
  "(slice \<Rightarrow> slice \<Rightarrow> int) \<Rightarrow> table_get \<Rightarrow> slice \<Rightarrow> slice \<Rightarrow> nat \<Rightarrow> FileMetaData list \<Rightarrow> GetState \<Rightarrow>
   status option \<times> GetState" where
  "search_files ucmp tget ikey user_key level [] st = (None, st)"
| "search_files ucmp tget ikey user_key level (f # files) st =
     (let st1 = (if gs_last_file_read st \<noteq> None \<and> gs_seek_file st = None
                 then st\<lparr>gs_seek_file := gs_last_file_read st\<rparr> else st);
          st2 = st1\<lparr>gs_last_file_read := Some (f, level)\<rparr>;
          (s, entry) = tget (fm_number f) (fm_file_size f) ikey;
          (state, val) = (case entry of
             None \<Rightarrow> (Saver_kNotFound, gs_value st2)
           | Some (k, v) \<Rightarrow> SaveValue ucmp user_key k v (Saver_kNotFound, gs_value st2));
          st3 = st2\<lparr>gs_value := val\<rparr>
      in if \<not> ok s then (Some s, st3)
         else case state of
                Saver_kNotFound \<Rightarrow> search_files ucmp tget ikey user_key level files st3
              | Saver_kFound \<Rightarrow> (Some s, st3)
              | Saver_kDeleted \<Rightarrow> (Some (NotFound [] []), st3)
              | Saver_kCorrupt \<Rightarrow> (Some (Corruption (str ''corrupted key for '') user_key), st3))"

definition NewestFirst :: "FileMetaData \<Rightarrow> FileMetaData \<Rightarrow> bool" where
  "NewestFirst a b = (fm_number a > fm_number b)"

text \<open>\<^verbatim>\<open>std::sort\<close> with \<^verbatim>\<open>NewestFirst\<close>: by decreasing file number.\<close>

definition sort_newest_first :: "FileMetaData list \<Rightarrow> FileMetaData list" where
  "sort_newest_first files = rev (sort_key fm_number files)"

definition files_to_search ::
  "(slice \<Rightarrow> slice \<Rightarrow> int) \<Rightarrow> slice \<Rightarrow> slice \<Rightarrow> nat \<Rightarrow> FileMetaData list \<Rightarrow> FileMetaData list" where
  "files_to_search ucmp ikey user_key level files =
     (if level = 0 then
        sort_newest_first (filter (\<lambda>f. ucmp user_key (smallest_user f) \<ge> 0 \<and> ucmp user_key (largest_user f) \<le> 0) files)
      else let index = FindFile ucmp files ikey
           in if index \<ge> length files then []
              else if ucmp user_key (smallest_user (files ! index)) < 0 then [] else [files ! index])"

fun get_levels ::
  "(slice \<Rightarrow> slice \<Rightarrow> int) \<Rightarrow> table_get \<Rightarrow> slice \<Rightarrow> slice \<Rightarrow> Version \<Rightarrow> nat list \<Rightarrow> GetState \<Rightarrow> status \<times> GetState" where
  "get_levels ucmp tget ikey user_key v [] st = (NotFound [] [], st)"
| "get_levels ucmp tget ikey user_key v (level # levels) st =
     (if v_files v level = [] then get_levels ucmp tget ikey user_key v levels st
      else case search_files ucmp tget ikey user_key level
                  (files_to_search ucmp ikey user_key level (v_files v level)) st of
             (Some s, st') \<Rightarrow> (s, st')
           | (None, st') \<Rightarrow> get_levels ucmp tget ikey user_key v levels st')"

definition Version_Get ::
  "(slice \<Rightarrow> slice \<Rightarrow> int) \<Rightarrow> table_get \<Rightarrow> Version \<Rightarrow> LookupKey \<Rightarrow> slice \<Rightarrow>
   status \<times> slice \<times> (FileMetaData \<times> nat) option" where
  "Version_Get ucmp tget v k val =
     (let (s, st) = get_levels ucmp tget (internal_key k) (lookup_user_key k) v [0..<kNumLevels]
                      \<lparr>gs_seek_file = None, gs_last_file_read = None, gs_value = val\<rparr>
      in (s, gs_value st, gs_seek_file st))"

text \<open>\<^verbatim>\<open>UpdateStats\<close> with the store of the seek counters.\<close>

definition UpdateStats ::
  "(FileMetaData \<times> nat) option \<Rightarrow> (u64 \<Rightarrow> int) \<Rightarrow> Version \<Rightarrow> bool \<times> (u64 \<Rightarrow> int) \<times> Version" where
  "UpdateStats seek_file allowed_seeks v =
     (case seek_file of
        None \<Rightarrow> (False, allowed_seeks, v)
      | Some (f, level) \<Rightarrow>
          let allowed = allowed_seeks(fm_number f := allowed_seeks (fm_number f) - 1)
          in if allowed (fm_number f) \<le> 0 \<and> v_file_to_compact v = None
             then (True, allowed, v\<lparr>v_file_to_compact := Some f, v_file_to_compact_level := int level\<rparr>)
             else (False, allowed, v))"

subsection \<open>Overlaps\<close>

definition OverlapInLevel :: "(slice \<Rightarrow> slice \<Rightarrow> int) \<Rightarrow> Version \<Rightarrow> nat \<Rightarrow> slice option \<Rightarrow> slice option \<Rightarrow> bool" where
  "OverlapInLevel ucmp v level smallest_user_key largest_user_key =
     SomeFileOverlapsRange ucmp (level > 0) (v_files v level) smallest_user_key largest_user_key"

text \<open>A key against a bound; a bound that is \<^verbatim>\<open>NULL\<close> excludes nothing.\<close>

definition below_bound :: "(slice \<Rightarrow> slice \<Rightarrow> int) \<Rightarrow> slice \<Rightarrow> slice option \<Rightarrow> bool" where
  "below_bound ucmp k bound = (case bound of None \<Rightarrow> False | Some b \<Rightarrow> ucmp k b < 0)"

definition above_bound :: "(slice \<Rightarrow> slice \<Rightarrow> int) \<Rightarrow> slice \<Rightarrow> slice option \<Rightarrow> bool" where
  "above_bound ucmp k bound = (case bound of None \<Rightarrow> False | Some e \<Rightarrow> ucmp k e > 0)"

text \<open>The loop of \<^verbatim>\<open>GetOverlappingInputs\<close>: its state is the index, the two bounds of the range (\<open>None\<close> when
  the caller passes \<^verbatim>\<open>NULL\<close>) and the inputs so far.  When a file of level 0 expands the range the search
  starts again.\<close>

type_synonym overlap_state = "nat \<times> slice option \<times> slice option \<times> FileMetaData list"

definition overlap_step ::
  "(slice \<Rightarrow> slice \<Rightarrow> int) \<Rightarrow> nat \<Rightarrow> FileMetaData \<Rightarrow> overlap_state \<Rightarrow> overlap_state" where
  "overlap_step ucmp level f st =
     (case st of (i, user_begin, user_end, inputs) \<Rightarrow>
        if below_bound ucmp (largest_user f) user_begin then (i + 1, user_begin, user_end, inputs)
        else if above_bound ucmp (smallest_user f) user_end then (i + 1, user_begin, user_end, inputs)
        else if level = 0 then
          if below_bound ucmp (smallest_user f) user_begin then (0, Some (smallest_user f), user_end, [])
          else if above_bound ucmp (largest_user f) user_end then (0, user_begin, Some (largest_user f), [])
          else (i + 1, user_begin, user_end, inputs @ [f])
        else (i + 1, user_begin, user_end, inputs @ [f]))"

partial_function (option) overlap_loop ::
  "(slice \<Rightarrow> slice \<Rightarrow> int) \<Rightarrow> nat \<Rightarrow> FileMetaData list \<Rightarrow> overlap_state \<Rightarrow> FileMetaData list option" where
  "overlap_loop ucmp level files st =
     (if fst st < length files then overlap_loop ucmp level files (overlap_step ucmp level (files ! fst st) st)
      else Some (snd (snd (snd st))))"

definition GetOverlappingInputs ::
  "(slice \<Rightarrow> slice \<Rightarrow> int) \<Rightarrow> Version \<Rightarrow> nat \<Rightarrow> slice option \<Rightarrow> slice option \<Rightarrow> FileMetaData list option" where
  "GetOverlappingInputs ucmp v level begin' end' =
     overlap_loop ucmp level (v_files v level) (0, map_option ExtractUserKey begin', map_option ExtractUserKey end', [])"

definition kTargetFileSize :: int where
  "kTargetFileSize = 2 * 1048576"

definition kMaxGrandParentOverlapBytes :: int where
  "kMaxGrandParentOverlapBytes = 10 * kTargetFileSize"

definition kExpandedCompactionByteSizeLimit :: int where
  "kExpandedCompactionByteSizeLimit = 25 * kTargetFileSize"

text \<open>The sum is a signed 64-bit integer.\<close>

definition TotalFileSize :: "FileMetaData list \<Rightarrow> int" where
  "TotalFileSize files = sint (fold (\<lambda>f sum. sum + fm_file_size f) files 0)"

partial_function (option) pick_level_loop ::
  "(slice \<Rightarrow> slice \<Rightarrow> int) \<Rightarrow> Version \<Rightarrow> slice \<Rightarrow> slice \<Rightarrow> nat \<Rightarrow> nat option" where
  "pick_level_loop ucmp v smallest_user_key largest_user_key level =
     (if level < kMaxMemCompactLevel then
        if OverlapInLevel ucmp v (level + 1) (Some smallest_user_key) (Some largest_user_key) then Some level
        else Option.bind (GetOverlappingInputs ucmp v (level + 2)
               (Some (InternalKey smallest_user_key kMaxSequenceNumber kValueTypeForSeek))
               (Some (InternalKey largest_user_key 0 kTypeDeletion)))
             (\<lambda>overlaps. if TotalFileSize overlaps > kMaxGrandParentOverlapBytes then Some level
                else pick_level_loop ucmp v smallest_user_key largest_user_key (level + 1))
      else Some level)"

definition PickLevelForMemTableOutput ::
  "(slice \<Rightarrow> slice \<Rightarrow> int) \<Rightarrow> Version \<Rightarrow> slice \<Rightarrow> slice \<Rightarrow> nat option" where
  "PickLevelForMemTableOutput ucmp v smallest_user_key largest_user_key =
     (if \<not> OverlapInLevel ucmp v 0 (Some smallest_user_key) (Some largest_user_key)
      then pick_level_loop ucmp v smallest_user_key largest_user_key 0 else Some 0)"

subsection \<open>Well-formed levels\<close>

text \<open>An internal key whose type byte is one the code knows sorts at or after the seek key of its user key.\<close>

definition ikey_ok :: "(slice \<Rightarrow> bool) \<Rightarrow> slice \<Rightarrow> bool" where
  "ikey_ok key_ok k \<longleftrightarrow> internal_key_ok key_ok k \<and> key_tag k \<le> PackSequenceAndType kMaxSequenceNumber kValueTypeForSeek"

definition file_ok :: "(slice \<Rightarrow> slice \<Rightarrow> int) \<Rightarrow> (slice \<Rightarrow> bool) \<Rightarrow> FileMetaData \<Rightarrow> bool" where
  "file_ok ucmp key_ok f \<longleftrightarrow> ikey_ok key_ok (fm_smallest f) \<and> ikey_ok key_ok (fm_largest f) \<and>
     icompare ucmp (fm_smallest f) (fm_largest f) \<le> 0"

text \<open>The files of a level above 0: sorted and disjoint.\<close>

definition level_sorted :: "(slice \<Rightarrow> slice \<Rightarrow> int) \<Rightarrow> FileMetaData list \<Rightarrow> bool" where
  "level_sorted ucmp files \<longleftrightarrow> sorted_wrt (\<lambda>f g. icompare ucmp (fm_largest f) (fm_smallest g) < 0) files"

subsection \<open>FindFile\<close>

lemma find_file_loop_bounds:
  fixes files :: "FileMetaData list" and ucmp key
  defines "P \<equiv> \<lambda>i. icompare ucmp (fm_largest (files ! i)) key < 0"
  assumes "left \<le> right" "right \<le> length files"
    and "\<And>i. i < left \<Longrightarrow> P i" "\<And>i. right \<le> i \<Longrightarrow> i < length files \<Longrightarrow> \<not> P i"
    and mono: "\<And>i j. i \<le> j \<Longrightarrow> j < length files \<Longrightarrow> P j \<Longrightarrow> P i"
  shows "find_file_loop ucmp files key left right \<le> length files \<and>
    (\<forall>i<length files. P i \<longleftrightarrow> i < find_file_loop ucmp files key left right)"
  using assms(2-5)
proof (induction "right - left" arbitrary: left right rule: less_induct)
  case less
  show ?case
  proof (cases "left < right")
    case True
    define mid where "mid = (left + right) div 2"
    have mid: "left \<le> mid" "mid < right" using True by (auto simp: mid_def)
    then have mlen: "mid < length files" using less.prems(2) by simp
    have step: "find_file_loop ucmp files key left right =
        (if P mid then find_file_loop ucmp files key (mid + 1) right else find_file_loop ucmp files key left mid)"
      using True by (subst find_file_loop.simps) (simp add: mid_def P_def Let_def)
    show ?thesis
    proof (cases "P mid")
      case lt: True
      have below: "P i" if "i < mid + 1" for i
        by (rule mono [of i mid]) (use that mlen lt in auto)
      show ?thesis
        using less.hyps [OF _ _ less.prems(2) below less.prems(4), of "mid + 1"] mid lt unfolding step by simp
    next
      case ge: False
      have above: "\<not> P i" if "mid \<le> i" "i < length files" for i
        using mono [OF that] ge by blast
      show ?thesis
        using less.hyps [OF _ mid(1) _ less.prems(3) above] mid mlen ge unfolding step by simp
    qed
  next
    case False
    then have "left = right" using less.prems(1) by simp
    moreover have "find_file_loop ucmp files key left right = right"
      using False by (subst find_file_loop.simps) simp
    moreover have "P i \<longleftrightarrow> i < right" if "i < length files" for i
      using less.prems(3,4) that \<open>left = right\<close> by (cases "i < right") auto
    ultimately show ?thesis using less.prems(2) by simp
  qed
qed

text \<open>Whether the user keys of a file meet a range of user keys.\<close>

definition meets :: "(slice \<Rightarrow> slice \<Rightarrow> int) \<Rightarrow> slice \<Rightarrow> slice \<Rightarrow> FileMetaData \<Rightarrow> bool" where
  "meets ucmp sm la f \<longleftrightarrow> ucmp sm (largest_user f) \<le> 0 \<and> \<not> ucmp la (smallest_user f) < 0"

context user_comparator
begin

abbreviation ic :: "slice \<Rightarrow> slice \<Rightarrow> int" where
  "ic \<equiv> InternalKeyComparator_Compare Compare"

lemma ikey_internal: "ikey_ok key_ok k \<Longrightarrow> internal_key_ok key_ok k"
  by (simp add: ikey_ok_def)

lemma ikey_user: "ikey_ok key_ok k \<Longrightarrow> key_ok (ExtractUserKey k)"
  by (simp add: ikey_ok_def internal_key_ok_def)

lemma level_sorted_nth:
  assumes "level_sorted Compare files" "\<forall>f\<in>set files. file_ok Compare key_ok f" "i < j" "j < length files"
  shows "ic (fm_largest (files ! i)) (fm_smallest (files ! j)) < 0"
    and "ic (fm_largest (files ! i)) (fm_largest (files ! j)) < 0"
    and "ic (fm_smallest (files ! i)) (fm_smallest (files ! j)) < 0"
proof -
  have ok: "file_ok Compare key_ok (files ! i)" "file_ok Compare key_ok (files ! j)"
    using assms by auto
  show lt: "ic (fm_largest (files ! i)) (fm_smallest (files ! j)) < 0"
    using assms by (auto simp: level_sorted_def sorted_wrt_iff_nth_less)
  show "ic (fm_largest (files ! i)) (fm_largest (files ! j)) < 0"
    using lt ok internal.cmp_less_le_trans [of "fm_largest (files ! i)" "fm_smallest (files ! j)" "fm_largest (files ! j)"]
    by (simp add: file_ok_def ikey_internal)
  show "ic (fm_smallest (files ! i)) (fm_smallest (files ! j)) < 0"
    using lt ok internal.cmp_le_less_trans [of "fm_smallest (files ! i)" "fm_largest (files ! i)" "fm_smallest (files ! j)"]
    by (simp add: file_ok_def ikey_internal)
qed

text \<open>\<^verbatim>\<open>FindFile\<close> returns the first file whose largest key is at or after the key.\<close>

lemma FindFile_correct:
  assumes "level_sorted Compare files" "\<forall>f\<in>set files. file_ok Compare key_ok f" "internal_key_ok key_ok key"
  shows "FindFile Compare files key \<le> length files \<and>
    (\<forall>i<length files. ic (fm_largest (files ! i)) key < 0 \<longleftrightarrow> i < FindFile Compare files key)"
  unfolding FindFile_def
proof (rule find_file_loop_bounds)
  fix i j
  assume a: "i \<le> j" "j < length files" "ic (fm_largest (files ! j)) key < 0"
  show "ic (fm_largest (files ! i)) key < 0"
  proof (cases "i = j")
    case False
    then have "i < j" using a(1) by simp
    moreover have "file_ok Compare key_ok (files ! i)" "file_ok Compare key_ok (files ! j)"
      using assms(2) a by auto
    ultimately show ?thesis
      using a level_sorted_nth(2) [OF assms(1,2), of i j] assms(3)
        internal.cmp_less_trans [of "fm_largest (files ! i)" "fm_largest (files ! j)" key]
      by (simp add: file_ok_def ikey_internal)
  qed (use a in simp)
qed auto


lemma seek_less_iff:
  assumes "ikey_ok key_ok k"
  shows "ic k (InternalKey u kMaxSequenceNumber kValueTypeForSeek) < 0 \<longleftrightarrow> Compare (ExtractUserKey k) u < 0"
  using assms by (auto simp: InternalKeyComparator_Compare_eq ikey_ok_def Let_def)

lemma ic_user_le: "ic a b \<le> 0 \<Longrightarrow> Compare (ExtractUserKey a) (ExtractUserKey b) \<le> 0"
  by (auto simp: internal_le_iff)

lemma internal_key_ok_seek: "key_ok u \<Longrightarrow> internal_key_ok key_ok (InternalKey u s t)"
  by (simp add: internal_key_ok_def)

text \<open>The binary search for an overlap agrees with looking at every file.\<close>

lemma overlaps_binary_search:
  assumes "level_sorted Compare files" "\<forall>f\<in>set files. file_ok Compare key_ok f"
    and "\<forall>u. sm = Some u \<longrightarrow> key_ok u" "\<forall>u. la = Some u \<longrightarrow> key_ok u"
  shows "SomeFileOverlapsRange Compare True files sm la = SomeFileOverlapsRange Compare False files sm la"
proof -
  define index where "index = (case sm of None \<Rightarrow> 0
    | Some u \<Rightarrow> FindFile Compare files (InternalKey u kMaxSequenceNumber kValueTypeForSeek))"
  have after: "AfterFile Compare sm (files ! i) \<longleftrightarrow> i < index" if i: "i < length files" for i
  proof (cases sm)
    case (Some u)
    have u: "key_ok u" using assms(3) Some by simp
    have ok: "ikey_ok key_ok (fm_largest (files ! i))" using assms(2) i by (simp add: file_ok_def)
    have "AfterFile Compare sm (files ! i) \<longleftrightarrow> Compare (largest_user (files ! i)) u < 0"
      using Some u ikey_user [OF ok] cmp_flip [of u "largest_user (files ! i)"] by (simp add: AfterFile_def)
    also have "\<dots> \<longleftrightarrow> i < index"
      using FindFile_correct [OF assms(1,2) internal_key_ok_seek [OF u], of kMaxSequenceNumber kValueTypeForSeek]
        seek_less_iff [OF ok, of u] i Some by (simp add: index_def)
    finally show ?thesis .
  qed (simp add: AfterFile_def index_def)
  have before: "BeforeFile Compare la (files ! j)" if t: "index \<le> j" "j < length files" "BeforeFile Compare la (files ! index)" for j
  proof (cases "index = j")
    case False
    obtain u where u: "la = Some u" "key_ok u" "Compare u (smallest_user (files ! index)) < 0"
      using t(3) assms(4) by (auto simp: BeforeFile_def split: option.splits)
    have "ikey_ok key_ok (fm_smallest (files ! index))" "ikey_ok key_ok (fm_smallest (files ! j))"
      using assms(2) t by (auto simp: file_ok_def)
    moreover have "Compare (smallest_user (files ! index)) (smallest_user (files ! j)) \<le> 0"
      using level_sorted_nth(3) [OF assms(1,2), of index j] t False by (intro ic_user_le) simp
    ultimately show ?thesis
      using u cmp_less_le_trans [of u "smallest_user (files ! index)" "smallest_user (files ! j)"]
      by (simp add: BeforeFile_def ikey_user)
  qed (use t in simp)
  have "SomeFileOverlapsRange Compare False files sm la \<longleftrightarrow>
      (\<exists>i<length files. index \<le> i \<and> \<not> BeforeFile Compare la (files ! i))"
    using after by (auto simp: SomeFileOverlapsRange_def list_ex_length not_less)
  also have "\<dots> \<longleftrightarrow> index < length files \<and> \<not> BeforeFile Compare la (files ! index)"
    using before by (meson le_less_trans order_refl)
  finally show ?thesis
    by (auto simp: SomeFileOverlapsRange_def index_def [symmetric] Let_def not_le)
qed

subsection \<open>GetOverlappingInputs\<close>

definition in_range :: "slice option \<Rightarrow> slice option \<Rightarrow> FileMetaData \<Rightarrow> bool" where
  "in_range b e f \<longleftrightarrow> \<not> below_bound Compare (largest_user f) b \<and> \<not> above_bound Compare (smallest_user f) e"

text \<open>The range only grows; at level 0 the inputs lie inside it.\<close>

definition wider :: "slice option \<Rightarrow> slice option \<Rightarrow> slice option \<Rightarrow> slice option \<Rightarrow> bool" where
  "wider b e b' e' \<longleftrightarrow> (\<forall>k. key_ok k \<longrightarrow> below_bound Compare k b' \<longrightarrow> below_bound Compare k b) \<and>
     (\<forall>k. key_ok k \<longrightarrow> above_bound Compare k e' \<longrightarrow> above_bound Compare k e)"

definition inside :: "slice option \<Rightarrow> slice option \<Rightarrow> FileMetaData \<Rightarrow> bool" where
  "inside b e f \<longleftrightarrow> \<not> below_bound Compare (smallest_user f) b \<and> \<not> above_bound Compare (largest_user f) e"

definition outside :: "FileMetaData list \<Rightarrow> slice option \<Rightarrow> slice option \<Rightarrow> nat" where
  "outside files b e = card {i. i < length files \<and> below_bound Compare (smallest_user (files ! i)) b} +
     card {i. i < length files \<and> above_bound Compare (largest_user (files ! i)) e}"

definition bound_ok :: "slice option \<Rightarrow> bool" where
  "bound_ok b \<longleftrightarrow> (\<forall>u. b = Some u \<longrightarrow> key_ok u)"

lemma lower_bound_shrinks:
  assumes "\<forall>f\<in>set files. file_ok Compare key_ok f" "bound_ok b" "i < length files"
    and "below_bound Compare (smallest_user (files ! i)) b"
  shows "outside files (Some (smallest_user (files ! i))) e < outside files b e"
    and "wider b e (Some (smallest_user (files ! i))) e"
proof -
  let ?s = "smallest_user (files ! i)"
  obtain u where u: "b = Some u" "key_ok u" "Compare ?s u < 0"
    using assms(2,4) by (auto simp: below_bound_def bound_ok_def split: option.splits)
  have s: "key_ok ?s" using assms(1,3) ikey_user by (auto simp: file_ok_def)
  have low: "Compare k ?s < 0 \<Longrightarrow> Compare k u < 0" if "key_ok k" for k
    using cmp_less_trans [of k ?s u] that s u by simp
  then show "wider b e (Some ?s) e" by (simp add: wider_def below_bound_def u)
  have k: "key_ok (smallest_user (files ! j))" if "j < length files" for j
    using assms(1) that ikey_user by (auto simp: file_ok_def)
  have "{j. j < length files \<and> Compare (smallest_user (files ! j)) ?s < 0} \<subset>
      {j. j < length files \<and> Compare (smallest_user (files ! j)) u < 0}"
    (is "?A \<subset> ?B")
  proof -
    have "?A \<subseteq> ?B" "i \<in> ?B" "i \<notin> ?A" using low k assms(3) u cmp_refl [OF s] by auto
    then show ?thesis by blast
  qed
  then have "card {j. j < length files \<and> Compare (smallest_user (files ! j)) ?s < 0} <
      card {j. j < length files \<and> Compare (smallest_user (files ! j)) u < 0}"
    by (intro psubset_card_mono) auto
  then show "outside files (Some ?s) e < outside files b e" by (simp add: outside_def below_bound_def u)
qed

lemma upper_bound_shrinks:
  assumes "\<forall>f\<in>set files. file_ok Compare key_ok f" "bound_ok e" "i < length files"
    and "above_bound Compare (largest_user (files ! i)) e"
  shows "outside files b (Some (largest_user (files ! i))) < outside files b e"
    and "wider b e b (Some (largest_user (files ! i)))"
proof -
  let ?l = "largest_user (files ! i)"
  obtain u where u: "e = Some u" "key_ok u" "Compare ?l u > 0"
    using assms(2,4) by (auto simp: above_bound_def bound_ok_def split: option.splits)
  have l: "key_ok ?l" using assms(1,3) ikey_user by (auto simp: file_ok_def)
  have up: "Compare k ?l > 0 \<Longrightarrow> Compare k u > 0" if "key_ok k" for k
    using cmp_less_trans [of u ?l k] cmp_flip [of k ?l] cmp_flip [of ?l u] cmp_flip [of k u] that l u by simp
  then show "wider b e b (Some ?l)" by (simp add: wider_def above_bound_def u)
  have k: "key_ok (largest_user (files ! j))" if "j < length files" for j
    using assms(1) that ikey_user by (auto simp: file_ok_def)
  have "{j. j < length files \<and> Compare (largest_user (files ! j)) ?l > 0} \<subset>
      {j. j < length files \<and> Compare (largest_user (files ! j)) u > 0}"
    (is "?A \<subset> ?B")
  proof -
    have "?A \<subseteq> ?B" "i \<in> ?B" "i \<notin> ?A" using up k assms(3) u cmp_refl [OF l] by auto
    then show ?thesis by blast
  qed
  then have "card {j. j < length files \<and> Compare (largest_user (files ! j)) ?l > 0} <
      card {j. j < length files \<and> Compare (largest_user (files ! j)) u > 0}"
    by (intro psubset_card_mono) auto
  then show "outside files b (Some ?l) < outside files b e" by (simp add: outside_def above_bound_def u)
qed

lemma wider_refl [simp]: "wider b e b e"
  by (simp add: wider_def)

lemma wider_trans: "wider b e b' e' \<Longrightarrow> wider b' e' b'' e'' \<Longrightarrow> wider b e b'' e''"
  by (simp add: wider_def)


lemma overlap_loop_correct:
  assumes files: "\<forall>f\<in>set files. file_ok Compare key_ok f"
    and "i \<le> length files" "bound_ok b" "bound_ok e" "inputs = filter (in_range b e) (take i files)"
    and "level = 0 \<longrightarrow> (\<forall>f\<in>set inputs. inside b e f)"
  shows "\<exists>b' e'. overlap_loop Compare level files (i, b, e, inputs) = Some (filter (in_range b' e') files) \<and>
    wider b e b' e' \<and> bound_ok b' \<and> bound_ok e' \<and> (level = 0 \<longrightarrow> (\<forall>f\<in>set (filter (in_range b' e') files). inside b' e' f)) \<and>
    (level \<noteq> 0 \<longrightarrow> b' = b \<and> e' = e)"
  using assms(2-)
proof (induction "(outside files b e, length files - i)" arbitrary: i b e inputs
    rule: wf_induct_rule [OF wf_lex_prod [OF wf_less_than wf_less_than]])
  case 1
  note IH = "1.hyps" and prems = "1.prems"
  show ?case
  proof (cases "i < length files")
    case False
    then have "overlap_loop Compare level files (i, b, e, inputs) = Some inputs"
      by (subst overlap_loop.simps) simp
    then show ?thesis using False prems by (intro exI [of _ b] exI [of _ e]) auto
  next
    case True
    let ?f = "files ! i"
    have step: "overlap_loop Compare level files (i, b, e, inputs) =
        overlap_loop Compare level files (overlap_step Compare level ?f (i, b, e, inputs))"
      using True by (subst overlap_loop.simps) simp
    have take: "filter (in_range b e) (take (Suc i) files) = inputs @ (if in_range b e ?f then [?f] else [])"
      using True prems(4) by (simp add: take_Suc_conv_app_nth)
    have ok: "key_ok (smallest_user ?f)" "key_ok (largest_user ?f)"
      using files True ikey_user by (auto simp: file_ok_def)
    consider (skip) "\<not> in_range b e ?f"
      | (low) "in_range b e ?f" "level = 0" "below_bound Compare (smallest_user ?f) b"
      | (high) "in_range b e ?f" "level = 0" "\<not> below_bound Compare (smallest_user ?f) b"
          "above_bound Compare (largest_user ?f) e"
      | (add) "in_range b e ?f" "level = 0 \<longrightarrow> inside b e ?f"
      by (auto simp: inside_def)
    then show ?thesis
    proof cases
      case skip
      then have "overlap_step Compare level ?f (i, b, e, inputs) = (Suc i, b, e, inputs)"
        by (auto simp: overlap_step_def in_range_def)
      then show ?thesis
        using IH [of b e "Suc i" inputs] True prems take skip unfolding step by simp
    next
      case low
      then have "overlap_step Compare level ?f (i, b, e, inputs) = (0, Some (smallest_user ?f), e, [])"
        by (auto simp: overlap_step_def in_range_def)
      moreover note lower_bound_shrinks [OF files prems(2) True low(3), of e]
      ultimately show ?thesis
        using IH [of "Some (smallest_user ?f)" e 0 "[]"] prems(3) ok low(2) unfolding step
        by (auto simp: bound_ok_def intro: wider_trans)
    next
      case high
      then have "overlap_step Compare level ?f (i, b, e, inputs) = (0, b, Some (largest_user ?f), [])"
        by (auto simp: overlap_step_def in_range_def)
      moreover note upper_bound_shrinks [OF files prems(3) True high(4), of b]
      ultimately show ?thesis
        using IH [of b "Some (largest_user ?f)" 0 "[]"] prems(2) ok high(2) unfolding step
        by (auto simp: bound_ok_def intro: wider_trans)
    next
      case add
      then have "overlap_step Compare level ?f (i, b, e, inputs) = (Suc i, b, e, inputs @ [?f])"
        by (auto simp: overlap_step_def in_range_def inside_def)
      then show ?thesis
        using IH [of b e "Suc i" "inputs @ [?f]"] True prems take add unfolding step by simp
    qed
  qed
qed


lemma GetOverlappingInputs_correct:
  assumes "\<forall>f\<in>set (v_files v level). file_ok Compare key_ok f"
    and "bound_ok (map_option ExtractUserKey b)" "bound_ok (map_option ExtractUserKey e)"
  shows "\<exists>b' e'. GetOverlappingInputs Compare v level b e = Some (filter (in_range b' e') (v_files v level)) \<and>
    wider (map_option ExtractUserKey b) (map_option ExtractUserKey e) b' e' \<and> bound_ok b' \<and> bound_ok e' \<and>
    (level = 0 \<longrightarrow> (\<forall>f\<in>set (filter (in_range b' e') (v_files v level)). inside b' e' f)) \<and>
    (level \<noteq> 0 \<longrightarrow> b' = map_option ExtractUserKey b \<and> e' = map_option ExtractUserKey e)"
  unfolding GetOverlappingInputs_def by (rule overlap_loop_correct) (use assms in simp_all)

text \<open>Files inside a range overlap only files that are in the range.\<close>

lemma inside_overlap:
  assumes "inside b e f" "file_ok Compare key_ok f" "file_ok Compare key_ok g" "bound_ok b" "bound_ok e"
    and "Compare (smallest_user f) (largest_user g) \<le> 0" "Compare (smallest_user g) (largest_user f) \<le> 0"
  shows "in_range b e g"
proof -
  note ok = assms(2,3)[unfolded file_ok_def]
  have k: "key_ok (smallest_user f)" "key_ok (largest_user f)" "key_ok (smallest_user g)" "key_ok (largest_user g)"
    using ok ikey_user by auto
  have "\<not> Compare (largest_user g) x < 0" if "b = Some x" for x
    using that assms(1,4,6) k cmp_le_less_trans [of "smallest_user f" "largest_user g" x]
    by (auto simp: inside_def below_bound_def bound_ok_def)
  moreover have "\<not> Compare (smallest_user g) x > 0" if "e = Some x" for x
    using that assms(1,5,7) k cmp_less_le_trans [of x "smallest_user g" "largest_user f"]
      cmp_flip [of "smallest_user g" x] cmp_flip [of "largest_user f" x]
    by (auto simp: inside_def above_bound_def bound_ok_def)
  ultimately show ?thesis
    by (auto simp: in_range_def below_bound_def above_bound_def split: option.splits)
qed

lemma pick_level_loop_correct:
  assumes files: "\<forall>l. \<forall>f\<in>set (v_files v l). file_ok Compare key_ok f" and "key_ok sm" "key_ok la"
    and "\<forall>l\<le>level. \<not> OverlapInLevel Compare v l (Some sm) (Some la)" "level \<le> kMaxMemCompactLevel"
  shows "\<exists>l. pick_level_loop Compare v sm la level = Some l \<and> level \<le> l \<and> l \<le> kMaxMemCompactLevel \<and>
    (\<forall>i\<le>l. \<not> OverlapInLevel Compare v i (Some sm) (Some la))"
  using assms(4,5)
proof (induction "kMaxMemCompactLevel - level" arbitrary: level)
  case 0
  then have "pick_level_loop Compare v sm la level = Some level" by (subst pick_level_loop.simps) simp
  then show ?case using 0 by auto
next
  case (Suc n)
  then have lt: "level < kMaxMemCompactLevel" by simp
  obtain inputs where i: "GetOverlappingInputs Compare v (level + 2)
      (Some (InternalKey sm kMaxSequenceNumber kValueTypeForSeek)) (Some (InternalKey la 0 kTypeDeletion)) = Some inputs"
    using GetOverlappingInputs_correct [of v "level + 2" "Some (InternalKey sm kMaxSequenceNumber kValueTypeForSeek)"
        "Some (InternalKey la 0 kTypeDeletion)"] files assms(2,3) by (auto simp: bound_ok_def)
  have step: "pick_level_loop Compare v sm la level =
      (if OverlapInLevel Compare v (level + 1) (Some sm) (Some la) then Some level
       else if TotalFileSize inputs > kMaxGrandParentOverlapBytes then Some level
       else pick_level_loop Compare v sm la (level + 1))"
    using lt i by (subst pick_level_loop.simps) simp
  show ?case
  proof (cases "OverlapInLevel Compare v (level + 1) (Some sm) (Some la) \<or> TotalFileSize inputs > kMaxGrandParentOverlapBytes")
    case True
    then have "pick_level_loop Compare v sm la level = Some level" unfolding step by auto
    then show ?thesis using Suc.prems by auto
  next
    case False
    then have "\<forall>l\<le>level + 1. \<not> OverlapInLevel Compare v l (Some sm) (Some la)"
      using Suc.prems(1) le_Suc_eq by auto
    moreover have "n = kMaxMemCompactLevel - (level + 1)" "level + 1 \<le> kMaxMemCompactLevel"
      using Suc.hyps(2) by simp_all
    ultimately obtain l where "pick_level_loop Compare v sm la (level + 1) = Some l" "level + 1 \<le> l"
        "l \<le> kMaxMemCompactLevel" "\<forall>i\<le>l. \<not> OverlapInLevel Compare v i (Some sm) (Some la)"
      using Suc.hyps(1) [of "level + 1"] by blast
    then show ?thesis using False unfolding step by auto
  qed
qed

lemma in_range_meets:
  assumes "file_ok Compare key_ok f" "key_ok x" "key_ok y"
  shows "in_range (Some x) (Some y) f \<longleftrightarrow> meets Compare x y f"
proof -
  have "key_ok (smallest_user f)" "key_ok (largest_user f)" using assms(1) ikey_user by (auto simp: file_ok_def)
  then show ?thesis
    using assms(2,3) cmp_not_less [of "largest_user f" x] cmp_flip [of "smallest_user f" y]
    by (auto simp: in_range_def meets_def below_bound_def above_bound_def)
qed

lemma wider_in_range:
  assumes "wider b e b' e'" "file_ok Compare key_ok f" "in_range b e f"
  shows "in_range b' e' f"
  using assms ikey_user by (auto simp: wider_def in_range_def file_ok_def)

lemma overlapping_inputs:
  assumes files: "\<forall>f\<in>set (v_files v level). file_ok Compare key_ok f"
    and "internal_key_ok key_ok b" "internal_key_ok key_ok e"
  shows "\<exists>inputs. GetOverlappingInputs Compare v level (Some b) (Some e) = Some inputs \<and>
    set inputs \<subseteq> set (v_files v level) \<and>
    (\<forall>f\<in>set (v_files v level). meets Compare (ExtractUserKey b) (ExtractUserKey e) f \<longrightarrow> f \<in> set inputs) \<and>
    (level \<noteq> 0 \<longrightarrow> inputs = filter (meets Compare (ExtractUserKey b) (ExtractUserKey e)) (v_files v level)) \<and>
    (level = 0 \<longrightarrow> (\<forall>f\<in>set inputs. \<forall>g\<in>set (v_files v level).
       meets Compare (smallest_user g) (largest_user g) f \<longrightarrow> g \<in> set inputs))"
proof -
  let ?b = "ExtractUserKey b" and ?e = "ExtractUserKey e" and ?F = "v_files v level"
  have k: "key_ok ?b" "key_ok ?e" using assms(2,3) by (simp_all add: internal_key_ok_def)
  then have bok: "bound_ok (map_option ExtractUserKey (Some b))" "bound_ok (map_option ExtractUserKey (Some e))"
    by (simp_all add: bound_ok_def)
  obtain b' e' where r: "GetOverlappingInputs Compare v level (Some b) (Some e) = Some (filter (in_range b' e') ?F)"
      "wider (Some ?b) (Some ?e) b' e'" "bound_ok b'" "bound_ok e'"
      "level = 0 \<longrightarrow> (\<forall>f\<in>set (filter (in_range b' e') ?F). inside b' e' f)"
      "level \<noteq> 0 \<longrightarrow> b' = Some ?b \<and> e' = Some ?e"
    using GetOverlappingInputs_correct [OF files bok] unfolding option.map by blast
  have m: "meets Compare ?b ?e f \<Longrightarrow> in_range b' e' f" if "f \<in> set ?F" for f
    using wider_in_range [OF r(2), of f] in_range_meets [OF _ k, of f] files that by simp
  have eq: "filter (in_range b' e') ?F = filter (meets Compare ?b ?e) ?F" if "level \<noteq> 0"
    using r(6) that files in_range_meets [OF _ k] by (intro filter_cong) simp_all
  have closed: "in_range b' e' g" if "level = 0" "f \<in> set ?F" "in_range b' e' f" "g \<in> set ?F"
      "meets Compare (smallest_user g) (largest_user g) f" for f g
  proof (rule inside_overlap [OF _ _ _ r(3,4)])
    show "inside b' e' f" using r(5) that(1-3) by simp
    show f: "file_ok Compare key_ok f" and g: "file_ok Compare key_ok g" using files that(2,4) by simp_all
    show "Compare (smallest_user g) (largest_user f) \<le> 0" using that(5) by (simp add: meets_def)
    show "Compare (smallest_user f) (largest_user g) \<le> 0"
      using that(5) f g cmp_not_less [of "largest_user g" "smallest_user f"]
      by (simp add: meets_def file_ok_def ikey_user)
  qed
  show ?thesis
  proof (intro exI [of _ "filter (in_range b' e') ?F"] conjI)
    show "level = 0 \<longrightarrow> (\<forall>f\<in>set (filter (in_range b' e') ?F). \<forall>g\<in>set ?F.
        meets Compare (smallest_user g) (largest_user g) f \<longrightarrow> g \<in> set (filter (in_range b' e') ?F))"
    proof (intro impI ballI)
      fix f g
      assume a: "level = 0" "f \<in> set (filter (in_range b' e') ?F)" "g \<in> set ?F"
        "meets Compare (smallest_user g) (largest_user g) f"
      then have "in_range b' e' g" by (intro closed [of f g]) simp_all
      with a(3) show "g \<in> set (filter (in_range b' e') ?F)" by simp
    qed
  qed (use r(1) m eq in simp_all)
qed

lemma not_overlap_meets:
  assumes "level > 0 \<longrightarrow> level_sorted Compare (v_files v level)" "\<forall>f\<in>set (v_files v level). file_ok Compare key_ok f"
    and "key_ok sm" "key_ok la"
  shows "OverlapInLevel Compare v level (Some sm) (Some la) \<longleftrightarrow> (\<exists>f\<in>set (v_files v level). meets Compare sm la f)"
proof -
  have "OverlapInLevel Compare v level (Some sm) (Some la) =
      SomeFileOverlapsRange Compare False (v_files v level) (Some sm) (Some la)"
    using overlaps_binary_search [OF _ assms(2), of "Some sm" "Some la"] assms by (cases "level > 0") (simp_all add: OverlapInLevel_def)
  then show ?thesis
    by (auto simp: SomeFileOverlapsRange_def list_ex_iff meets_def AfterFile_def BeforeFile_def not_less)
qed

lemma pick_level:
  assumes files: "\<forall>l. \<forall>f\<in>set (v_files v l). file_ok Compare key_ok f" "\<forall>l>0. level_sorted Compare (v_files v l)"
    and k: "key_ok sm" "key_ok la"
  shows "\<exists>l. PickLevelForMemTableOutput Compare v sm la = Some l \<and> l \<le> kMaxMemCompactLevel \<and>
    (l > 0 \<longrightarrow> (\<forall>i\<le>l. \<forall>f\<in>set (v_files v i). \<not> meets Compare sm la f))"
proof (cases "OverlapInLevel Compare v 0 (Some sm) (Some la)")
  case False
  then show ?thesis
    using pick_level_loop_correct [OF files(1) k, of 0] not_overlap_meets [OF _ _ k, of _ v] files
    by (auto simp: PickLevelForMemTableOutput_def)
qed (simp add: PickLevelForMemTableOutput_def)

end

end
