(* ===== verification/Version_Get.thy ===== *)
theory Version_Get
  imports Db_Version
begin

text \<open>
  The properties of a version: a lookup finds the newest visible entry over all levels, the inputs of a
  compaction are closed under overlap, and the level picked for a new table overlaps nothing above it.
\<close>

subsection \<open>Reading a key\<close>

text \<open>What a read of the table of file \<open>f\<close> relies on: the table holds the sorted entries \<open>es\<close>, all inside the
  range of the file and the largest of them the largest key of the file, and a lookup gives the first entry at or
  after the key.\<close>

definition table_holds ::
  "(slice \<Rightarrow> slice \<Rightarrow> int) \<Rightarrow> (slice \<Rightarrow> bool) \<Rightarrow> table_get \<Rightarrow> FileMetaData \<Rightarrow> mem_entry list \<Rightarrow> bool" where
  "table_holds ucmp key_ok tget f es \<longleftrightarrow>
     sorted_wrt (\<lambda>a b. icompare ucmp (entry_key a) (entry_key b) < 0) es \<and> (\<forall>e\<in>set es. entry_ok key_ok e) \<and>
     (\<forall>e\<in>set es. icompare ucmp (fm_smallest f) (entry_key e) \<le> 0 \<and> icompare ucmp (entry_key e) (fm_largest f) \<le> 0) \<and>
     (\<exists>e\<in>set es. entry_key e = fm_largest f) \<and>
     (\<forall>u s. key_ok u \<and> s \<le> kMaxSequenceNumber \<longrightarrow>
        tget (fm_number f) (fm_file_size f) (InternalKey u s kValueTypeForSeek) =
          (None, map_option (\<lambda>e. (entry_key e, me_value e))
             (find (\<lambda>e. icompare ucmp (InternalKey u s kValueTypeForSeek) (entry_key e) \<le> 0) es)))"

text \<open>The levels of a version: files of level 0 have distinct numbers, the other levels are sorted, and of two entries
  for a user key the one in the newer file of level 0, or in the lower level, is newer.\<close>

definition version_ok ::
  "(slice \<Rightarrow> slice \<Rightarrow> int) \<Rightarrow> (slice \<Rightarrow> bool) \<Rightarrow> table_get \<Rightarrow> (FileMetaData \<Rightarrow> mem_entry list) \<Rightarrow> Version \<Rightarrow> bool" where
  "version_ok ucmp key_ok tget entries v \<longleftrightarrow>
     (\<forall>l. \<forall>f\<in>set (v_files v l). file_ok ucmp key_ok f \<and> table_holds ucmp key_ok tget f (entries f)) \<and>
     (\<forall>l>0. level_sorted ucmp (v_files v l)) \<and> distinct (map fm_number (v_files v 0)) \<and>
     (\<forall>f\<in>set (v_files v 0). \<forall>g\<in>set (v_files v 0). fm_number f > fm_number g \<longrightarrow>
        (\<forall>d\<in>set (entries f). \<forall>e\<in>set (entries g). ucmp (me_key d) (me_key e) = 0 \<longrightarrow> me_seq e < me_seq d)) \<and>
     (\<forall>l l'. l < l' \<longrightarrow> (\<forall>f\<in>set (v_files v l). \<forall>g\<in>set (v_files v l').
        \<forall>d\<in>set (entries f). \<forall>e\<in>set (entries g). ucmp (me_key d) (me_key e) = 0 \<longrightarrow> me_seq e < me_seq d))"

text \<open>What the search returns when it stops at an entry.\<close>

definition outcome :: "mem_entry \<Rightarrow> slice \<Rightarrow> status \<times> slice" where
  "outcome e val = (case me_type e of kTypeValue \<Rightarrow> (None, me_value e) | kTypeDeletion \<Rightarrow> (NotFound [] [], val))"

definition level_entries :: "(FileMetaData \<Rightarrow> mem_entry list) \<Rightarrow> Version \<Rightarrow> nat \<Rightarrow> mem_entry set" where
  "level_entries entries v l = (\<Union>f\<in>set (v_files v l). set (entries f))"

context user_comparator
begin

lemma seek_visible:
  assumes "entry_ok key_ok e" "key_ok u" "s \<le> kMaxSequenceNumber"
  shows "ic (InternalKey u s kValueTypeForSeek) (entry_key e) \<le> 0 \<longleftrightarrow> Compare u (me_key e) < 0 \<or> visible Compare u s e"
  using assms seek_key_le_iff [of s "me_seq e" Compare u "me_key e" "me_type e"] cmp_eq_sym [of u "me_key e"]
  by (auto simp: entry_key_def entry_ok_def visible_def)

lemma entry_order:
  assumes "entry_ok key_ok d" "entry_ok key_ok e" "ic (entry_key d) (entry_key e) < 0"
  shows "Compare (me_key d) (me_key e) \<le> 0 \<and> (Compare (me_key d) (me_key e) = 0 \<longrightarrow> me_seq e \<le> me_seq d)"
  using assms internal_compare_keys(1) [of "me_seq d" "me_seq e" Compare "me_key d" "me_type d" "me_key e" "me_type e"]
  by (auto simp: entry_key_def entry_ok_def)

lemma visible_user_eq: "key_ok u \<Longrightarrow> entry_ok key_ok d \<Longrightarrow> entry_ok key_ok e \<Longrightarrow> visible Compare u s d \<Longrightarrow>
    Compare (me_key e) u = 0 \<Longrightarrow> Compare (me_key d) (me_key e) = 0"
  using cmp_trans [of "me_key d" u "me_key e"] cmp_trans [of "me_key e" u "me_key d"]
    cmp_eq_sym [of "me_key d" u] cmp_eq_sym [of "me_key e" u] cmp_eq_sym [of "me_key d" "me_key e"]
    cmp_flip [of "me_key d" "me_key e"]
  by (auto simp: visible_def entry_ok_def)

text \<open>The first entry at or after the seek key is the newest visible one, if any is visible.\<close>

lemma find_visible:
  assumes "sorted_wrt (\<lambda>a b. ic (entry_key a) (entry_key b) < 0) es" "\<forall>e\<in>set es. entry_ok key_ok e"
    and "key_ok u" "s \<le> kMaxSequenceNumber"
  defines "r \<equiv> find (\<lambda>e. ic (InternalKey u s kValueTypeForSeek) (entry_key e) \<le> 0) es"
  shows "if \<exists>e\<in>set es. visible Compare u s e then \<exists>e. r = Some e \<and> newest Compare u s (set es) e
    else r = None \<or> (\<exists>e\<in>set es. r = Some e \<and> Compare (me_key e) u \<noteq> 0)"
  using assms(1,2) unfolding r_def
proof (induction es)
  case (Cons d es)
  have d: "entry_ok key_ok d" "key_ok (me_key d)" using Cons.prems(2) by (auto simp: entry_ok_def)
  have le: "Compare (me_key d) (me_key e) \<le> 0 \<and> (Compare (me_key d) (me_key e) = 0 \<longrightarrow> me_seq e \<le> me_seq d)"
      "entry_ok key_ok e" "key_ok (me_key e)" if "e \<in> set es" for e
    using entry_order [of d e] Cons.prems that d by (auto simp: entry_ok_def)
  consider (past) "Compare u (me_key d) < 0" | (here) "visible Compare u s d"
    | (before) "\<not> ic (InternalKey u s kValueTypeForSeek) (entry_key d) \<le> 0"
    using seek_visible [OF d(1) assms(3,4)] by blast
  then show ?case
  proof cases
    case past
    have "Compare u (me_key e) < 0 \<and> key_ok (me_key e)" if "e \<in> set (d # es)" for e
      using cmp_less_le_trans [of u "me_key d" "me_key e"] past le [of e] d assms(3) that by auto
    then have "\<not> visible Compare u s e" if "e \<in> set (d # es)" for e
      using that cmp_eq_sym [of u "me_key e"] assms(3) by (fastforce simp: visible_def)
    moreover have "Compare (me_key d) u \<noteq> 0" using past cmp_eq_sym [of u "me_key d"] d assms(3) by simp
    ultimately show ?thesis using seek_visible [OF d(1) assms(3,4)] past by auto
  next
    case here
    then have "newest Compare u s (set (d # es)) d"
      using le visible_user_eq [OF assms(3) d(1) _ here] by (auto simp: newest_def visible_def)
    then show ?thesis using seek_visible [OF d(1) assms(3,4)] here by auto
  next
    case before
    then have "\<not> visible Compare u s d" using seek_visible [OF d(1) assms(3,4)] by blast
    then have v: "(\<exists>e\<in>set (d # es). visible Compare u s e) \<longleftrightarrow> (\<exists>e\<in>set es. visible Compare u s e)"
      and n: "newest Compare u s (set (d # es)) e \<longleftrightarrow> newest Compare u s (set es) e" for e
      by (auto simp: newest_def)
    show ?thesis
      using Cons before unfolding v n by (cases "\<exists>e\<in>set es. visible Compare u s e") auto
  qed
qed simp

lemma SaveValue_entry:
  assumes "entry_ok key_ok e"
  shows "SaveValue Compare u (entry_key e) (me_value e) (Saver_kNotFound, val) =
    (if Compare (me_key e) u = 0
     then case me_type e of kTypeValue \<Rightarrow> (Saver_kFound, me_value e) | kTypeDeletion \<Rightarrow> (Saver_kDeleted, val)
     else (Saver_kNotFound, val))"
  using assms by (cases "me_type e") (auto simp: SaveValue_def entry_key_def entry_ok_def codec_simps)

lemma search_files_step:
  obtains st1 where "gs_value st1 = gs_value st"
    and "search_files ucmp tget ikey u level (f # fs) st =
      (case tget (fm_number f) (fm_file_size f) ikey of (s, entry) \<Rightarrow>
       case (case entry of None \<Rightarrow> (Saver_kNotFound, gs_value st)
             | Some (k, v) \<Rightarrow> SaveValue ucmp u k v (Saver_kNotFound, gs_value st)) of (state, val) \<Rightarrow>
         if \<not> ok s then (Some s, st1\<lparr>gs_value := val\<rparr>)
         else case state of
                Saver_kNotFound \<Rightarrow> search_files ucmp tget ikey u level fs (st1\<lparr>gs_value := val\<rparr>)
              | Saver_kFound \<Rightarrow> (Some s, st1\<lparr>gs_value := val\<rparr>)
              | Saver_kDeleted \<Rightarrow> (Some (NotFound [] []), st1\<lparr>gs_value := val\<rparr>)
              | Saver_kCorrupt \<Rightarrow> (Some (Corruption (str ''corrupted key for '') u), st1\<lparr>gs_value := val\<rparr>))"
proof (rule that)
  let ?st = "(if gs_last_file_read st \<noteq> None \<and> gs_seek_file st = None
      then st\<lparr>gs_seek_file := gs_last_file_read st\<rparr> else st)\<lparr>gs_last_file_read := Some (f, level)\<rparr>"
  show v: "gs_value ?st = gs_value st" by simp
  show "search_files ucmp tget ikey u level (f # fs) st =
      (case tget (fm_number f) (fm_file_size f) ikey of (s, entry) \<Rightarrow>
       case (case entry of None \<Rightarrow> (Saver_kNotFound, gs_value st)
             | Some (k, v) \<Rightarrow> SaveValue ucmp u k v (Saver_kNotFound, gs_value st)) of (state, val) \<Rightarrow>
         if \<not> ok s then (Some s, ?st\<lparr>gs_value := val\<rparr>)
         else case state of
                Saver_kNotFound \<Rightarrow> search_files ucmp tget ikey u level fs (?st\<lparr>gs_value := val\<rparr>)
              | Saver_kFound \<Rightarrow> (Some s, ?st\<lparr>gs_value := val\<rparr>)
              | Saver_kDeleted \<Rightarrow> (Some (NotFound [] []), ?st\<lparr>gs_value := val\<rparr>)
              | Saver_kCorrupt \<Rightarrow> (Some (Corruption (str ''corrupted key for '') u), ?st\<lparr>gs_value := val\<rparr>))"
    unfolding search_files.simps Let_def v by (rule refl)
qed

text \<open>Searching a list of files stops in the first file that has a visible entry.\<close>

lemma search_files_correct:
  assumes "\<forall>f\<in>set fs. table_holds Compare key_ok tget f (entries f)" "key_ok u" "s \<le> kMaxSequenceNumber"
  shows "if \<exists>f\<in>set fs. \<exists>e\<in>set (entries f). visible Compare u s e
    then \<exists>pre f post e st'. fs = pre @ f # post \<and> (\<forall>g\<in>set pre. \<forall>e\<in>set (entries g). \<not> visible Compare u s e) \<and>
      newest Compare u s (set (entries f)) e \<and>
      search_files Compare tget (InternalKey u s kValueTypeForSeek) u level fs st = (Some (fst (outcome e (gs_value st))), st') \<and>
      gs_value st' = snd (outcome e (gs_value st))
    else \<exists>st'. search_files Compare tget (InternalKey u s kValueTypeForSeek) u level fs st = (None, st') \<and>
      gs_value st' = gs_value st"
  using assms(1)
proof (induction fs arbitrary: st)
  case (Cons f fs)
  have t: "sorted_wrt (\<lambda>a b. ic (entry_key a) (entry_key b) < 0) (entries f)" "\<forall>e\<in>set (entries f). entry_ok key_ok e"
    and get: "tget (fm_number f) (fm_file_size f) (InternalKey u s kValueTypeForSeek) =
      (None, map_option (\<lambda>e. (entry_key e, me_value e))
        (find (\<lambda>e. ic (InternalKey u s kValueTypeForSeek) (entry_key e) \<le> 0) (entries f)))"
    using Cons.prems assms(2,3) by (simp_all add: table_holds_def)
  obtain st2 where st2: "gs_value st2 = gs_value st"
    and step: "search_files Compare tget (InternalKey u s kValueTypeForSeek) u level (f # fs) st =
      (case tget (fm_number f) (fm_file_size f) (InternalKey u s kValueTypeForSeek) of (s', entry) \<Rightarrow>
       case (case entry of None \<Rightarrow> (Saver_kNotFound, gs_value st)
             | Some (k, v) \<Rightarrow> SaveValue Compare u k v (Saver_kNotFound, gs_value st)) of (state, val) \<Rightarrow>
         if \<not> ok s' then (Some s', st2\<lparr>gs_value := val\<rparr>)
         else case state of
                Saver_kNotFound \<Rightarrow> search_files Compare tget (InternalKey u s kValueTypeForSeek) u level fs (st2\<lparr>gs_value := val\<rparr>)
              | Saver_kFound \<Rightarrow> (Some s', st2\<lparr>gs_value := val\<rparr>)
              | Saver_kDeleted \<Rightarrow> (Some (NotFound [] []), st2\<lparr>gs_value := val\<rparr>)
              | Saver_kCorrupt \<Rightarrow> (Some (Corruption (str ''corrupted key for '') u), st2\<lparr>gs_value := val\<rparr>))"
    by (rule search_files_step)
  note found = find_visible [OF t assms(2,3)]
  show ?case
  proof (cases "\<exists>e\<in>set (entries f). visible Compare u s e")
    case True
    then obtain e where e: "find (\<lambda>e. ic (InternalKey u s kValueTypeForSeek) (entry_key e) \<le> 0) (entries f) = Some e"
        "newest Compare u s (set (entries f)) e"
      using found by auto
    have "entry_ok key_ok e" "Compare (me_key e) u = 0" using e(2) t(2) by (auto simp: newest_def visible_def)
    then have "\<exists>st'. search_files Compare tget (InternalKey u s kValueTypeForSeek) u level (f # fs) st =
        (Some (fst (outcome e (gs_value st))), st') \<and> gs_value st' = snd (outcome e (gs_value st))"
      using e(1) unfolding step get
      by (cases "me_type e") (simp_all add: SaveValue_entry ok_def outcome_def)
    then show ?thesis using True e(2) by (auto intro!: exI [of _ "[]"])
  next
    case False
    have "\<exists>st1. search_files Compare tget (InternalKey u s kValueTypeForSeek) u level (f # fs) st =
        search_files Compare tget (InternalKey u s kValueTypeForSeek) u level fs st1 \<and> gs_value st1 = gs_value st"
    proof (cases "find (\<lambda>e. ic (InternalKey u s kValueTypeForSeek) (entry_key e) \<le> 0) (entries f)")
      case None
      then show ?thesis unfolding step get by (auto simp: ok_def)
    next
      case (Some e)
      then have "Compare (me_key e) u \<noteq> 0" "entry_ok key_ok e" using found False t(2) by auto
      then show ?thesis using Some unfolding step get by (auto simp: SaveValue_entry ok_def)
    qed
    then obtain st1 where st1: "search_files Compare tget (InternalKey u s kValueTypeForSeek) u level (f # fs) st =
        search_files Compare tget (InternalKey u s kValueTypeForSeek) u level fs st1" "gs_value st1 = gs_value st"
      by blast
    have IH: "if \<exists>f\<in>set fs. \<exists>e\<in>set (entries f). visible Compare u s e
      then \<exists>pre f post e st'. fs = pre @ f # post \<and> (\<forall>g\<in>set pre. \<forall>e\<in>set (entries g). \<not> visible Compare u s e) \<and>
        newest Compare u s (set (entries f)) e \<and>
        search_files Compare tget (InternalKey u s kValueTypeForSeek) u level fs st1 = (Some (fst (outcome e (gs_value st1))), st') \<and>
        gs_value st' = snd (outcome e (gs_value st1))
      else \<exists>st'. search_files Compare tget (InternalKey u s kValueTypeForSeek) u level fs st1 = (None, st') \<and>
        gs_value st' = gs_value st1"
      using Cons.IH [of st1] Cons.prems by simp
    show ?thesis
    proof (cases "\<exists>f\<in>set fs. \<exists>e\<in>set (entries f). visible Compare u s e")
      case True
      then obtain pre g post e st' where "fs = pre @ g # post" "\<forall>g\<in>set pre. \<forall>e\<in>set (entries g). \<not> visible Compare u s e"
        "newest Compare u s (set (entries g)) e"
        "search_files Compare tget (InternalKey u s kValueTypeForSeek) u level fs st1 = (Some (fst (outcome e (gs_value st1))), st')"
        "gs_value st' = snd (outcome e (gs_value st1))"
        using IH by auto
      then show ?thesis using True False st1
        by simp (rule exI [of _ "f # pre"], auto)
    next
      case no: False
      then show ?thesis using False IH st1 by auto
    qed
  qed
qed simp

lemma table_entry:
  assumes "file_ok Compare key_ok f" "table_holds Compare key_ok tget f es" "e \<in> set es"
  shows "entry_ok key_ok e" "internal_key_ok key_ok (entry_key e)" "ExtractUserKey (entry_key e) = me_key e"
    and "Compare (smallest_user f) (me_key e) \<le> 0" "Compare (me_key e) (largest_user f) \<le> 0"
proof -
  show e: "entry_ok key_ok e" using assms by (simp add: table_holds_def)
  then show "internal_key_ok key_ok (entry_key e)" and u: "ExtractUserKey (entry_key e) = me_key e"
    by (simp_all add: internal_key_ok_def entry_key_def entry_ok_def)
  show "Compare (smallest_user f) (me_key e) \<le> 0" "Compare (me_key e) (largest_user f) \<le> 0"
    using assms(2,3) ic_user_le [of "fm_smallest f" "entry_key e"] ic_user_le [of "entry_key e" "fm_largest f"] u
    by (simp_all add: table_holds_def)
qed

text \<open>A visible entry is in a file whose range contains the user key.\<close>

lemma visible_in_range:
  assumes "file_ok Compare key_ok f" "table_holds Compare key_ok tget f es" "e \<in> set es" "visible Compare u s e" "key_ok u"
  shows "Compare u (smallest_user f) \<ge> 0" "Compare u (largest_user f) \<le> 0"
proof -
  note t = table_entry [OF assms(1-3)]
  have k: "key_ok (smallest_user f)" "key_ok (largest_user f)" "key_ok (me_key e)"
    using assms(1) t(1) ikey_user by (auto simp: file_ok_def entry_ok_def)
  have eq: "Compare (me_key e) u = 0" "Compare u (me_key e) = 0"
    using assms(4,5) k cmp_eq_sym [of u "me_key e"] by (auto simp: visible_def)
  have "Compare (smallest_user f) u \<le> 0" using cmp_trans [of "smallest_user f" "me_key e" u] t k eq assms(5) by simp
  then show "Compare u (smallest_user f) \<ge> 0" using cmp_not_less [of u "smallest_user f"] k assms(5) by simp
  show "Compare u (largest_user f) \<le> 0" using cmp_trans [of u "me_key e" "largest_user f"] t k eq assms(5) by simp
qed

lemma version_okD:
  assumes "version_ok Compare key_ok tget entries v"
  shows "f \<in> set (v_files v l) \<Longrightarrow> file_ok Compare key_ok f"
    and "f \<in> set (v_files v l) \<Longrightarrow> table_holds Compare key_ok tget f (entries f)"
    and "l > 0 \<Longrightarrow> level_sorted Compare (v_files v l)" "inj_on fm_number (set (v_files v 0))"
    and "f \<in> set (v_files v 0) \<Longrightarrow> g \<in> set (v_files v 0) \<Longrightarrow> fm_number g < fm_number f \<Longrightarrow>
      d \<in> set (entries f) \<Longrightarrow> e \<in> set (entries g) \<Longrightarrow> Compare (me_key d) (me_key e) = 0 \<Longrightarrow> me_seq e < me_seq d"
    and "l < l' \<Longrightarrow> f \<in> set (v_files v l) \<Longrightarrow> g \<in> set (v_files v l') \<Longrightarrow>
      d \<in> set (entries f) \<Longrightarrow> e \<in> set (entries g) \<Longrightarrow> Compare (me_key d) (me_key e) = 0 \<Longrightarrow> me_seq e < me_seq d"
  using assms unfolding version_ok_def distinct_map by blast+

lemma both_visible:
  assumes "version_ok Compare key_ok tget entries v" "key_ok u"
    and "f \<in> set (v_files v l)" "d \<in> set (entries f)" "visible Compare u s d"
    and "g \<in> set (v_files v l')" "e \<in> set (entries g)" "visible Compare u s e"
  shows "Compare (me_key d) (me_key e) = 0"
proof (rule visible_user_eq [OF assms(2) _ _ assms(5)])
  show "entry_ok key_ok d" "entry_ok key_ok e"
    using table_entry(1) version_okD(1,2) [OF assms(1)] assms(3-) by blast+
  show "Compare (me_key e) u = 0" using assms(8) by (simp add: visible_def)
qed

lemma level0_files:
  "files_to_search Compare ik u 0 files =
     rev (sort_key fm_number (filter (\<lambda>f. Compare u (smallest_user f) \<ge> 0 \<and> Compare u (largest_user f) \<le> 0) files))"
  by (simp add: files_to_search_def sort_newest_first_def)

lemma level0_sub: "set (files_to_search Compare ik u 0 files) \<subseteq> set files"
  unfolding level0_files by auto

lemma level0_visible:
  assumes "version_ok Compare key_ok tget entries v" "key_ok u"
    and g: "g \<in> set (v_files v 0)" "e \<in> set (entries g)" "visible Compare u s e"
  shows "g \<in> set (files_to_search Compare ik u 0 (v_files v 0))"
proof -
  have "Compare u (smallest_user g) \<ge> 0" "Compare u (largest_user g) \<le> 0"
    using visible_in_range [OF version_okD(1) [OF assms(1) g(1)] version_okD(2) [OF assms(1) g(1)] g(2,3) assms(2)] by simp_all
  then show ?thesis using g(1) unfolding level0_files by simp
qed

lemma level0_order:
  assumes "files_to_search Compare ik u 0 files = pre @ f # post" "g \<in> set post"
  shows "fm_number g \<le> fm_number f"
proof -
  have "sorted_wrt (\<lambda>a b. fm_number b \<le> fm_number a) (files_to_search Compare ik u 0 files)"
    using sorted_sort_key [of fm_number] unfolding level0_files sorted_wrt_rev sorted_map by blast
  then show ?thesis using assms by (simp add: sorted_wrt_append)
qed

lemma level0_newest:
  fixes ik :: slice
  assumes ok: "version_ok Compare key_ok tget entries v" "key_ok u"
    and split: "files_to_search Compare ik u 0 (v_files v 0) = pre @ f # post"
    and none: "\<forall>g\<in>set pre. \<forall>e\<in>set (entries g). \<not> visible Compare u s e"
    and new: "newest Compare u s (set (entries f)) e"
  shows "newest Compare u s (level_entries entries v 0) e"
proof -
  have f: "f \<in> set (v_files v 0)" using level0_sub [of ik u "v_files v 0"] unfolding split by simp
  have e: "e \<in> set (entries f)" "visible Compare u s e" using new by (auto simp: newest_def)
  have "me_seq d \<le> me_seq e" if d: "g \<in> set (v_files v 0)" "d \<in> set (entries g)" "visible Compare u s d" for d g
  proof (cases "g = f")
    case False
    have "g \<in> set (pre @ f # post)" using level0_visible [OF ok d, of ik] unfolding split .
    then have "g \<in> set post" using none d False by auto
    then have "fm_number g \<le> fm_number f" by (rule level0_order [OF split])
    moreover have "fm_number g \<noteq> fm_number f" using inj_onD [OF version_okD(4) [OF ok(1)]] f d(1) False by blast
    ultimately have "fm_number g < fm_number f" by simp
    then show ?thesis
      using version_okD(5) [OF ok(1) f d(1) _ e(1) d(2) both_visible [OF ok f e d]] by simp
  qed (use new d in \<open>simp add: newest_def\<close>)
  then show ?thesis using e f by (auto simp: newest_def level_entries_def)
qed

text \<open>The other levels: only the file that \<^verbatim>\<open>FindFile\<close> gives is searched.\<close>

lemma leveln_before:
  assumes ok: "version_ok Compare key_ok tget entries v" "key_ok u" "s \<le> kMaxSequenceNumber" "l > 0"
    and j: "j < length (v_files v l)" "e \<in> set (entries (v_files v l ! j))" "visible Compare u s e"
  defines "i \<equiv> FindFile Compare (v_files v l) (InternalKey u s kValueTypeForSeek)"
  shows "i \<le> j"
proof -
  let ?g = "v_files v l ! j" and ?ik = "InternalKey u s kValueTypeForSeek"
  have g: "?g \<in> set (v_files v l)" using j(1) by simp
  note f = version_okD(1) [OF ok(1) g] and t = version_okD(2) [OF ok(1) g]
  have "ic ?ik (entry_key e) \<le> 0" using seek_visible [OF table_entry(1) [OF f t j(2)] ok(2,3)] j(3) by blast
  moreover have "ic (entry_key e) (fm_largest ?g) \<le> 0" using t j(2) by (simp add: table_holds_def)
  ultimately have "\<not> ic (fm_largest ?g) ?ik < 0"
    using internal.cmp_trans [of ?ik "entry_key e" "fm_largest ?g"] internal.cmp_not_less [of "fm_largest ?g" ?ik]
      table_entry(2) [OF f t j(2)] f internal_key_ok_seek [OF ok(2)] by (simp add: file_ok_def ikey_internal)
  moreover have "\<forall>k<length (v_files v l). ic (fm_largest (v_files v l ! k)) ?ik < 0 \<longleftrightarrow> k < i"
    using FindFile_correct [OF version_okD(3) [OF ok(1,4)], of ?ik] version_okD(1) [OF ok(1)] internal_key_ok_seek [OF ok(2)]
    unfolding i_def by blast
  ultimately show ?thesis using j(1) by (auto simp: not_less)
qed

lemma entries_before:
  assumes ok: "version_ok Compare key_ok tget entries v" "l > 0" and ij: "i < j" "j < length (v_files v l)"
    and d: "d \<in> set (entries (v_files v l ! i))" and e: "e \<in> set (entries (v_files v l ! j))"
  shows "ic (entry_key d) (entry_key e) < 0"
proof -
  let ?f = "v_files v l ! i" and ?g = "v_files v l ! j"
  have m: "?f \<in> set (v_files v l)" "?g \<in> set (v_files v l)" using ij by simp_all
  note f = version_okD(1) [OF ok(1) m(1)] version_okD(2) [OF ok(1) m(1)]
    and g = version_okD(1) [OF ok(1) m(2)] version_okD(2) [OF ok(1) m(2)]
  have k: "internal_key_ok key_ok (entry_key d)" "internal_key_ok key_ok (fm_largest ?f)"
      "internal_key_ok key_ok (fm_smallest ?g)" "internal_key_ok key_ok (entry_key e)"
    using table_entry(2) [OF f d] table_entry(2) [OF g e] f(1) g(1) by (simp_all add: file_ok_def ikey_internal)
  have "ic (fm_largest ?f) (fm_smallest ?g) < 0"
    using level_sorted_nth(1) [OF version_okD(3) [OF ok] _ ij] version_okD(1) [OF ok(1)] by blast
  moreover have "ic (entry_key d) (fm_largest ?f) \<le> 0" "ic (fm_smallest ?g) (entry_key e) \<le> 0"
    using f(2) g(2) d e by (simp_all add: table_holds_def)
  ultimately show ?thesis
    using internal.cmp_le_less_trans [OF k(1,2,3)] internal.cmp_less_le_trans [OF k(1,3,4)] by blast
qed

lemma leveln_visible:
  assumes ok: "version_ok Compare key_ok tget entries v" "key_ok u" "s \<le> kMaxSequenceNumber" "l > 0"
    and j: "j < length (v_files v l)" "e \<in> set (entries (v_files v l ! j))" "visible Compare u s e"
  defines "i \<equiv> FindFile Compare (v_files v l) (InternalKey u s kValueTypeForSeek)"
  shows "\<exists>d\<in>set (entries (v_files v l ! i)). visible Compare u s d"
proof -
  let ?f = "v_files v l ! i" and ?ik = "InternalKey u s kValueTypeForSeek"
  have le: "i \<le> j" unfolding i_def by (rule leveln_before [OF ok j])
  show ?thesis
  proof (cases "i = j")
    case False
    then have lt: "i < j" "i < length (v_files v l)" using le j(1) by simp_all
    then have m: "?f \<in> set (v_files v l)" by simp
    note f = version_okD(1) [OF ok(1) m] version_okD(2) [OF ok(1) m]
    obtain d where d: "d \<in> set (entries ?f)" "entry_key d = fm_largest ?f" using f(2) by (auto simp: table_holds_def)
    note dk = table_entry [OF f d(1)]
    have "\<not> ic (fm_largest ?f) ?ik < 0"
      using FindFile_correct [OF version_okD(3) [OF ok(1,4)], of ?ik] version_okD(1) [OF ok(1)] internal_key_ok_seek [OF ok(2)] lt(2)
      unfolding i_def by blast
    then have "ic ?ik (entry_key d) \<le> 0"
      using internal.cmp_not_less [of "fm_largest ?f" ?ik] f(1) internal_key_ok_seek [OF ok(2)] d(2)
      by (simp add: file_ok_def ikey_internal)
    then consider "Compare u (me_key d) < 0" | "visible Compare u s d" using seek_visible [OF dk(1) ok(2,3)] by blast
    then show ?thesis
    proof cases
      case 1
      have g: "v_files v l ! j \<in> set (v_files v l)" using j(1) by simp
      have ek: "entry_ok key_ok e" by (rule table_entry(1) [OF version_okD(1) [OF ok(1) g] version_okD(2) [OF ok(1) g] j(2)])
      have "Compare (me_key d) (me_key e) \<le> 0"
        using entry_order [OF dk(1) ek entries_before [OF ok(1,4) lt(1) j(1) d(1) j(2)]] by simp
      then have "Compare u (me_key e) < 0"
        using cmp_less_le_trans [of u "me_key d" "me_key e"] 1 dk(1) ek ok(2) by (simp add: entry_ok_def)
      then show ?thesis using j(3) ek ok(2) cmp_eq_sym [of u "me_key e"] by (simp add: visible_def entry_ok_def)
    qed (use d in blast)
  qed (use j in blast)
qed

lemma leveln_newest:
  assumes ok: "version_ok Compare key_ok tget entries v" "key_ok u" "s \<le> kMaxSequenceNumber" "l > 0"
  defines "i \<equiv> FindFile Compare (v_files v l) (InternalKey u s kValueTypeForSeek)"
  assumes i: "i < length (v_files v l)" and new: "newest Compare u s (set (entries (v_files v l ! i))) e"
  shows "newest Compare u s (level_entries entries v l) e"
proof -
  have e: "e \<in> set (entries (v_files v l ! i))" "visible Compare u s e" using new by (auto simp: newest_def)
  have f: "v_files v l ! i \<in> set (v_files v l)" using i by simp
  have "me_seq d \<le> me_seq e" if d: "g \<in> set (v_files v l)" "d \<in> set (entries g)" "visible Compare u s d" for d g
  proof -
    obtain j where j: "j < length (v_files v l)" "g = v_files v l ! j" using d(1) by (auto simp: in_set_conv_nth)
    have le: "i \<le> j" unfolding i_def by (rule leveln_before [OF ok j(1)]) (use d j in simp_all)
    show ?thesis
    proof (cases "i = j")
      case False
      then have "ic (entry_key e) (entry_key d) < 0"
        using entries_before [OF ok(1,4), of i j e d] le j d e by simp
      moreover have "entry_ok key_ok e" "entry_ok key_ok d"
        using table_entry(1) [OF version_okD(1) [OF ok(1) f] version_okD(2) [OF ok(1) f] e(1)]
          table_entry(1) [OF version_okD(1) [OF ok(1) d(1)] version_okD(2) [OF ok(1) d(1)] d(2)] by simp_all
      ultimately show ?thesis
        using entry_order both_visible [OF ok(1,2) f e d] by blast
    qed (use new d j in \<open>simp add: newest_def\<close>)
  qed
  then show ?thesis using e f by (auto simp: newest_def level_entries_def)
qed

lemma level_search:
  fixes l :: nat and st :: GetState
  assumes ok: "version_ok Compare key_ok tget entries v" "key_ok u" "s \<le> kMaxSequenceNumber"
  defines "ik \<equiv> InternalKey u s kValueTypeForSeek"
  defines "res \<equiv> search_files Compare tget ik u l (files_to_search Compare ik u l (v_files v l)) st"
  shows "if \<exists>e\<in>level_entries entries v l. visible Compare u s e
    then \<exists>e st'. newest Compare u s (level_entries entries v l) e \<and>
      res = (Some (fst (outcome e (gs_value st))), st') \<and> gs_value st' = snd (outcome e (gs_value st))
    else \<exists>st'. res = (None, st') \<and> gs_value st' = gs_value st"
proof -
  let ?F = "v_files v l" and ?fs = "files_to_search Compare ik u l (v_files v l)" and ?i = "FindFile Compare (v_files v l) ik"
  have sub: "set ?fs \<subseteq> set ?F"
    by (cases "l = 0") (auto simp: level0_files files_to_search_def [of _ _ _ l] Let_def)
  then have "\<forall>f\<in>set ?fs. table_holds Compare key_ok tget f (entries f)" using version_okD(2) [OF ok(1)] by blast
  note sf = search_files_correct [OF this ok(2,3), where level = l and st = st, folded ik_def, folded res_def]
  have vis: "(\<exists>f\<in>set ?fs. \<exists>e\<in>set (entries f). visible Compare u s e) \<longleftrightarrow> (\<exists>e\<in>level_entries entries v l. visible Compare u s e)"
  proof
    assume "\<exists>e\<in>level_entries entries v l. visible Compare u s e"
    then obtain g e where g: "g \<in> set ?F" "e \<in> set (entries g)" "visible Compare u s e" by (auto simp: level_entries_def)
    show "\<exists>f\<in>set ?fs. \<exists>e\<in>set (entries f). visible Compare u s e"
    proof (cases "l = 0")
      case True
      then show ?thesis using level0_visible [OF ok(1,2) _ g(2,3), of ik] g by auto
    next
      case False
      obtain j where j: "j < length ?F" "g = ?F ! j" using g(1) by (auto simp: in_set_conv_nth)
      have l: "l > 0" using False by simp
      have "?i \<le> j" unfolding ik_def by (rule leveln_before [OF ok l j(1)]) (use g j in simp_all)
      then have i: "?i < length ?F" "?F ! ?i \<in> set ?F" using j by simp_all
      obtain d where d: "d \<in> set (entries (?F ! ?i))" "visible Compare u s d"
        using leveln_visible [OF ok l j(1)] g j unfolding ik_def by blast
      have "\<not> Compare u (smallest_user (?F ! ?i)) < 0"
        using visible_in_range(1) [OF version_okD(1) [OF ok(1) i(2)] version_okD(2) [OF ok(1) i(2)] d ok(2)] by simp
      then have "?fs = [?F ! ?i]" using False i by (simp add: files_to_search_def Let_def)
      then show ?thesis using d by auto
    qed
  qed (use sub in \<open>auto simp: level_entries_def\<close>)
  show ?thesis
  proof (cases "\<exists>e\<in>level_entries entries v l. visible Compare u s e")
    case True
    then obtain pre f post e st' where r: "?fs = pre @ f # post" "\<forall>g\<in>set pre. \<forall>e\<in>set (entries g). \<not> visible Compare u s e"
        "newest Compare u s (set (entries f)) e" "res = (Some (fst (outcome e (gs_value st))), st')"
        "gs_value st' = snd (outcome e (gs_value st))"
      using sf vis by auto
    have "newest Compare u s (level_entries entries v l) e"
    proof (cases "l = 0")
      case True
      then show ?thesis using level0_newest [OF ok(1,2) _ r(2,3)] r(1) by simp
    next
      case False
      then have "?i < length ?F" "f = ?F ! ?i"
        using r(1) by (auto simp: files_to_search_def Let_def Cons_eq_append_conv split: if_splits)
      then show ?thesis using leveln_newest [OF ok, of l e] r(3) False unfolding ik_def by simp
    qed
    then show ?thesis using True r(4,5) by auto
  next
    case False
    then show ?thesis using sf vis by simp
  qed
qed

lemma get_levels_correct:
  assumes ok: "version_ok Compare key_ok tget entries v" "key_ok u" "s \<le> kMaxSequenceNumber" and "sorted_wrt (<) ls"
  shows "if \<exists>e\<in>(\<Union>l\<in>set ls. level_entries entries v l). visible Compare u s e
    then \<exists>e st'. newest Compare u s (\<Union>l\<in>set ls. level_entries entries v l) e \<and>
      get_levels Compare tget (InternalKey u s kValueTypeForSeek) u v ls st = (fst (outcome e (gs_value st)), st') \<and>
      gs_value st' = snd (outcome e (gs_value st))
    else \<exists>st'. get_levels Compare tget (InternalKey u s kValueTypeForSeek) u v ls st = (NotFound [] [], st') \<and>
      gs_value st' = gs_value st"
  using assms(4)
proof (induction ls arbitrary: st)
  case (Cons l ls)
  let ?ik = "InternalKey u s kValueTypeForSeek"
  let ?res = "search_files Compare tget ?ik u l (files_to_search Compare ?ik u l (v_files v l)) st"
  let ?R = "\<Union>l\<in>set ls. level_entries entries v l"
  note ls = level_search [OF ok, of l st]
  show ?case
  proof (cases "\<exists>e\<in>level_entries entries v l. visible Compare u s e")
    case True
    then obtain e st' where e: "newest Compare u s (level_entries entries v l) e"
        "?res = (Some (fst (outcome e (gs_value st))), st')" "gs_value st' = snd (outcome e (gs_value st))"
      using ls by auto
    obtain f where f: "f \<in> set (v_files v l)" "e \<in> set (entries f)" "visible Compare u s e"
      using e(1) by (auto simp: newest_def level_entries_def)
    have "me_seq d \<le> me_seq e" if d: "d \<in> ?R" "visible Compare u s d" for d
    proof -
      obtain l' g where g: "l' \<in> set ls" "g \<in> set (v_files v l')" "d \<in> set (entries g)"
        using d(1) by (auto simp: level_entries_def)
      have "l < l'" using Cons.prems g(1) by simp
      from version_okD(6) [OF ok(1) this f(1) g(2) f(2) g(3) both_visible [OF ok(1,2) f g(2,3) d(2)]]
      show ?thesis by simp
    qed
    then have "newest Compare u s (\<Union>l\<in>set (l # ls). level_entries entries v l) e"
      using e(1) by (auto simp: newest_def)
    moreover have "v_files v l \<noteq> []" using f(1) by auto
    ultimately show ?thesis using True e(2,3) by auto
  next
    case False
    obtain st1 where st1: "get_levels Compare tget ?ik u v (l # ls) st = get_levels Compare tget ?ik u v ls st1"
        "gs_value st1 = gs_value st"
      using ls False by (cases "v_files v l = []") auto
    have n: "newest Compare u s (\<Union>l\<in>set (l # ls). level_entries entries v l) e \<longleftrightarrow> newest Compare u s ?R e" for e
      using False by (auto simp: newest_def)
    have v: "(\<exists>e\<in>(\<Union>l\<in>set (l # ls). level_entries entries v l). visible Compare u s e) \<longleftrightarrow> (\<exists>e\<in>?R. visible Compare u s e)"
      using False by auto
    show ?thesis using Cons.IH [of st1] Cons.prems unfolding n v st1 by simp
  qed
qed simp

end

text \<open>The entries of a version.\<close>

definition version_entries :: "(FileMetaData \<Rightarrow> mem_entry list) \<Rightarrow> Version \<Rightarrow> mem_entry set" where
  "version_entries entries v = (\<Union>l<kNumLevels. level_entries entries v l)"


text \<open>A small version: a deletion in level 0 over a value in level 1.\<close>

definition sample_new :: mem_entry where
  "sample_new = \<lparr>me_key = [107], me_seq = 9, me_type = kTypeDeletion, me_value = []\<rparr>"

definition sample_old :: mem_entry where
  "sample_old = \<lparr>me_key = [107], me_seq = 5, me_type = kTypeValue, me_value = [118]\<rparr>"

definition sample_entries :: "FileMetaData \<Rightarrow> mem_entry list" where
  "sample_entries f = (if fm_number f = 2 then [sample_new] else [sample_old])"

definition sample_tget :: table_get where
  "sample_tget n sz ik = (None, map_option (\<lambda>e. (entry_key e, me_value e))
     (find (\<lambda>e. icompare Bytewise_Compare ik (entry_key e) \<le> 0) (if n = 2 then [sample_new] else [sample_old])))"

definition sample_version :: Version where
  "sample_version = make_Version\<lparr>v_files := \<lambda>l.
     if l = 0 then [make_FileMetaData 2 100 (entry_key sample_new) (entry_key sample_new)]
     else if l = 1 then [make_FileMetaData 1 100 (entry_key sample_old) (entry_key sample_old)] else []\<rparr>"

lemma sample_keys:
  "entry_ok (\<lambda>_. True) sample_new" "entry_ok (\<lambda>_. True) sample_old"
  "ikey_ok (\<lambda>_. True) (entry_key sample_new)" "ikey_ok (\<lambda>_. True) (entry_key sample_old)"
  "icompare Bytewise_Compare (entry_key e) (entry_key e) = 0"
  by (simp_all add: entry_ok_def sample_new_def sample_old_def kMaxSequenceNumber_def ikey_ok_def internal_key_ok_def
      entry_key_def kValueTypeForSeek_def Pack_less_iff not_less [symmetric])
    (simp add: icmp.internal.cmp_refl internal_key_ok_def)

lemma sample_version_ok: "version_ok Bytewise_Compare (\<lambda>_. True) sample_tget sample_entries sample_version"
  unfolding version_ok_def
proof (intro conjI allI impI ballI)
  fix l f
  assume "f \<in> set (v_files sample_version l)"
  then show "file_ok Bytewise_Compare (\<lambda>_. True) f" "table_holds Bytewise_Compare (\<lambda>_. True) sample_tget f (sample_entries f)"
    using sample_keys
    by (auto simp: sample_version_def make_Version_def file_ok_def make_FileMetaData_def table_holds_def sample_entries_def
        sample_tget_def split: if_splits)
qed (auto simp: sample_version_def level_sorted_def sample_entries_def make_FileMetaData_def sample_new_def sample_old_def
    split: if_splits)


text \<open>C5: \<^verbatim>\<open>GetOverlappingInputs\<close> returns.  Its result holds every file of the level that meets the range, and only files
  of the level; above level 0 it is exactly the files that meet the range, in order; at level 0 it is closed: no
  other file of the level shares a user key with one of its files.\<close>

theorem overlapping_inputs_closed:
  assumes "user_comparator ucmp key_ok sep succ" "\<forall>f\<in>set (v_files v level). file_ok ucmp key_ok f"
    and "internal_key_ok key_ok b" "internal_key_ok key_ok e"
  shows "\<exists>inputs. GetOverlappingInputs ucmp v level (Some b) (Some e) = Some inputs \<and>
    set inputs \<subseteq> set (v_files v level) \<and>
    (\<forall>f\<in>set (v_files v level). meets ucmp (ExtractUserKey b) (ExtractUserKey e) f \<longrightarrow> f \<in> set inputs) \<and>
    (level \<noteq> 0 \<longrightarrow> inputs = filter (meets ucmp (ExtractUserKey b) (ExtractUserKey e)) (v_files v level)) \<and>
    (level = 0 \<longrightarrow> (\<forall>f\<in>set inputs. \<forall>g\<in>set (v_files v level).
       meets ucmp (smallest_user g) (largest_user g) f \<longrightarrow> g \<in> set inputs))"
  by (rule user_comparator.overlapping_inputs [OF assms])

theorem overlapping_inputs_closed_witness:
  "\<exists>inputs. GetOverlappingInputs Bytewise_Compare sample_version 0 (Some (entry_key sample_new)) (Some (entry_key sample_new)) =
     Some inputs \<and> set inputs \<subseteq> set (v_files sample_version 0)"
proof -
  have "\<forall>f\<in>set (v_files sample_version 0). file_ok Bytewise_Compare (\<lambda>_. True) f"
    using sample_version_ok by (simp add: version_ok_def)
  moreover have "internal_key_ok (\<lambda>_. True) (entry_key sample_new)" using sample_keys(3) by (simp add: ikey_ok_def)
  ultimately show ?thesis
    using overlapping_inputs_closed [OF icmp.user_comparator_axioms, of sample_version 0 "entry_key sample_new" "entry_key sample_new"]
    by blast
qed



end
