(* ===== verification/Version_Builder.thy ===== *)
theory Version_Builder
  imports Version_Get
begin

text \<open>
  \<^verbatim>\<open>VersionSet::Builder\<close> of \<^verbatim>\<open>db/version_set.cpp\<close>: applying edits to the files of a version.  The set of
  added files of a level, ordered by \<^verbatim>\<open>BySmallestKey\<close>, is the sorted list of its elements.  The reference
  counts of the files and of the base version are not modelled.  \<open>None\<close> is a failed assertion.
\<close>

definition BySmallestKey :: "(slice \<Rightarrow> slice \<Rightarrow> int) \<Rightarrow> FileMetaData \<Rightarrow> FileMetaData \<Rightarrow> bool" where
  "BySmallestKey ucmp f1 f2 =
     (let r = icompare ucmp (fm_smallest f1) (fm_smallest f2)
      in if r \<noteq> 0 then r < 0 else fm_number f1 < fm_number f2)"

text \<open>\<^verbatim>\<open>FileSet::insert\<close>: an element equivalent to one of the set is not inserted.\<close>

fun FileSet_insert :: "(slice \<Rightarrow> slice \<Rightarrow> int) \<Rightarrow> FileMetaData \<Rightarrow> FileMetaData list \<Rightarrow> FileMetaData list" where
  "FileSet_insert ucmp f [] = [f]"
| "FileSet_insert ucmp f (x # xs) =
     (if BySmallestKey ucmp f x then f # x # xs
      else if BySmallestKey ucmp x f then x # FileSet_insert ucmp f xs
      else x # xs)"

record LevelState =
  ls_deleted_files :: "u64 set"
  ls_added_files :: "FileMetaData list"

record Builder =
  b_base :: Version
  b_levels :: "nat \<Rightarrow> LevelState"

definition make_Builder :: "Version \<Rightarrow> Builder" where
  "make_Builder base = \<lparr>b_base = base, b_levels = \<lambda>_. \<lparr>ls_deleted_files = {}, ls_added_files = []\<rparr>\<rparr>"

definition delete_in_level :: "nat \<times> u64 \<Rightarrow> (nat \<Rightarrow> LevelState) \<Rightarrow> nat \<Rightarrow> LevelState" where
  "delete_in_level x levels =
     (case x of (level, number) \<Rightarrow>
        levels(level := (levels level)\<lparr>ls_deleted_files := insert number (ls_deleted_files (levels level))\<rparr>))"

text \<open>A new file starts with one allowed seek for every 16 KB, at least 100; the quotient is narrowed to
  \<^verbatim>\<open>int\<close>.\<close>

definition initial_seeks :: "u64 \<Rightarrow> int" where
  "initial_seeks file_size =
     (let seeks = sint (ucast (file_size div 16384) :: u32) in if seeks < 100 then 100 else seeks)"

definition added_file :: "FileMetaData \<Rightarrow> FileMetaData" where
  "added_file f = f\<lparr>fm_refs := 1, fm_allowed_seeks := initial_seeks (fm_file_size f)\<rparr>"

definition add_in_level ::
  "(slice \<Rightarrow> slice \<Rightarrow> int) \<Rightarrow> nat \<times> FileMetaData \<Rightarrow> (nat \<Rightarrow> LevelState) \<Rightarrow> nat \<Rightarrow> LevelState" where
  "add_in_level ucmp x levels =
     (case x of (level, m) \<Rightarrow>
        let f = added_file m; ls = levels level
        in levels(level := ls\<lparr>ls_deleted_files := ls_deleted_files ls - {fm_number f},
                             ls_added_files := FileSet_insert ucmp f (ls_added_files ls)\<rparr>))"

text \<open>\<^verbatim>\<open>Apply\<close> also sets the compaction pointers of the version set.\<close>

definition Builder_Apply ::
  "(slice \<Rightarrow> slice \<Rightarrow> int) \<Rightarrow> VersionEdit \<Rightarrow> Builder \<times> (nat \<Rightarrow> slice) \<Rightarrow> Builder \<times> (nat \<Rightarrow> slice)" where
  "Builder_Apply ucmp edit st =
     (case st of (b, compact_pointer) \<Rightarrow>
        let pointers = fold (\<lambda>(level, key) p. p(level := key)) (ve_compact_pointers edit) compact_pointer;
            levels = fold delete_in_level (ve_deleted_files edit) (b_levels b);
            levels = fold (add_in_level ucmp) (ve_new_files edit) levels
        in (b\<lparr>b_levels := levels\<rparr>, pointers))"

definition MaybeAddFile ::
  "(slice \<Rightarrow> slice \<Rightarrow> int) \<Rightarrow> u64 set \<Rightarrow> nat \<Rightarrow> FileMetaData \<Rightarrow> FileMetaData list option \<Rightarrow> FileMetaData list option" where
  "MaybeAddFile ucmp deleted_files level f files =
     (case files of
        None \<Rightarrow> None
      | Some fs \<Rightarrow>
          if fm_number f \<in> deleted_files then Some fs
          else if level > 0 \<and> fs \<noteq> [] \<and> \<not> icompare ucmp (fm_largest (last fs)) (fm_smallest f) < 0 then None
          else Some (fs @ [f]))"

text \<open>\<^verbatim>\<open>std::upper_bound\<close> on the sorted base files: the files not after the added one come first.\<close>

fun save_level ::
  "(slice \<Rightarrow> slice \<Rightarrow> int) \<Rightarrow> u64 set \<Rightarrow> nat \<Rightarrow> FileMetaData list \<Rightarrow> FileMetaData list \<Rightarrow> FileMetaData list option \<Rightarrow>
   FileMetaData list option" where
  "save_level ucmp deleted_files level base [] files = fold (MaybeAddFile ucmp deleted_files level) base files"
| "save_level ucmp deleted_files level base (a # added) files =
     (let smaller = takeWhile (\<lambda>b. \<not> BySmallestKey ucmp a b) base;
          rest = dropWhile (\<lambda>b. \<not> BySmallestKey ucmp a b) base;
          files = fold (MaybeAddFile ucmp deleted_files level) smaller files
      in save_level ucmp deleted_files level rest added (MaybeAddFile ucmp deleted_files level a files))"

definition no_overlap_check :: "(slice \<Rightarrow> slice \<Rightarrow> int) \<Rightarrow> nat \<Rightarrow> FileMetaData list \<Rightarrow> bool" where
  "no_overlap_check ucmp level files =
     (level > 0 \<longrightarrow> list_all (\<lambda>i. \<not> icompare ucmp (fm_largest (files ! (i - 1))) (fm_smallest (files ! i)) \<ge> 0)
        [1..<length files])"

definition Builder_SaveTo :: "(slice \<Rightarrow> slice \<Rightarrow> int) \<Rightarrow> Builder \<Rightarrow> Version \<Rightarrow> Version option" where
  "Builder_SaveTo ucmp b v =
     (let saved = (\<lambda>level. save_level ucmp (ls_deleted_files (b_levels b level)) level (v_files (b_base b) level)
                     (ls_added_files (b_levels b level)) (Some (v_files v level)))
      in if list_all (\<lambda>level. saved level \<noteq> None \<and> no_overlap_check ucmp level (the (saved level))) [0..<kNumLevels]
         then Some (v\<lparr>v_files := \<lambda>level. if level < kNumLevels then the (saved level) else v_files v level\<rparr>)
         else None)"

text \<open>Edits applied one at a time, each with a builder on the version before it, as \<^verbatim>\<open>LogAndApply\<close> does.\<close>

fun version_chain :: "(slice \<Rightarrow> slice \<Rightarrow> int) \<Rightarrow> Version \<Rightarrow> VersionEdit list \<Rightarrow> Version option" where
  "version_chain ucmp base [] = Some base"
| "version_chain ucmp base (e # es) =
     (case Builder_SaveTo ucmp (fst (Builder_Apply ucmp e (make_Builder base, \<lambda>_. []))) make_Version of
        None \<Rightarrow> None | Some v \<Rightarrow> version_chain ucmp v es)"

subsection \<open>The effect of an edit on a level\<close>

text \<open>The files an edit adds to a level, and the set of files of a level after an edit.\<close>

definition files_at :: "nat \<Rightarrow> (nat \<times> FileMetaData) list \<Rightarrow> FileMetaData list" where
  "files_at l ns = map (added_file \<circ> snd) (filter (\<lambda>x. fst x = l) ns)"

definition edit_level :: "nat \<Rightarrow> VersionEdit \<Rightarrow> FileMetaData set \<Rightarrow> FileMetaData set" where
  "edit_level l e S = {f \<in> S. (l, fm_number f) \<notin> set (ve_deleted_files e)} \<union> set (files_at l (ve_new_files e))"

definition new_at :: "nat \<Rightarrow> VersionEdit list \<Rightarrow> FileMetaData list" where
  "new_at l es = concat (map (\<lambda>e. files_at l (ve_new_files e)) es)"

definition Builder_edits ::
  "(slice \<Rightarrow> slice \<Rightarrow> int) \<Rightarrow> VersionEdit list \<Rightarrow> Builder \<times> (nat \<Rightarrow> slice) \<Rightarrow> Builder \<times> (nat \<Rightarrow> slice)" where
  "Builder_edits ucmp es st = fold (Builder_Apply ucmp) es st"

text \<open>Files that come one after the other in the order of their smallest keys do not overlap.\<close>

definition disjoint_files :: "(slice \<Rightarrow> slice \<Rightarrow> int) \<Rightarrow> FileMetaData set \<Rightarrow> bool" where
  "disjoint_files ucmp S \<longleftrightarrow>
     (\<forall>f\<in>S. \<forall>g\<in>S. BySmallestKey ucmp f g \<longrightarrow> icompare ucmp (fm_largest f) (fm_smallest g) < 0)"

text \<open>What the files and the edits must satisfy: well-formed files, each number added to a level at most once, and
  no overlap above level 0 after any of the edits.\<close>

definition edits_ok ::
  "(slice \<Rightarrow> slice \<Rightarrow> int) \<Rightarrow> (slice \<Rightarrow> bool) \<Rightarrow> (nat \<Rightarrow> FileMetaData list) \<Rightarrow> VersionEdit list \<Rightarrow> bool" where
  "edits_ok ucmp key_ok files es \<longleftrightarrow>
     (\<forall>l<kNumLevels. (\<forall>f \<in> set (files l) \<union> set (new_at l es). file_ok ucmp key_ok f) \<and>
        distinct (map fm_number (files l @ new_at l es)) \<and> sorted_wrt (BySmallestKey ucmp) (files l) \<and>
        (0 < l \<longrightarrow> (\<forall>k\<le>length es. disjoint_files ucmp (fold (edit_level l) (take k es) (set (files l))))))"

lemma fold_delete:
  "fold delete_in_level ds levels l =
     (levels l)\<lparr>ls_deleted_files := ls_deleted_files (levels l) \<union> {n. (l, n) \<in> set ds}\<rparr>"
  by (induction ds arbitrary: levels) (auto simp: delete_in_level_def split: prod.splits intro!: LevelState.equality)

lemma fold_add:
  "fold (add_in_level ucmp) ns levels l =
     (levels l)\<lparr>ls_deleted_files := ls_deleted_files (levels l) - fm_number ` set (files_at l ns),
       ls_added_files := fold (FileSet_insert ucmp) (files_at l ns) (ls_added_files (levels l))\<rparr>"
  by (induction ns arbitrary: levels) (auto simp: add_in_level_def files_at_def Let_def split: prod.splits intro!: LevelState.equality)

lemma Apply_level:
  "b_levels (fst (Builder_Apply ucmp e (b, cp))) l =
     \<lparr>ls_deleted_files = (ls_deleted_files (b_levels b l) \<union> {n. (l, n) \<in> set (ve_deleted_files e)}) -
        fm_number ` set (files_at l (ve_new_files e)),
      ls_added_files = fold (FileSet_insert ucmp) (files_at l (ve_new_files e)) (ls_added_files (b_levels b l))\<rparr>"
  by (simp add: Builder_Apply_def Let_def fold_add fold_delete)

lemma Apply_base: "b_base (fst (Builder_Apply ucmp e (b, cp))) = b_base b"
  by (simp add: Builder_Apply_def Let_def)

text \<open>The merge of the base files with the added files, before the deleted ones are dropped.\<close>

fun merge_files :: "(slice \<Rightarrow> slice \<Rightarrow> int) \<Rightarrow> FileMetaData list \<Rightarrow> FileMetaData list \<Rightarrow> FileMetaData list" where
  "merge_files ucmp base [] = base"
| "merge_files ucmp base (a # added) =
     takeWhile (\<lambda>b. \<not> BySmallestKey ucmp a b) base @ a #
     merge_files ucmp (dropWhile (\<lambda>b. \<not> BySmallestKey ucmp a b) base) added"

lemma save_level_merge:
  "save_level ucmp D l base added files = fold (MaybeAddFile ucmp D l) (merge_files ucmp base added) files"
  by (induction added arbitrary: base files) (simp_all add: Let_def)

lemma set_merge_files: "set (merge_files ucmp base added) = set base \<union> set added"
proof (induction added arbitrary: base)
  case (Cons a added)
  have "set base = set (takeWhile (\<lambda>b. \<not> BySmallestKey ucmp a b) base) \<union> set (dropWhile (\<lambda>b. \<not> BySmallestKey ucmp a b) base)"
    by (metis set_append takeWhile_dropWhile_id)
  then show ?case using Cons by auto
qed simp

lemma fold_MaybeAddFile:
  assumes "l > 0 \<longrightarrow> level_sorted ucmp (fs @ filter (\<lambda>f. fm_number f \<notin> D) xs)"
  shows "fold (MaybeAddFile ucmp D l) xs (Some fs) = Some (fs @ filter (\<lambda>f. fm_number f \<notin> D) xs)"
  using assms
proof (induction xs arbitrary: fs)
  case (Cons x xs)
  show ?case
  proof (cases "fm_number x \<in> D")
    case False
    then have "MaybeAddFile ucmp D l x (Some fs) = Some (fs @ [x])"
      using Cons.prems by (cases fs rule: rev_cases) (auto simp: MaybeAddFile_def level_sorted_def sorted_wrt_append)
    then show ?thesis using Cons.IH [of "fs @ [x]"] Cons.prems False by simp
  qed (use Cons in \<open>simp add: MaybeAddFile_def\<close>)
qed simp

lemma level_sorted_check:
  assumes "level_sorted ucmp files"
  shows "no_overlap_check ucmp l files"
proof -
  have "icompare ucmp (fm_largest (files ! (i - 1))) (fm_smallest (files ! i)) < 0" if "1 \<le> i" "i < length files" for i
    using assms that by (simp add: level_sorted_def sorted_wrt_iff_nth_less)
  then show ?thesis by (force simp: no_overlap_check_def list_all_iff)
qed

subsection \<open>The order of the files\<close>

context user_comparator
begin

abbreviation before :: "FileMetaData \<Rightarrow> FileMetaData \<Rightarrow> bool" where
  "before \<equiv> BySmallestKey Compare"

lemma before_irrefl: "file_ok Compare key_ok f \<Longrightarrow> \<not> before f f"
  by (simp add: BySmallestKey_def file_ok_def ikey_internal internal.cmp_refl)

lemma before_iff:
  "before f g \<longleftrightarrow> ic (fm_smallest f) (fm_smallest g) < 0 \<or>
     ic (fm_smallest f) (fm_smallest g) = 0 \<and> fm_number f < fm_number g"
  by (auto simp: BySmallestKey_def Let_def)

lemma before_trans:
  assumes "file_ok Compare key_ok f" "file_ok Compare key_ok g" "file_ok Compare key_ok h" "before f g" "before g h"
  shows "before f h"
proof -
  have k: "internal_key_ok key_ok (fm_smallest f)" "internal_key_ok key_ok (fm_smallest g)" "internal_key_ok key_ok (fm_smallest h)"
    using assms(1-3) by (simp_all add: file_ok_def ikey_internal)
  have eq: "ic (fm_smallest f) (fm_smallest h) \<le> 0" if "ic (fm_smallest f) (fm_smallest g) = 0" "ic (fm_smallest g) (fm_smallest h) = 0"
    using internal.cmp_trans [OF k] that by simp
  show ?thesis
    using assms(4,5) internal.cmp_less_le_trans [OF k] internal.cmp_le_less_trans [OF k] eq
    unfolding before_iff by (cases "ic (fm_smallest f) (fm_smallest h) < 0") auto
qed

lemma before_total:
  assumes "file_ok Compare key_ok f" "file_ok Compare key_ok g" "fm_number f \<noteq> fm_number g"
  shows "before f g \<or> before g f"
proof -
  have k: "internal_key_ok key_ok (fm_smallest f)" "internal_key_ok key_ok (fm_smallest g)"
    using assms(1-2) by (simp_all add: file_ok_def ikey_internal)
  then show ?thesis
    using assms(3) internal.cmp_flip [OF k] internal.cmp_eq_sym [OF k] by (auto simp: BySmallestKey_def Let_def)
qed

lemma before_antisym:
  assumes "file_ok Compare key_ok f" "file_ok Compare key_ok g" "before f g"
  shows "\<not> before g f"
  using before_trans [OF assms(1,2,1,3)] before_irrefl [OF assms(1)] by blast


abbreviation files_ok :: "FileMetaData set \<Rightarrow> bool" where
  "files_ok F \<equiv> \<forall>f\<in>F. file_ok Compare key_ok f"

lemma FileSet_insert_correct:
  assumes "sorted_wrt before xs" "files_ok (insert f (set xs))" "fm_number f \<notin> fm_number ` set xs"
  shows "sorted_wrt before (FileSet_insert Compare f xs) \<and> set (FileSet_insert Compare f xs) = insert f (set xs)"
  using assms
proof (induction xs)
  case (Cons x xs)
  have ok: "file_ok Compare key_ok f" "file_ok Compare key_ok x" and xs: "\<forall>y\<in>set xs. file_ok Compare key_ok y \<and> before x y"
    using Cons.prems by auto
  have cmp: "before f x \<or> before x f" using before_total [OF ok] Cons.prems(3) by auto
  show ?case
  proof (cases "before f x")
    case True
    then have "\<forall>y\<in>set xs. before f y" using before_trans [OF ok _ True] xs by blast
    then show ?thesis using True Cons.prems by auto
  next
    case False
    then show ?thesis using cmp Cons xs by auto
  qed
qed simp

lemma fold_FileSet_insert:
  assumes "sorted_wrt before xs" "files_ok (set (fs @ xs))" "distinct (map fm_number fs)"
    and "fm_number ` set fs \<inter> fm_number ` set xs = {}"
  shows "sorted_wrt before (fold (FileSet_insert Compare) fs xs) \<and> set (fold (FileSet_insert Compare) fs xs) = set fs \<union> set xs"
  using assms
proof (induction fs arbitrary: xs)
  case (Cons f fs)
  have i: "sorted_wrt before (FileSet_insert Compare f xs)" "set (FileSet_insert Compare f xs) = insert f (set xs)"
    using FileSet_insert_correct [OF Cons.prems(1), of f] Cons.prems by auto
  have "fm_number ` set fs \<inter> fm_number ` set (FileSet_insert Compare f xs) = {}"
    using Cons.prems(3,4) i(2) by auto
  then show ?case using Cons.IH [OF i(1)] i(2) Cons.prems by auto
qed simp

lemma upper_bound_split:
  assumes "sorted_wrt before base" "files_ok (insert a (set base))" "fm_number a \<notin> fm_number ` set base"
  shows "\<forall>b\<in>set (takeWhile (\<lambda>b. \<not> before a b) base). before b a"
    and "\<forall>b\<in>set (dropWhile (\<lambda>b. \<not> before a b) base). before a b"
proof -
  show "\<forall>b\<in>set (takeWhile (\<lambda>b. \<not> before a b) base). before b a"
  proof
    fix b assume b: "b \<in> set (takeWhile (\<lambda>b. \<not> before a b) base)"
    then have "b \<in> set base" "\<not> before a b" by (auto dest: set_takeWhileD)
    moreover have "fm_number a \<noteq> fm_number b" using assms(3) \<open>b \<in> set base\<close> by auto
    ultimately show "before b a" using before_total [of a b] assms(2) by blast
  qed
  show "\<forall>b\<in>set (dropWhile (\<lambda>b. \<not> before a b) base). before a b"
  proof (cases "dropWhile (\<lambda>b. \<not> before a b) base")
    case (Cons c rest)
    have c: "before a c" using hd_dropWhile [of "\<lambda>b. \<not> before a b" base] Cons by simp
    have base: "base = takeWhile (\<lambda>b. \<not> before a b) base @ c # rest" using Cons by (metis takeWhile_dropWhile_id)
    then have "\<forall>b\<in>set rest. before c b" using assms(1) by (metis sorted_wrt_append sorted_wrt.simps(2))
    moreover have "files_ok (insert a (set (c # rest)))" using assms(2) base by (metis Un_iff insert_iff set_append)
    ultimately have "before a b" if "b \<in> set rest" for b
      using before_trans [of a c b] c that by auto
    then show ?thesis using c Cons by simp
  next
    case Nil
    then show ?thesis by (simp only: set_simps ball_empty)
  qed
qed

lemma merge_files_sorted:
  assumes "sorted_wrt before base" "sorted_wrt before added" "files_ok (set base \<union> set added)"
    and "fm_number ` set base \<inter> fm_number ` set added = {}"
  shows "sorted_wrt before (merge_files Compare base added)"
  using assms
proof (induction added arbitrary: base)
  case (Cons a added)
  obtain pre rest where split: "takeWhile (\<lambda>b. \<not> before a b) base = pre" "dropWhile (\<lambda>b. \<not> before a b) base = rest"
    and base: "base = pre @ rest"
    by (metis takeWhile_dropWhile_id)
  have sorted: "sorted_wrt before pre" "sorted_wrt before rest"
    using Cons.prems(1) by (simp_all add: base sorted_wrt_append)
  have a: "\<forall>b\<in>set pre. before b a" "\<forall>b\<in>set rest. before a b"
  proof -
    have "files_ok (insert a (set base))" using Cons.prems(3) by auto
    moreover have "fm_number a \<notin> fm_number ` set base" using Cons.prems(4) by auto
    ultimately show "\<forall>b\<in>set pre. before b a" "\<forall>b\<in>set rest. before a b"
      using upper_bound_split [OF Cons.prems(1)] unfolding split [symmetric] by blast+
  qed
  have IH: "sorted_wrt before (merge_files Compare rest added)"
    using Cons.prems(2-4) by (intro Cons.IH [OF sorted(2)]) (auto simp: base)
  have after: "\<forall>b\<in>set (merge_files Compare rest added). before a b"
    using a(2) Cons.prems(2) by (simp add: set_merge_files ball_Un)
  have "\<forall>b\<in>set pre. \<forall>c\<in>set (merge_files Compare rest added). before b c"
  proof (intro ballI)
    fix b c assume t: "b \<in> set pre" "c \<in> set (merge_files Compare rest added)"
    show "before b c"
    proof (rule before_trans [of b a c])
      show "file_ok Compare key_ok b" using Cons.prems(3) t(1) by (simp add: base)
      show "file_ok Compare key_ok a" using Cons.prems(3) by simp
      show "file_ok Compare key_ok c" using Cons.prems(3) t(2) unfolding set_merge_files base by auto
      show "before b a" using t(1) a(1) by simp
      show "before a c" using t(2) after by simp
    qed
  qed
  then show ?case using sorted(1) IH a(1) after by (simp add: sorted_wrt_append split ball_Un)
qed simp

lemma sorted_files_unique:
  assumes "sorted_wrt before xs" "sorted_wrt before ys" "set xs = set ys" "files_ok (set xs)"
  shows "xs = ys"
  using assms
proof (induction xs arbitrary: ys)
  case (Cons x xs)
  obtain y ys' where ys: "ys = y # ys'" using Cons.prems(3) by (cases ys) auto
  have "x \<in> set (x # xs)" "y \<in> set (x # xs)" using Cons.prems(3) ys by auto
  then have ok: "file_ok Compare key_ok x" "file_ok Compare key_ok y" using Cons.prems(4) by blast+
  have x: "\<not> before x x" using before_irrefl [OF ok(1)] .
  have "x = y"
  proof (rule ccontr)
    assume "x \<noteq> y"
    then have "y \<in> set xs" "x \<in> set ys'" using Cons.prems(3) ys by auto
    then have "before x y" "before y x" using Cons.prems(1,2) ys by auto
    then show False using before_antisym [OF ok] by blast
  qed
  moreover have "x \<notin> set xs" "y \<notin> set ys'"
    using Cons.prems(1,2) x ys \<open>x = y\<close> by auto
  ultimately have "set xs = set ys'" using Cons.prems(3) ys by auto
  then show ?case using Cons.IH [of ys'] Cons.prems ys \<open>x = y\<close> by simp
qed simp

lemma builder_levels:
  fixes cp :: "nat \<Rightarrow> slice"
  assumes "files_ok (set (v_files base l) \<union> set (new_at l es))" "distinct (map fm_number (v_files base l @ new_at l es))"
  defines "b \<equiv> fst (Builder_edits Compare es (make_Builder base, cp))"
  shows "b_base b = base \<and> sorted_wrt before (ls_added_files (b_levels b l)) \<and>
    set (ls_added_files (b_levels b l)) = set (new_at l es) \<and>
    {f \<in> set (v_files base l) \<union> set (new_at l es). fm_number f \<notin> ls_deleted_files (b_levels b l)} =
      fold (edit_level l) es (set (v_files base l))"
  using assms(1,2) unfolding b_def
proof (induction es rule: rev_induct)
  case Nil
  then show ?case by (simp add: Builder_edits_def make_Builder_def new_at_def)
next
  case (snoc e es)
  obtain b1 cp1 where b1: "Builder_edits Compare es (make_Builder base, cp) = (b1, cp1)" by fastforce
  have step: "Builder_edits Compare (es @ [e]) (make_Builder base, cp) = Builder_Apply Compare e (b1, cp1)"
    using b1 by (simp add: Builder_edits_def)
  let ?N = "files_at l (ve_new_files e)" and ?F = "set (v_files base l) \<union> set (new_at l es)"
  have new: "new_at l (es @ [e]) = new_at l es @ ?N" by (simp add: new_at_def)
  have prems: "files_ok ?F" "distinct (map fm_number (v_files base l @ new_at l es))" "files_ok (set ?N)"
      "distinct (map fm_number ?N)" and disj: "fm_number ` set ?N \<inter> fm_number ` ?F = {}"
    using snoc.prems new by auto
  note IH = snoc.IH [OF prems(1,2), unfolded b1 fst_conv]
  have added: "sorted_wrt before (fold (FileSet_insert Compare) ?N (ls_added_files (b_levels b1 l))) \<and>
      set (fold (FileSet_insert Compare) ?N (ls_added_files (b_levels b1 l))) = set ?N \<union> set (new_at l es)"
    using fold_FileSet_insert [of "ls_added_files (b_levels b1 l)" ?N] IH prems(1,3,4) disj by auto
  have "{f \<in> ?F \<union> set ?N. fm_number f \<notin> (ls_deleted_files (b_levels b1 l) \<union> {n. (l, n) \<in> set (ve_deleted_files e)}) - fm_number ` set ?N} =
      edit_level l e {f \<in> ?F. fm_number f \<notin> ls_deleted_files (b_levels b1 l)}"
    using disj by (auto simp: edit_level_def)
  then have del: "{f \<in> set (v_files base l) \<union> (set (new_at l es) \<union> set ?N). fm_number f \<notin>
        (ls_deleted_files (b_levels b1 l) \<union> {n. (l, n) \<in> set (ve_deleted_files e)}) - fm_number ` set ?N} =
      edit_level l e (fold (edit_level l) es (set (v_files base l)))"
    using IH by (simp only: Un_assoc)
  show ?case
    unfolding step Apply_level Apply_base new set_append fold_append comp_apply fold_simps LevelState.simps del
    using IH added by (simp only: Un_commute [of "set ?N"] simp_thms)
qed

lemma builder_save:
  assumes es: "edits_ok Compare key_ok (v_files base) es"
  shows "\<exists>v. Builder_SaveTo Compare (fst (Builder_edits Compare es (make_Builder base, cp))) make_Version = Some v \<and>
    v = make_Version\<lparr>v_files := v_files v\<rparr> \<and>
    (\<forall>l<kNumLevels. set (v_files v l) = fold (edit_level l) es (set (v_files base l)) \<and> sorted_wrt before (v_files v l) \<and>
       (0 < l \<longrightarrow> level_sorted Compare (v_files v l)))"
proof -
  note ok = es [unfolded edits_ok_def, rule_format]
  define b where "b = fst (Builder_edits Compare es (make_Builder base, cp))"
  define D where "D = (\<lambda>l. ls_deleted_files (b_levels b l))"
  define fs where "fs = (\<lambda>l. filter (\<lambda>f. fm_number f \<notin> D l) (merge_files Compare (v_files base l) (ls_added_files (b_levels b l))))"
  have lv: "b_base b = base \<and> sorted_wrt before (ls_added_files (b_levels b l)) \<and>
    set (ls_added_files (b_levels b l)) = set (new_at l es) \<and>
    {f \<in> set (v_files base l) \<union> set (new_at l es). fm_number f \<notin> D l} = fold (edit_level l) es (set (v_files base l))"
    if "l < kNumLevels" for l
    unfolding b_def D_def using ok [OF that] by (intro builder_levels) blast+
  have set: "set (fs l) = fold (edit_level l) es (set (v_files base l))" if "l < kNumLevels" for l
    using lv [OF that] by (auto simp: fs_def set_merge_files)
  have srt: "sorted_wrt before (fs l)" if l: "l < kNumLevels" for l
    unfolding fs_def using lv [OF l] ok [OF l]
    by (intro sorted_wrt_filter merge_files_sorted) (simp_all only: distinct_append map_append set_map simp_thms, blast?)
  have lsorted: "level_sorted Compare (fs l)" if l: "0 < l" "l < kNumLevels" for l
    unfolding level_sorted_def
    by (rule sorted_wrt_mono_rel [OF _ srt [OF l(2)]])
      (use ok [OF l(2)] l(1) set [OF l(2)] in \<open>auto simp: disjoint_files_def dest: spec [of _ "length es"]\<close>)
  have saved: "save_level Compare (D l) l (v_files base l) (ls_added_files (b_levels b l)) (Some []) = Some (fs l)"
    if "l < kNumLevels" for l
    using fold_MaybeAddFile [of l Compare "[]" "D l"] lsorted that by (simp add: save_level_merge fs_def)
  have chk: "no_overlap_check Compare l (fs l)" if "l < kNumLevels" for l
    using level_sorted_check lsorted that by (cases "l = 0") (auto simp: no_overlap_check_def)
  have "b_base b = base" using lv [of 0] by (simp add: kNumLevels_def)
  then have "Builder_SaveTo Compare b make_Version =
      Some (make_Version\<lparr>v_files := \<lambda>l. if l < kNumLevels then fs l else []\<rparr>)"
    using saved chk unfolding Builder_SaveTo_def Let_def
    by (auto simp: make_Version_def list_all_iff D_def intro!: ext)
  then show ?thesis
    unfolding b_def [symmetric] using set srt lsorted by auto
qed

lemma sorted_files_distinct: "sorted_wrt before xs \<Longrightarrow> files_ok (set xs) \<Longrightarrow> distinct xs"
  using before_irrefl by (induction xs) auto

lemma edits_ok_step:
  assumes es: "edits_ok Compare key_ok files (e # es)"
    and fs: "\<And>l. l < kNumLevels \<Longrightarrow> set (fs l) = edit_level l e (set (files l)) \<and> sorted_wrt before (fs l)"
  shows "edits_ok Compare key_ok fs es"
  unfolding edits_ok_def
proof (intro allI impI)
  fix l assume l: "l < kNumLevels"
  note ok = es [unfolded edits_ok_def, rule_format, OF l]
  let ?N = "files_at l (ve_new_files e)"
  have new: "new_at l (e # es) = ?N @ new_at l es" by (simp add: new_at_def)
  have sub: "set (fs l) \<subseteq> set (files l @ ?N)" using fs [OF l] by (auto simp: edit_level_def)
  have fok: "files_ok (set (files l) \<union> set (?N @ new_at l es))"
    and dist: "distinct (map fm_number ((files l @ ?N) @ new_at l es))"
    using ok unfolding new append_assoc by blast+
  then have fok': "files_ok (set (fs l) \<union> set (new_at l es))" using sub by auto
  have "distinct (map fm_number (files l @ ?N))" using dist by (simp only: map_append distinct_append)
  then have inj: "inj_on fm_number (set (files l @ ?N))" unfolding distinct_map by blast
  have "distinct (fs l)" using sorted_files_distinct [of "fs l"] fs [OF l] fok' by blast
  then have 1: "distinct (map fm_number (fs l))" using inj_on_subset [OF inj sub] by (simp add: distinct_map)
  have "fm_number ` set (files l @ ?N) \<inter> fm_number ` set (new_at l es) = {}"
    using dist by (simp only: map_append distinct_append set_map set_append image_Un simp_thms)
  then have "fm_number ` set (fs l) \<inter> fm_number ` set (new_at l es) = {}"
    using image_mono [OF sub, of fm_number] by (simp only: disjoint_iff) blast
  then have 2: "distinct (map fm_number (fs l @ new_at l es))" using 1 dist by simp
  have 3: "disjoint_files Compare (fold (edit_level l) (take k es) (set (fs l)))" if "0 < l" "k \<le> length es" for k
    using ok that fs [OF l] by (auto dest!: spec [of _ "Suc k"])
  show "files_ok (set (fs l) \<union> set (new_at l es)) \<and> distinct (map fm_number (fs l @ new_at l es)) \<and>
      sorted_wrt before (fs l) \<and>
      (0 < l \<longrightarrow> (\<forall>k\<le>length es. disjoint_files Compare (fold (edit_level l) (take k es) (set (fs l)))))"
    using fok' 2 3 fs [OF l] by blast
qed

lemma edits_ok_take: "edits_ok Compare key_ok files (e # es) \<Longrightarrow> edits_ok Compare key_ok files [e]"
proof -
  assume es: "edits_ok Compare key_ok files (e # es)"
  have new: "new_at l (e # es) = new_at l [e] @ new_at l es" for l by (simp add: new_at_def)
  have take: "disjoint_files Compare (fold (edit_level l) (take k [e]) (set (files l)))" if "l < kNumLevels" "0 < l" "k \<le> 1" for l k
  proof -
    have "\<forall>k\<le>length (e # es). disjoint_files Compare (fold (edit_level l) (take k (e # es)) (set (files l)))"
      using es that(1,2) unfolding edits_ok_def by blast
    from spec [OF this, of k] show ?thesis using that(3) by (cases k) auto
  qed
  have "files_ok (set (files l) \<union> set (new_at l [e])) \<and> distinct (map fm_number (files l @ new_at l [e])) \<and>
      sorted_wrt before (files l)" if "l < kNumLevels" for l
  proof -
    note ok = es [unfolded edits_ok_def new, rule_format, OF that]
    then have "distinct (map fm_number (files l @ new_at l [e]) @ map fm_number (new_at l es))" by simp
    then show ?thesis using ok unfolding distinct_append set_append by blast
  qed
  then show "edits_ok Compare key_ok files [e]"
    using take unfolding edits_ok_def One_nat_def list.size add_0 by blast
qed

lemma chain_correct:
  assumes "edits_ok Compare key_ok (v_files base) es"
  shows "\<exists>v. version_chain Compare base es = Some v \<and>
    (\<forall>l<kNumLevels. set (v_files v l) = fold (edit_level l) es (set (v_files base l)) \<and> sorted_wrt before (v_files v l))"
  using assms
proof (induction es arbitrary: base)
  case Nil
  then show ?case by (simp add: edits_ok_def)
next
  case (Cons e es)
  obtain v where v: "Builder_SaveTo Compare (fst (Builder_Apply Compare e (make_Builder base, \<lambda>_. []))) make_Version = Some v"
    and fs: "\<forall>l<kNumLevels. set (v_files v l) = edit_level l e (set (v_files base l)) \<and> sorted_wrt before (v_files v l)"
    using builder_save [OF edits_ok_take [OF Cons.prems], of "\<lambda>_. []"] by (auto simp: Builder_edits_def)
  have "edits_ok Compare key_ok (v_files v) es"
    by (rule edits_ok_step [OF Cons.prems]) (use fs in blast)
  from Cons.IH [OF this] show ?case using v fs by auto
qed

lemma batch_is_chain:
  assumes "edits_ok Compare key_ok (v_files base) es"
  shows "\<exists>v w. Builder_SaveTo Compare (fst (Builder_edits Compare es (make_Builder base, cp))) make_Version = Some v \<and>
    version_chain Compare base es = Some w \<and>
    (\<forall>l<kNumLevels. v_files w l = v_files v l \<and> set (v_files v l) = fold (edit_level l) es (set (v_files base l)) \<and>
       sorted_wrt before (v_files v l) \<and> (0 < l \<longrightarrow> level_sorted Compare (v_files v l)))"
proof -
  obtain v where v: "Builder_SaveTo Compare (fst (Builder_edits Compare es (make_Builder base, cp))) make_Version = Some v"
    "\<forall>l<kNumLevels. set (v_files v l) = fold (edit_level l) es (set (v_files base l)) \<and> sorted_wrt before (v_files v l) \<and>
       (0 < l \<longrightarrow> level_sorted Compare (v_files v l))"
    using builder_save [OF assms, of cp] by blast
  obtain w where w: "version_chain Compare base es = Some w"
    "\<forall>l<kNumLevels. set (v_files w l) = fold (edit_level l) es (set (v_files base l)) \<and> sorted_wrt before (v_files w l)"
    using chain_correct [OF assms] by blast
  have sub: "fold (edit_level l) es S \<subseteq> S \<union> set (new_at l es)" for l S
  proof (induction es arbitrary: S)
    case (Cons e es)
    have "edit_level l e S \<subseteq> S \<union> set (files_at l (ve_new_files e))" by (auto simp: edit_level_def)
    then show ?case using Cons [of "edit_level l e S"] by (auto simp: new_at_def)
  qed (simp add: new_at_def)
  have "v_files w l = v_files v l" if l: "l < kNumLevels" for l
  proof (rule sorted_files_unique)
    show "files_ok (set (v_files w l))"
      using assms l w(2) sub [of l "set (v_files base l)"] unfolding edits_ok_def by blast
  qed (use v(2) w(2) l in blast)+
  then show ?thesis using v w by blast
qed

end

text \<open>C7: Replaying edits with one builder, as \<^verbatim>\<open>Recover\<close> does, gives the version that applying them one at a time gives,
  as \<^verbatim>\<open>LogAndApply\<close> does.  No assertion fails, the files of each level are exactly the files of the base after deleting
  and adding what each edit says, in turn, and they are sorted by smallest key, above level 0 without overlap.\<close>

theorem builder_replays_edits:
  assumes "user_comparator ucmp key_ok sep succ" "edits_ok ucmp key_ok (v_files base) es"
  shows "\<exists>v w. Builder_SaveTo ucmp (fst (Builder_edits ucmp es (make_Builder base, cp))) make_Version = Some v \<and>
    version_chain ucmp base es = Some w \<and>
    (\<forall>l<kNumLevels. v_files w l = v_files v l \<and> set (v_files v l) = fold (edit_level l) es (set (v_files base l)) \<and>
       sorted_wrt (BySmallestKey ucmp) (v_files v l) \<and> (0 < l \<longrightarrow> level_sorted ucmp (v_files v l)))"
  by (rule user_comparator.batch_is_chain [OF assms])

definition sample_move :: VersionEdit where
  "sample_move = DeleteFile 0 2 (AddFile 2 2 100 (entry_key sample_new) (entry_key sample_new) make_VersionEdit)"

definition sample_drop :: VersionEdit where
  "sample_drop = DeleteFile 1 1 make_VersionEdit"

lemma sample_edits_ok: "edits_ok Bytewise_Compare (\<lambda>_. True) (v_files sample_version) [sample_move, sample_drop]"
proof -
  have ok: "file_ok Bytewise_Compare (\<lambda>_. True) (make_FileMetaData n s (entry_key sample_new) (entry_key sample_new))"
    "file_ok Bytewise_Compare (\<lambda>_. True) (added_file (make_FileMetaData n s (entry_key sample_new) (entry_key sample_new)))"
    "file_ok Bytewise_Compare (\<lambda>_. True) (make_FileMetaData n s (entry_key sample_old) (entry_key sample_old))" for n s
    using sample_keys by (simp_all add: file_ok_def make_FileMetaData_def added_file_def)
  have one: "disjoint_files Bytewise_Compare S" if "S \<subseteq> {f}" "file_ok Bytewise_Compare (\<lambda>_. True) f" for S f
    using that icmp.before_irrefl [OF that(2)] by (auto simp: disjoint_files_def)
  note defs = sample_version_def make_Version_def new_at_def files_at_def sample_move_def sample_drop_def DeleteFile_def
    AddFile_def make_VersionEdit_def
  show ?thesis
    unfolding edits_ok_def
  proof (intro allI impI conjI)
    fix l k :: nat
    let ?S = "fold (edit_level l) (take k [sample_move, sample_drop]) (set (v_files sample_version l))"
    assume "0 < l" "k \<le> length [sample_move, sample_drop]"
    then have "?S \<subseteq> {if l = 1 then make_FileMetaData 1 100 (entry_key sample_old) (entry_key sample_old)
        else added_file (make_FileMetaData 2 100 (entry_key sample_new) (entry_key sample_new))}"
      by (auto simp: le_Suc_eq edit_level_def defs split: if_splits)
    then show "disjoint_files Bytewise_Compare ?S" by (rule one) (simp add: ok)
  qed (auto simp: defs ok)
qed

theorem builder_replays_edits_witness:
  "\<exists>v w. Builder_SaveTo Bytewise_Compare
       (fst (Builder_edits Bytewise_Compare [sample_move, sample_drop] (make_Builder sample_version, \<lambda>_. []))) make_Version = Some v \<and>
     version_chain Bytewise_Compare sample_version [sample_move, sample_drop] = Some w \<and>
     v_files w 1 = v_files v 1 \<and> set (v_files v 1) = {}"
proof -
  have "fold (edit_level 1) [sample_move, sample_drop] (set (v_files sample_version 1)) = {}"
    by (simp add: edit_level_def sample_version_def sample_move_def sample_drop_def DeleteFile_def AddFile_def make_VersionEdit_def
        files_at_def make_FileMetaData_def set_insert_def)
  then show ?thesis
    using builder_replays_edits [OF icmp.user_comparator_axioms sample_edits_ok, of "\<lambda>_. []"]
    by (metis kNumLevels_def one_less_numeral_iff semiring_norm(77))
qed

end
