(* ===== verification/Logging.thy ===== *)
theory Logging
  imports Slice_Status
begin

text \<open>
  \<^verbatim>\<open>util/logging.cpp\<close>: numbers and strings in readable form, and the parser for decimal numbers.  The
  buffers of \<^verbatim>\<open>snprintf\<close> are larger than any output here, so the formatted text is appended whole.
\<close>

definition AppendNumberTo :: "slice \<Rightarrow> u64 \<Rightarrow> slice" where
  "AppendNumberTo s num = s @ decimal (unat num)"

definition NumberToString :: "u64 \<Rightarrow> slice" where
  "NumberToString num = AppendNumberTo [] num"

definition hex_digit :: "nat \<Rightarrow> byte" where
  "hex_digit n = word_of_nat (if n < 10 then 48 + n else 87 + n)"

text \<open>One turn of the loop of \<^verbatim>\<open>AppendEscapedStringTo\<close>; \<^verbatim>\<open>char\<close> is signed, so bytes from 128 on are below
  the space.\<close>

definition escape_char :: "byte \<Rightarrow> slice" where
  "escape_char c =
     (if sint c \<ge> 32 \<and> sint c \<le> 126 then [c]
      else str [CHR 0x5C, CHR ''x''] @ [hex_digit (unat c div 16), hex_digit (unat c mod 16)])"

definition AppendEscapedStringTo :: "slice \<Rightarrow> slice \<Rightarrow> slice" where
  "AppendEscapedStringTo s v = fold (\<lambda>c s. s @ escape_char c) v s"

definition EscapeString :: "slice \<Rightarrow> slice" where
  "EscapeString v = AppendEscapedStringTo [] v"

text \<open>The result, what is left of the input, and the value stored through the pointer (\<open>None\<close> when the
  function returns before it stores one).\<close>

definition kMaxUint64 :: u64 where
  "kMaxUint64 = - 1"

fun consume_loop :: "u64 \<Rightarrow> nat \<Rightarrow> slice \<Rightarrow> bool \<times> slice \<times> u64 option" where
  "consume_loop v digits [] = (digits > 0, [], Some v)"
| "consume_loop v digits (c # rest) =
     (if c \<ge> 48 \<and> c \<le> 57 then
        let delta = ucast (c - 48)
        in if v > kMaxUint64 div 10 \<or> v = kMaxUint64 div 10 \<and> delta > kMaxUint64 mod 10
           then (False, c # rest, None)
           else consume_loop (v * 10 + delta) (digits + 1) rest
      else (digits > 0, c # rest, Some v))"

definition ConsumeDecimalNumber :: "slice \<Rightarrow> bool \<times> slice \<times> u64 option" where
  "ConsumeDecimalNumber s = consume_loop 0 0 s"

subsection \<open>Printed numbers are read back\<close>

definition is_digit :: "byte \<Rightarrow> bool" where
  "is_digit c \<longleftrightarrow> c \<ge> 48 \<and> c \<le> 57"

definition digits_value :: "nat \<Rightarrow> slice \<Rightarrow> nat" where
  "digits_value n ds = foldl (\<lambda>n c. n * 10 + unat (c - 48)) n ds"

lemma digits_value_Cons [simp]: "digits_value n (c # ds) = digits_value (n * 10 + unat (c - 48)) ds"
  and digits_value_Nil [simp]: "digits_value n [] = n"
  and digits_value_append [simp]: "digits_value n (xs @ ys) = digits_value (digits_value n xs) ys"
  by (simp_all add: digits_value_def)

lemma digits_value_ge: "n \<le> digits_value n ds"
proof (induction ds arbitrary: n)
  case (Cons c ds)
  show ?case using Cons [of "n * 10 + unat (c - 48)"] by simp
qed simp

lemma overflow_iff:
  assumes "d < 10"
  shows "(v > kMaxUint64 div 10 \<or> v = kMaxUint64 div 10 \<and> word_of_nat d > kMaxUint64 mod 10) \<longleftrightarrow>
    unat v * 10 + d \<ge> 2 ^ 64"
proof -
  have k: "kMaxUint64 = 18446744073709551615" by (simp add: kMaxUint64_def)
  have q: "unat (kMaxUint64 div 10) = 1844674407370955161" "unat (kMaxUint64 mod 10) = 5"
    by (simp_all add: k unat_div unat_mod)
  have d: "unat (word_of_nat d :: u64) = d" using assms by (simp add: unat_word_of_nat_small)
  have "v = kMaxUint64 div 10 \<longleftrightarrow> unat v = 1844674407370955161"
    using q(1) by (metis unsigned_word_eqI)
  then show ?thesis
    using assms q d by (auto simp: word_less_nat_alt)
qed

lemma digit_value: "is_digit c \<Longrightarrow> unat (c - 48) < 10"
  by (auto simp: is_digit_def word_le_nat_alt unat_sub)

lemma consume_stop: "\<not> is_digit c \<Longrightarrow> consume_loop v k (c # s) = (k > 0, c # s, Some v)"
  by (auto simp: is_digit_def)

declare consume_loop.simps(2) [simp del]

lemma digit_overflow_iff:
  assumes "is_digit c"
  shows "(v > kMaxUint64 div 10 \<or> v = kMaxUint64 div 10 \<and> ucast (c - 48) > kMaxUint64 mod 10) \<longleftrightarrow>
    \<not> unat v * 10 + unat (c - 48) < 2 ^ 64"
  using overflow_iff [OF digit_value [OF assms], of v] by (simp add: not_less)

lemma digit_step:
  assumes "is_digit c" "unat v * 10 + unat (c - 48) < 2 ^ 64"
  shows "unat (v * 10 + ucast (c - 48)) = unat v * 10 + unat (c - 48)"
    "consume_loop v k (c # s) = consume_loop (v * 10 + ucast (c - 48)) (k + 1) s"
proof -
  have u: "unat (ucast (c - 48) :: u64) = unat (c - 48)" by (simp add: unat_ucast_up)
  have "unat (v * 10) = unat v * 10" using assms(2) by (simp add: unat_word_ariths)
  then show "unat (v * 10 + ucast (c - 48)) = unat v * 10 + unat (c - 48)"
    using assms(2) u by (simp add: unat_word_ariths)
  show "consume_loop v k (c # s) = consume_loop (v * 10 + ucast (c - 48)) (k + 1) s"
    unfolding consume_loop.simps Let_def digit_overflow_iff [OF assms(1)]
    using assms by (simp add: is_digit_def)
qed

lemma digit_overflow:
  assumes "is_digit c" "\<not> unat v * 10 + unat (c - 48) < 2 ^ 64"
  shows "consume_loop v k (c # s) = (False, c # s, None)"
  unfolding consume_loop.simps Let_def digit_overflow_iff [OF assms(1)]
  using assms by (simp add: is_digit_def)

lemma consume_loop_fits:
  assumes "digits_value (unat v) (takeWhile is_digit s) < 2 ^ 64"
  shows "consume_loop v k s =
    (k + length (takeWhile is_digit s) > 0, dropWhile is_digit s,
     Some (word_of_nat (digits_value (unat v) (takeWhile is_digit s))))"
  using assms
proof (induction s arbitrary: v k)
  case (Cons c s)
  show ?case
  proof (cases "is_digit c")
    case True
    have "unat v * 10 + unat (c - 48) < 2 ^ 64"
      using Cons.prems True digits_value_ge [of "unat v * 10 + unat (c - 48)" "takeWhile is_digit s"] by simp
    note step = digit_step [OF True this]
    show ?thesis using Cons.IH [of "v * 10 + ucast (c - 48)" "k + 1"] Cons.prems True step by simp
  qed (simp add: consume_stop)
qed simp

lemma consume_loop_overflows:
  assumes "digits_value (unat v) (takeWhile is_digit s) \<ge> 2 ^ 64"
  shows "\<exists>rest. consume_loop v k s = (False, rest, None)"
  using assms
proof (induction s arbitrary: v k)
  case (Cons c s)
  show ?case
  proof (cases "is_digit c")
    case True
    show ?thesis
    proof (cases "unat v * 10 + unat (c - 48) < 2 ^ 64")
      case lt: True
      note step = digit_step [OF True lt]
      show ?thesis using Cons.IH [of "v * 10 + ucast (c - 48)" "k + 1"] Cons.prems True step by simp
    qed (use digit_overflow [OF True] in blast)
  next
    case False
    then show ?thesis using Cons.prems unat_lt_exp [of v] by simp
  qed
next
  case Nil
  then show ?case using unat_lt_exp [of v] by simp
qed

lemma digit_char:
  assumes "n < 10"
  shows "is_digit (word_of_nat (48 + n))" "unat (word_of_nat (48 + n) - 48 :: byte) = n"
proof -
  have u: "unat (word_of_nat (48 + n) :: byte) = 48 + n" using assms by (intro unat_word_of_nat_small) simp
  show "is_digit (word_of_nat (48 + n))"
    using assms u by (simp add: is_digit_def word_le_nat_alt del: of_nat_add)
  show "unat (word_of_nat (48 + n) - 48 :: byte) = n"
    using assms by (simp add: unat_word_of_nat_small)
qed

lemma decimal_digits: "(\<forall>c\<in>set (decimal n). is_digit c) \<and> decimal n \<noteq> [] \<and> (\<forall>k. k = 0 \<longrightarrow> digits_value k (decimal n) = n)"
proof (induction n rule: decimal.induct)
  case (1 n)
  show ?case
  proof (cases "n < 10")
    case True
    then show ?thesis by (subst (1 2 3) decimal.simps) (simp add: digit_char del: of_nat_add)
  next
    case False
    have "n mod 10 < 10" by simp
    note d = digit_char [OF this]
    show ?thesis using 1 [OF False] False d
      by (subst (1 2 3) decimal.simps) (auto simp del: of_nat_add)
  qed
qed

lemma digits_value_zeros: "digits_value 0 (replicate m 48 @ ds) = digits_value 0 ds"
  by (induction m) (simp_all add: digits_value_def)

text \<open>A printed number, with or without leading zeros, is read back from in front of anything that is not a digit.\<close>

lemma consume_printed:
  assumes "rest = [] \<or> \<not> is_digit (hd rest)"
  shows "ConsumeDecimalNumber (replicate m 48 @ decimal (unat num) @ rest) = (True, rest, Some num)"
proof -
  let ?s = "replicate m 48 @ decimal (unat num) @ rest"
  have all: "x \<in> set (replicate m 48 @ decimal (unat num)) \<Longrightarrow> is_digit x" for x
    using decimal_digits [of "unat num"] by (auto simp: is_digit_def)
  have t: "takeWhile is_digit ?s = replicate m 48 @ decimal (unat num)" and d: "dropWhile is_digit ?s = rest"
    using assms all takeWhile_append2 [of "replicate m 48 @ decimal (unat num)" is_digit rest]
      dropWhile_append2 [of "replicate m 48 @ decimal (unat num)" is_digit rest]
    by (cases rest; simp)+
  have "digits_value 0 (replicate m 48 @ decimal (unat num)) = unat num"
    using decimal_digits [of "unat num"] by (simp only: digits_value_zeros)
  then show ?thesis
    using consume_loop_fits [of 0 ?s 0] unat_lt_exp [of num] decimal_digits [of "unat num"]
    unfolding ConsumeDecimalNumber_def t d by (simp add: )
qed

end
