(* ===== verification/Log_Writer.thy ===== *)
theory Log_Writer
  imports Crc32c Slice_Status
begin

text \<open>
  The log format and the log writer: \<^verbatim>\<open>db/log_format.h\<close>, \<^verbatim>\<open>db/log_writer.h\<close> and
  \<^verbatim>\<open>db/log_writer.cpp\<close>.  The destination file is the interface \<open>writable_file\<close>: the operations are
  arguments of the definitions, the locale states what the writer's correctness needs of them.  The
  address of the record's bytes is an argument because the checksum depends on it.
\<close>

datatype RecordType = kZeroType | kFullType | kFirstType | kMiddleType | kLastType

fun record_byte :: "RecordType \<Rightarrow> byte" where
  "record_byte kZeroType = 0"
| "record_byte kFullType = 1"
| "record_byte kFirstType = 2"
| "record_byte kMiddleType = 3"
| "record_byte kLastType = 4"

definition log_kBlockSize :: nat where
  "log_kBlockSize = 32768"

definition kHeaderSize :: nat where
  "kHeaderSize = 4 + 1 + 2"

record 'f Writer =
  w_dest :: 'f
  w_block_offset :: nat

definition make_Writer :: "'f \<Rightarrow> 'f Writer" where
  "make_Writer dest = \<lparr>w_dest = dest, w_block_offset = 0\<rparr>"

text \<open>\<^verbatim>\<open>type_crc_[t]\<close>, the checksum of the one-byte string of the type (computed in the constructor; the
  address of a single byte does not matter).\<close>

definition type_crc :: "RecordType \<Rightarrow> u32" where
  "type_crc t = Value 0 [record_byte t]"

definition record_header :: "nat \<Rightarrow> RecordType \<Rightarrow> slice \<Rightarrow> slice" where
  "record_header addr t payload =
     (let n = length payload; crc = Mask (Extend addr (type_crc t) payload)
      in EncodeFixed32 crc @ [word_of_nat (n mod 256), word_of_nat (n div 256), record_byte t])"

definition EmitPhysicalRecord ::
  "(slice \<Rightarrow> 'f \<Rightarrow> status \<times> 'f) \<Rightarrow> ('f \<Rightarrow> status \<times> 'f) \<Rightarrow> nat \<Rightarrow> RecordType \<Rightarrow> slice \<Rightarrow> 'f Writer \<Rightarrow>
   status \<times> 'f Writer" where
  "EmitPhysicalRecord app flush addr t payload w =
     (let n = length payload;
          buf = record_header addr t payload;
          (s, f) = app buf (w_dest w);
          (s, f) = (if ok s then let (s, f) = app payload f in if ok s then flush f else (s, f) else (s, f))
      in (s, w\<lparr>w_dest := f, w_block_offset := w_block_offset w + kHeaderSize + n\<rparr>))"

text \<open>The loop of \<^verbatim>\<open>AddRecord\<close>; the status of the app that fills a trailer is not looked at.\<close>

function add_record_loop ::
  "(slice \<Rightarrow> 'f \<Rightarrow> status \<times> 'f) \<Rightarrow> ('f \<Rightarrow> status \<times> 'f) \<Rightarrow> nat \<Rightarrow> slice \<Rightarrow> bool \<Rightarrow> 'f Writer \<Rightarrow>
   status \<times> 'f Writer" where
  "add_record_loop app flush addr ptr begin' w =
     (let leftover = log_kBlockSize - w_block_offset w;
          w1 = (if leftover < kHeaderSize
                then w\<lparr>w_dest := (if leftover > 0 then snd (app (replicate leftover 0) (w_dest w)) else w_dest w),
                       w_block_offset := 0\<rparr>
                else w);
          avail = log_kBlockSize - w_block_offset w1 - kHeaderSize;
          fragment_length = (if length ptr < avail then length ptr else avail);
          end' = (length ptr = fragment_length);
          t = (if begin' \<and> end' then kFullType else if begin' then kFirstType
               else if end' then kLastType else kMiddleType);
          (s, w2) = EmitPhysicalRecord app flush addr t (take fragment_length ptr) w1;
          ptr' = drop fragment_length ptr
      in if ok s \<and> length ptr' > 0
         then add_record_loop app flush (addr + fragment_length) ptr' False w2
         else (s, w2))"
  by pat_completeness auto
termination
proof (relation "measures [\<lambda>(_, _, _, ptr, _, _). length ptr, \<lambda>(_, _, _, _, _, w). log_kBlockSize - w_block_offset w]",
    goal_cases)
  case 1
  show ?case by simp
next
  case (2 app flush addr ptr begin' w leftover w1 avail fragment_length end' t x s w2 ptr')
  have w2: "w_block_offset w2 = w_block_offset w1 + kHeaderSize + fragment_length"
    using 2 by (auto simp: EmitPhysicalRecord_def Let_def split: prod.splits if_splits)
  show ?case
  proof (cases "fragment_length = 0")
    case True
    have "ptr \<noteq> []" using 2(9,10) by auto
    then have "avail = 0" using True 2(4) by (auto split: if_splits)
    then have "\<not> leftover < kHeaderSize" using 2(2,3) by (auto simp: log_kBlockSize_def kHeaderSize_def)
    then have "w1 = w" "log_kBlockSize - w_block_offset w = 7"
      using 2(1,2,3) \<open>avail = 0\<close> by (auto simp: kHeaderSize_def)
    then show ?thesis using True w2 2(9) by (simp add: kHeaderSize_def)
  next
    case False
    then show ?thesis using 2(4,9,10) by auto
  qed
qed

declare add_record_loop.simps [simp del]

definition AddRecord ::
  "(slice \<Rightarrow> 'f \<Rightarrow> status \<times> 'f) \<Rightarrow> ('f \<Rightarrow> status \<times> 'f) \<Rightarrow> nat \<Rightarrow> slice \<Rightarrow> 'f Writer \<Rightarrow> status \<times> 'f Writer" where
  "AddRecord app flush addr data w = add_record_loop app flush addr data True w"

subsection \<open>The layout of the file\<close>

text \<open>A physical record at block offset \<open>off\<close>: the trailer that fills the block when no header fits, the
  header, the payload.  \<open>record_start off\<close> is the block offset of the header.\<close>

definition record_start :: "nat \<Rightarrow> nat" where
  "record_start off = (if log_kBlockSize - off < kHeaderSize then 0 else off)"

definition trailer :: "nat \<Rightarrow> slice" where
  "trailer off = (if log_kBlockSize - off < kHeaderSize then replicate (log_kBlockSize - off) 0 else [])"

definition room :: "nat \<Rightarrow> nat" where
  "room off = log_kBlockSize - record_start off - kHeaderSize"

text \<open>The fragments of a record that is written at a block offset: address, type and bytes of each.\<close>

type_synonym fragment = "nat \<times> RecordType \<times> slice"

definition fragment_type :: "bool \<Rightarrow> bool \<Rightarrow> RecordType" where
  "fragment_type first last' =
     (if first \<and> last' then kFullType else if first then kFirstType else if last' then kLastType else kMiddleType)"

function fragments :: "nat \<Rightarrow> nat \<Rightarrow> bool \<Rightarrow> slice \<Rightarrow> fragment list" where
  "fragments addr off first ptr =
     (if length ptr \<le> room off then [(addr, fragment_type first True, ptr)]
      else (addr, fragment_type first False, take (room off) ptr) #
        fragments (addr + room off) (record_start off + kHeaderSize + room off) False (drop (room off) ptr))"
  by pat_completeness auto
termination
  by (relation "measures [\<lambda>(_, _, _, ptr). length ptr, \<lambda>(_, off, _, _). log_kBlockSize - off]")
    (auto simp: room_def record_start_def log_kBlockSize_def kHeaderSize_def)

declare fragments.simps [simp del]

fun layout :: "nat \<Rightarrow> fragment list \<Rightarrow> slice" where
  "layout off [] = []"
| "layout off ((addr, t, payload) # fs) =
     trailer off @ record_header addr t payload @ payload @
     layout (record_start off + kHeaderSize + length payload) fs"

fun layout_end :: "nat \<Rightarrow> fragment list \<Rightarrow> nat" where
  "layout_end off [] = off"
| "layout_end off ((addr, t, payload) # fs) = layout_end (record_start off + kHeaderSize + length payload) fs"

text \<open>The interface of a writable file, as far as the writer needs it.\<close>

locale writable_file =
  fixes app :: "slice \<Rightarrow> 'f \<Rightarrow> status \<times> 'f" and flush :: "'f \<Rightarrow> status \<times> 'f"
    and contents :: "'f \<Rightarrow> slice" and healthy :: "'f \<Rightarrow> bool"
  assumes app_ok: "healthy f \<Longrightarrow> app data f = (s, f') \<Longrightarrow> s = None \<and> contents f' = contents f @ data \<and> healthy f'"
    and flush_ok: "healthy f \<Longrightarrow> flush f = (s, f') \<Longrightarrow> s = None \<and> contents f' = contents f \<and> healthy f'"
begin

lemma Emit_ok:
  assumes "healthy (w_dest w)" "EmitPhysicalRecord app flush addr t payload w = (s, w')"
  shows "s = None \<and> healthy (w_dest w') \<and>
    contents (w_dest w') = contents (w_dest w) @ record_header addr t payload @ payload \<and>
    w_block_offset w' = w_block_offset w + kHeaderSize + length payload"
proof -
  obtain s1 f1 where 1: "app (record_header addr t payload) (w_dest w) = (s1, f1)" by fastforce
  obtain s2 f2 where 2: "app payload f1 = (s2, f2)" by fastforce
  obtain s3 f3 where 3: "flush f2 = (s3, f3)" by fastforce
  note 4 = app_ok [OF assms(1) 1]
  note 5 = app_ok [OF conjunct2 [OF conjunct2 [OF 4]] 2]
  note 6 = flush_ok [OF conjunct2 [OF conjunct2 [OF 5]] 3]
  show ?thesis
    using assms(2) 1 2 3 4 5 6 by (auto simp: EmitPhysicalRecord_def Let_def ok_def)
qed

text \<open>\<^verbatim>\<open>AddRecord\<close> appends the layout of the record's fragments.\<close>

lemma add_record_loop_ok:
  assumes "healthy (w_dest w)" "add_record_loop app flush addr ptr first w = (s, w')"
  shows "s = None \<and> healthy (w_dest w') \<and>
    contents (w_dest w') = contents (w_dest w) @
      layout (w_block_offset w) (fragments addr (w_block_offset w) first ptr) \<and>
    w_block_offset w' = layout_end (w_block_offset w) (fragments addr (w_block_offset w) first ptr)"
  using assms
proof (induction addr "w_block_offset w" first ptr arbitrary: w rule: fragments.induct)
  case (1 addr first ptr)
  let ?off = "w_block_offset w" and ?n = "if length ptr < room (w_block_offset w) then length ptr else room (w_block_offset w)"
  define w1 where "w1 = (if log_kBlockSize - ?off < kHeaderSize
      then w\<lparr>w_dest := (if log_kBlockSize - ?off > 0 then snd (app (replicate (log_kBlockSize - ?off) 0) (w_dest w))
               else w_dest w), w_block_offset := 0\<rparr> else w)"
  have w1: "healthy (w_dest w1)" "contents (w_dest w1) = contents (w_dest w) @ trailer ?off"
      "w_block_offset w1 = record_start ?off"
    using 1(2) app_ok [of "w_dest w" "replicate (log_kBlockSize - ?off) 0"]
    by (auto simp: w1_def trailer_def record_start_def prod_eq_iff)
  have room: "log_kBlockSize - w_block_offset w1 - kHeaderSize = room ?off" by (simp add: w1(3) room_def)
  obtain s2 w2 where e: "EmitPhysicalRecord app flush addr (fragment_type first (length ptr \<le> room ?off)) (take ?n ptr) w1 = (s2, w2)"
    by fastforce
  note e_ok = Emit_ok [OF w1(1) e]
  have t: "(if first \<and> length ptr = ?n then kFullType else if first then kFirstType
        else if length ptr = ?n then kLastType else kMiddleType) = fragment_type first (length ptr \<le> room ?off)"
    by (auto simp: fragment_type_def)
  have step: "add_record_loop app flush addr ptr first w =
      (if length (drop ?n ptr) > 0 then add_record_loop app flush (addr + ?n) (drop ?n ptr) False w2 else (None, w2))"
    using e_ok e unfolding add_record_loop.simps [of app flush addr ptr first w] Let_def w1_def [symmetric] room t
    by (simp add: ok_def)
  show ?case
  proof (cases "length ptr \<le> room ?off")
    case True
    then have n: "?n = length ptr" by simp
    show ?thesis
      using 1(3) e_ok w1 True unfolding step n
      by (simp add: fragments.simps [of addr ?off first ptr])
  next
    case False
    then have n: "?n = room ?off" by simp
    have off2: "record_start ?off + kHeaderSize + room ?off = w_block_offset w2"
      using e_ok w1(3) False n by simp
    have "add_record_loop app flush (addr + room ?off) (drop (room ?off) ptr) False w2 = (s, w')"
      using 1(3) False unfolding step n by simp
    moreover have "healthy (w_dest w2)" "contents (w_dest w2) = contents (w_dest w1) @
        record_header addr (fragment_type first False) (take (room ?off) ptr) @ take (room ?off) ptr"
      using e_ok False n by simp_all
    moreover have "fragments addr ?off first ptr = (addr, fragment_type first False, take (room ?off) ptr) #
        fragments (addr + room ?off) (w_block_offset w2) False (drop (room ?off) ptr)"
      using False by (subst fragments.simps) (simp add: off2)
    moreover have "record_start ?off + kHeaderSize + length (take (room ?off) ptr) = w_block_offset w2"
      using off2 False by simp
    ultimately show ?thesis
      using 1(1) [OF False off2] w1(2) by (simp add: off2)
  qed
qed

lemma AddRecord_ok:
  assumes "healthy (w_dest w)" "AddRecord app flush addr data w = (s, w')"
  shows "s = None \<and> healthy (w_dest w') \<and>
    contents (w_dest w') = contents (w_dest w) @
      layout (w_block_offset w) (fragments addr (w_block_offset w) True data) \<and>
    w_block_offset w' = layout_end (w_block_offset w) (fragments addr (w_block_offset w) True data)"
  using assms add_record_loop_ok unfolding AddRecord_def by blast

end

subsection \<open>Properties of the layout\<close>

lemma fragments_fit:
  assumes "(a, t, p) \<in> set (fragments addr off first ptr)"
  shows "length p \<le> log_kBlockSize - kHeaderSize"
  using assms
proof (induction addr off first ptr rule: fragments.induct)
  case (1 addr off first ptr)
  then show ?case
    by (subst (asm) (2) fragments.simps) (auto simp: room_def split: if_splits)
qed

lemma fragments_concat: "concat (map (\<lambda>(a, t, p). p) (fragments addr off first ptr)) = ptr"
proof (induction addr off first ptr rule: fragments.induct)
  case (1 addr off first ptr)
  then show ?case by (subst fragments.simps) simp
qed

text \<open>The layout never crosses a block boundary: each record ends at a block offset at most the block
  size.\<close>

lemma layout_end_fragments: "off \<le> log_kBlockSize \<Longrightarrow> layout_end off (fragments addr off first ptr) \<le> log_kBlockSize"
proof (induction addr off first ptr rule: fragments.induct)
  case (1 addr off first ptr)
  have r: "record_start off + kHeaderSize + room off \<le> log_kBlockSize"
    by (auto simp: room_def record_start_def log_kBlockSize_def kHeaderSize_def)
  show ?case
    using "1.IH" r by (subst fragments.simps) auto
qed

end
