(* ===== verification/Log_Reader.thy ===== *)
theory Log_Reader
  imports Log_Writer
begin

text \<open>
  The log reader: \<^verbatim>\<open>db/log_reader.h\<close> and \<^verbatim>\<open>db/log_reader.cpp\<close>.  The source file is the interface
  \<open>sequential_file\<close>.  The reporter is the list of reports made to it.  Offsets are 64-bit words and
  wrap as in the source.  The constructor leaves \<^verbatim>\<open>last_record_offset_\<close> and
  \<^verbatim>\<open>end_of_buffer_offset_\<close> uninitialised: their first values are arguments of the model.
\<close>

record 'f Reader =
  r_file :: 'f
  r_has_reporter :: bool
  r_checksum :: bool
  r_backing_store :: nat
  r_buffer :: slice
  r_buffer_addr :: nat
  r_eof :: bool
  r_last_record_offset :: u64
  r_end_of_buffer_offset :: u64
  r_initial_offset :: u64
  r_reports :: "(nat \<times> status) list"

definition make_Reader :: "'f \<Rightarrow> bool \<Rightarrow> bool \<Rightarrow> u64 \<Rightarrow> nat \<Rightarrow> u64 \<Rightarrow> u64 \<Rightarrow> 'f Reader" where
  "make_Reader file reporter checksum initial_offset store garbage1 garbage2 =
     \<lparr>r_file = file, r_has_reporter = reporter, r_checksum = checksum, r_backing_store = store, r_buffer = [],
      r_buffer_addr = 0, r_eof = False, r_last_record_offset = garbage1, r_end_of_buffer_offset = garbage2,
      r_initial_offset = initial_offset, r_reports = []\<rparr>"

definition kEof :: u32 where
  "kEof = 5"

definition kBadRecord :: u32 where
  "kBadRecord = 6"

definition buffer_size :: "'f Reader \<Rightarrow> u64" where
  "buffer_size r = word_of_nat (length (r_buffer r))"

definition ReportDrop :: "nat \<Rightarrow> status \<Rightarrow> 'f Reader \<Rightarrow> 'f Reader" where
  "ReportDrop bytes reason r =
     (if r_has_reporter r \<and> r_end_of_buffer_offset r - buffer_size r - word_of_nat bytes \<ge> r_initial_offset r
      then r\<lparr>r_reports := r_reports r @ [(bytes, reason)]\<rparr> else r)"

definition ReportCorruption :: "nat \<Rightarrow> slice \<Rightarrow> 'f Reader \<Rightarrow> 'f Reader" where
  "ReportCorruption bytes reason r = ReportDrop bytes (Corruption reason []) r"

definition SkipToInitialBlock :: "(u64 \<Rightarrow> 'f \<Rightarrow> status \<times> 'f) \<Rightarrow> 'f Reader \<Rightarrow> bool \<times> 'f Reader" where
  "SkipToInitialBlock skip r =
     (let offset_in_block = r_initial_offset r mod word_of_nat log_kBlockSize;
          block_start_location = r_initial_offset r - offset_in_block;
          block_start_location = (if offset_in_block > word_of_nat log_kBlockSize - 6
            then block_start_location + word_of_nat log_kBlockSize else block_start_location);
          r1 = r\<lparr>r_end_of_buffer_offset := block_start_location\<rparr>
      in if block_start_location > 0
         then let (skip_status, f) = skip block_start_location (r_file r1); r2 = r1\<lparr>r_file := f\<rparr>
              in if ok skip_status then (True, r2)
                 else (False, ReportDrop (unat block_start_location) skip_status r2)
         else (True, r1))"

text \<open>The part of \<^verbatim>\<open>ReadPhysicalRecord\<close> after the buffer holds a header.\<close>

definition parse_record :: "slice \<Rightarrow> 'f Reader \<Rightarrow> u32 \<times> slice \<times> 'f Reader" where
  "parse_record result r =
     (let header = r_buffer r;
          a = ucast (header ! 4) :: u32;
          b = ucast (header ! 5) :: u32;
          type = scast (header ! 6) :: u32;
          len = unat (a OR push_bit 8 b);
          dropped = r\<lparr>r_buffer := []\<rparr>
      in if kHeaderSize + len > length header
         then (kBadRecord, result, ReportCorruption (length header) (str ''bad record length'') dropped)
         else if type = 0 \<and> len = 0 then (kBadRecord, result, dropped)
         else if r_checksum r \<and>
             Value (r_buffer_addr r + 6) (take (1 + len) (drop 6 header)) \<noteq> Unmask (DecodeFixed32 header)
         then (kBadRecord, result, ReportCorruption (length header) (str ''checksum mismatch'') dropped)
         else let r1 = r\<lparr>r_buffer := drop (kHeaderSize + len) header,
                         r_buffer_addr := r_buffer_addr r + kHeaderSize + len\<rparr>
              in if r_end_of_buffer_offset r1 - buffer_size r1 - word_of_nat kHeaderSize - word_of_nat len
                    < r_initial_offset r1
                 then (kBadRecord, [], r1)
                 else (type, take len (drop kHeaderSize header), r1))"

definition end_of_file :: "slice \<Rightarrow> 'f Reader \<Rightarrow> u32 \<times> slice \<times> 'f Reader" where
  "end_of_file result r =
     (if r_buffer r = [] then (kEof, result, r)
      else (kEof, result, ReportCorruption (length (r_buffer r)) (str ''truncated record at end of file'')
             (r\<lparr>r_buffer := []\<rparr>)))"

text \<open>The \<^verbatim>\<open>while (true)\<close> loop goes round at most once: a read that leaves less than a header in the buffer
  was short, so \<^verbatim>\<open>eof_\<close> is set and the second turn takes the end-of-file branch.\<close>

definition ReadPhysicalRecord ::
  "(nat \<Rightarrow> 'f \<Rightarrow> status \<times> slice \<times> 'f) \<Rightarrow> slice \<Rightarrow> 'f Reader \<Rightarrow> u32 \<times> slice \<times> 'f Reader" where
  "ReadPhysicalRecord read result r =
     (if length (r_buffer r) < kHeaderSize then
        if \<not> r_eof r then
          let (status, buf, f) = read log_kBlockSize (r_file r);
              r1 = r\<lparr>r_file := f, r_buffer := buf, r_buffer_addr := r_backing_store r,
                     r_end_of_buffer_offset := r_end_of_buffer_offset r + word_of_nat (length buf)\<rparr>
          in if \<not> ok status
             then (kEof, result, (ReportDrop log_kBlockSize status (r1\<lparr>r_buffer := []\<rparr>))\<lparr>r_eof := True\<rparr>)
             else let r2 = (if length buf < log_kBlockSize then r1\<lparr>r_eof := True\<rparr> else r1)
                  in if length buf < kHeaderSize then end_of_file result r2 else parse_record result r2
        else end_of_file result r
      else parse_record result r)"

text \<open>The loop of \<^verbatim>\<open>ReadRecord\<close>.\<close>

partial_function (option) read_record_loop ::
  "(nat \<Rightarrow> 'f \<Rightarrow> status \<times> slice \<times> 'f) \<Rightarrow> bool \<Rightarrow> slice \<Rightarrow> u64 \<Rightarrow> slice \<Rightarrow> 'f Reader \<Rightarrow>
   (bool \<times> slice \<times> slice \<times> 'f Reader) option" where
  "read_record_loop read in_fragmented_record scratch prospective fragment r =
     (let physical_record_offset = r_end_of_buffer_offset r - buffer_size r;
          (record_type, fragment', r1) = ReadPhysicalRecord read fragment r
      in if record_type = 1 then
           let r2 = (if in_fragmented_record \<and> scratch \<noteq> []
                     then ReportCorruption (length scratch) (str ''partial record without end(1)'') r1 else r1)
           in Some (True, fragment', [], r2\<lparr>r_last_record_offset := physical_record_offset\<rparr>)
         else if record_type = 2 then
           let r2 = (if in_fragmented_record \<and> scratch \<noteq> []
                     then ReportCorruption (length scratch) (str ''partial record without end(2)'') r1 else r1)
           in read_record_loop read True fragment' physical_record_offset fragment' r2
         else if record_type = 3 then
           if \<not> in_fragmented_record
           then read_record_loop read in_fragmented_record scratch prospective fragment'
                  (ReportCorruption (length fragment') (str ''missing start of fragmented record(1)'') r1)
           else read_record_loop read in_fragmented_record (scratch @ fragment') prospective fragment' r1
         else if record_type = 4 then
           if \<not> in_fragmented_record
           then read_record_loop read in_fragmented_record scratch prospective fragment'
                  (ReportCorruption (length fragment') (str ''missing start of fragmented record(2)'') r1)
           else Some (True, scratch @ fragment', scratch @ fragment', r1\<lparr>r_last_record_offset := prospective\<rparr>)
         else if record_type = kEof then
           if in_fragmented_record
           then Some (False, [], [],
                  ReportCorruption (length scratch) (str ''partial record without end(3)'') r1)
           else Some (False, [], scratch, r1)
         else if record_type = kBadRecord then
           if in_fragmented_record
           then read_record_loop read False [] prospective fragment'
                  (ReportCorruption (length scratch) (str ''error in middle of record'') r1)
           else read_record_loop read in_fragmented_record scratch prospective fragment' r1
         else read_record_loop read False [] prospective fragment'
                (ReportCorruption (length fragment' + (if in_fragmented_record then length scratch else 0))
                  (str ''unknown record type '' @ decimal (unat record_type)) r1))"

definition ReadRecord ::
  "(nat \<Rightarrow> 'f \<Rightarrow> status \<times> slice \<times> 'f) \<Rightarrow> (u64 \<Rightarrow> 'f \<Rightarrow> status \<times> 'f) \<Rightarrow> 'f Reader \<Rightarrow>
   (bool \<times> slice \<times> slice \<times> 'f Reader) option" where
  "ReadRecord read skip r =
     (let (go, r1) = (if r_last_record_offset r < r_initial_offset r then SkipToInitialBlock skip r else (True, r))
      in if \<not> go then Some (False, [], [], r1)
         else read_record_loop read False [] 0 [] r1)"

definition LastRecordOffset :: "'f Reader \<Rightarrow> u64" where
  "LastRecordOffset r = r_last_record_offset r"

text \<open>The loop of a caller that reads records until \<^verbatim>\<open>ReadRecord\<close> returns false, at most \<open>fuel\<close> of them:
  the records, and whether the end was reached.\<close>

fun read_records ::
  "(nat \<Rightarrow> 'f \<Rightarrow> status \<times> slice \<times> 'f) \<Rightarrow> (u64 \<Rightarrow> 'f \<Rightarrow> status \<times> 'f) \<Rightarrow> nat \<Rightarrow> 'f Reader \<Rightarrow>
   (slice list \<times> bool \<times> 'f Reader) option" where
  "read_records read skip 0 r = Some ([], False, r)"
| "read_records read skip (Suc fuel) r =
     (case ReadRecord read skip r of
        None \<Rightarrow> None
      | Some (more_data, record, scratch, r1) \<Rightarrow>
          if \<not> more_data then Some ([], True, r1)
          else case read_records read skip fuel r1 of
                 None \<Rightarrow> None
               | Some (records, ended, r2) \<Rightarrow> Some (record # records, ended, r2))"

subsection \<open>Reading what was written\<close>

text \<open>The bytes of a log that holds the records \<open>rs\<close> (the address and the bytes of each), from block offset \<open>off\<close>.\<close>

fun records_layout :: "nat \<Rightarrow> (nat \<times> slice) list \<Rightarrow> slice" where
  "records_layout off [] = []"
| "records_layout off ((addr, data) # rs) =
     layout off (fragments addr off True data) @
     records_layout (layout_end off (fragments addr off True data)) rs"

lemma block_end_simps:
  "record_start log_kBlockSize = 0" "record_start 0 = 0" "room log_kBlockSize = room 0" "trailer log_kBlockSize = []"
  "trailer 0 = []"
  by (simp_all add: room_def record_start_def trailer_def log_kBlockSize_def kHeaderSize_def)

lemma fragments_block_end: "fragments addr log_kBlockSize first p = fragments addr 0 first p"
  by (subst (1 2) fragments.simps) (simp add: block_end_simps)

lemma records_layout_block_end: "records_layout log_kBlockSize rs = records_layout 0 rs"
proof (cases rs)
  case (Cons x xs)
  obtain addr data where x: "x = (addr, data)" by (cases x)
  obtain y ys where "fragments addr 0 True data = y # ys"
    by (cases "fragments addr 0 True data") (auto simp: fragments.simps [of addr 0] split: if_splits)
  then show ?thesis
    using x Cons by (cases y)
      (simp add: fragments_block_end block_end_simps)
qed simp

lemma append_prefix_split:
  "xs @ ys = us @ vs \<Longrightarrow> length xs \<le> length us \<Longrightarrow> \<exists>b. us = xs @ b \<and> ys = b @ vs"
  by (auto simp: append_eq_append_conv2)

lemma length_record_header [simp]: "length (record_header addr t p) = 7"
  by (simp add: record_header_def Let_def)

lemma header_fields:
  assumes "length p < 65536"
  shows "unat ((ucast ((record_header addr t p @ xs) ! 4) :: u32) OR push_bit 8 (ucast ((record_header addr t p @ xs) ! 5)))
      = length p"
    and "(record_header addr t p @ xs) ! 6 = record_byte t"
proof -
  have b: "(record_header addr t p @ xs) ! 4 = word_of_nat (length p mod 256)"
      "(record_header addr t p @ xs) ! 5 = word_of_nat (length p div 256)"
      "(record_header addr t p @ xs) ! 6 = record_byte t"
    by (simp_all add: record_header_def Let_def nth_append)
  have lo: "unat (ucast (word_of_nat (length p mod 256) :: byte) :: u32) = length p mod 256"
    by (simp add: unat_ucast_up unat_word_of_nat_small)
  have hi: "unat (ucast (word_of_nat (length p div 256) :: byte) :: u32) = length p div 256"
    using assms by (simp add: unat_ucast_up unat_word_of_nat_small)
  have "(ucast (word_of_nat (length p mod 256) :: byte) :: u32) OR push_bit 8 (ucast (word_of_nat (length p div 256) :: byte))
      = ucast (word_of_nat (length p mod 256) :: byte) + push_bit 8 (ucast (word_of_nat (length p div 256) :: byte))"
    by (rule disjunctive_add [symmetric]) (auto simp: bit_simps byte_bit_high)
  moreover have "unat (push_bit 8 (ucast (word_of_nat (length p div 256) :: byte)) :: u32) = length p div 256 * 256"
    using hi assms by (simp add: push_bit_eq_mult unat_word_ariths)
  ultimately show "unat ((ucast ((record_header addr t p @ xs) ! 4) :: u32) OR
      push_bit 8 (ucast ((record_header addr t p @ xs) ! 5))) = length p"
    using lo assms unfolding b by (simp add: unat_word_ariths)
  show "(record_header addr t p @ xs) ! 6 = record_byte t" by (rule b(3))
qed

definition type_code :: "RecordType \<Rightarrow> u32" where
  "type_code t = ucast (record_byte t)"

lemma scast_record_byte: "(scast (record_byte t) :: u32) = type_code t"
  by (cases t) (simp_all add: type_code_def)

text \<open>\<open>reader_at rest healthy r off bytes\<close>: a reader that checks no checksums and starts at offset 0 has
  the bytes \<open>bytes\<close> of the file before it, the first of them at block offset \<open>off\<close>; its buffer is the
  rest of the block.\<close>

definition reader_at :: "('f \<Rightarrow> slice) \<Rightarrow> ('f \<Rightarrow> bool) \<Rightarrow> 'f Reader \<Rightarrow> nat \<Rightarrow> slice \<Rightarrow> bool" where
  "reader_at rest healthy r off bytes \<longleftrightarrow>
     healthy (r_file r) \<and> \<not> r_checksum r \<and> r_initial_offset r = 0 \<and> bytes = r_buffer r @ rest (r_file r) \<and>
     off \<le> log_kBlockSize \<and> length (r_buffer r) \<le> log_kBlockSize - off \<and>
     (if r_eof r then rest (r_file r) = [] else length (r_buffer r) = log_kBlockSize - off)"

text \<open>The caller's side of writing: the records in order, up to the first failure.\<close>

fun add_records ::
  "(slice \<Rightarrow> 'f \<Rightarrow> status \<times> 'f) \<Rightarrow> ('f \<Rightarrow> status \<times> 'f) \<Rightarrow> (nat \<times> slice) list \<Rightarrow> 'f Writer \<Rightarrow>
   status \<times> 'f Writer" where
  "add_records app flush [] w = (None, w)"
| "add_records app flush ((addr, data) # rs) w =
     (let (s, w1) = AddRecord app flush addr data w
      in if ok s then add_records app flush rs w1 else (s, w1))"

context writable_file
begin

lemma add_records_ok:
  assumes "healthy (w_dest w)" "add_records app flush rs w = (s, w')"
  shows "s = None \<and> healthy (w_dest w') \<and>
    contents (w_dest w') = contents (w_dest w) @ records_layout (w_block_offset w) rs"
  using assms
proof (induction rs arbitrary: w)
  case (Cons x rs)
  obtain addr data where x: "x = (addr, data)" by (cases x)
  obtain s1 w1 where 1: "AddRecord app flush addr data w = (s1, w1)" by (cases "AddRecord app flush addr data w")
  note 2 = AddRecord_ok [OF Cons.prems(1) 1]
  then show ?case
    using Cons.IH [of w1] Cons.prems(2) 1 x by (simp add: ok_def)
qed simp

end

text \<open>The interface of a sequential file, as far as the reader needs it.\<close>

locale sequential_file =
  fixes read :: "nat \<Rightarrow> 'f \<Rightarrow> status \<times> slice \<times> 'f" and rest :: "'f \<Rightarrow> slice" and healthy :: "'f \<Rightarrow> bool"
  assumes read_ok: "healthy f \<Longrightarrow> read n f = (s, data, f') \<Longrightarrow>
    s = None \<and> data = take n (rest f) \<and> rest f' = drop n (rest f) \<and> healthy f'"
begin

abbreviation at :: "'f Reader \<Rightarrow> nat \<Rightarrow> slice \<Rightarrow> bool" where
  "at \<equiv> reader_at rest healthy"

lemma parse_at:
  assumes at: "at r off (record_header addr t p @ p @ later)"
    and fits: "off + kHeaderSize + length p \<le> log_kBlockSize" and t: "t \<noteq> kZeroType"
  shows "kHeaderSize \<le> length (r_buffer r) \<and>
    (\<exists>r'. parse_record result r = (type_code t, p, r') \<and> at r' (off + kHeaderSize + length p) later \<and>
       r_reports r' = r_reports r)"
proof -
  have len: "kHeaderSize + length p \<le> length (r_buffer r)"
    using at fits by (cases "r_eof r") (auto simp: reader_at_def kHeaderSize_def dest!: arg_cong [where f = length])
  have "record_header addr t p @ p @ later = r_buffer r @ rest (r_file r)" using at by (simp add: reader_at_def)
  then obtain b where b: "r_buffer r = record_header addr t p @ p @ b" "later = b @ rest (r_file r)"
    using append_prefix_split [of "record_header addr t p @ p" later "r_buffer r" "rest (r_file r)"] len
    by (auto simp: kHeaderSize_def)
  have n: "length p < 65536" using fits by (simp add: log_kBlockSize_def)
  have ty: "type_code t \<noteq> 0" using t by (cases t) (simp_all add: type_code_def)
  define r' where "r' = r\<lparr>r_buffer := b, r_buffer_addr := r_buffer_addr r + kHeaderSize + length p\<rparr>"
  have "parse_record result r = (type_code t, p, r')"
    using at ty header_fields [OF n, of addr t "p @ b"]
    by (simp add: parse_record_def Let_def b kHeaderSize_def scast_record_byte reader_at_def r'_def)
  moreover have "at r' (off + kHeaderSize + length p) later"
    using at b fits by (auto simp: reader_at_def r'_def kHeaderSize_def split: if_splits)
  ultimately show ?thesis using len by (auto simp: r'_def)
qed

lemma room_fits: "length p \<le> room off \<Longrightarrow> record_start off + kHeaderSize + length p \<le> log_kBlockSize"
  by (auto simp: room_def record_start_def log_kBlockSize_def kHeaderSize_def split: if_splits)

text \<open>Reading over a block boundary.\<close>

lemma refill_at:
  assumes at: "at r off (trailer off @ bytes)" and "log_kBlockSize - off < kHeaderSize" "bytes \<noteq> []"
  shows "\<not> r_eof r \<and> length (r_buffer r) < kHeaderSize \<and>
    (\<exists>f. read log_kBlockSize (r_file r) = (None, take log_kBlockSize bytes, f) \<and>
      (\<forall>addr e. at (if length (take log_kBlockSize bytes) < log_kBlockSize
        then r\<lparr>r_file := f, r_buffer := take log_kBlockSize bytes, r_buffer_addr := addr, r_end_of_buffer_offset := e,
               r_eof := True\<rparr>
        else r\<lparr>r_file := f, r_buffer := take log_kBlockSize bytes, r_buffer_addr := addr, r_end_of_buffer_offset := e\<rparr>)
        0 bytes))"
proof -
  have tr: "length (trailer off) = log_kBlockSize - off" using assms(2) by (simp add: trailer_def)
  have split: "trailer off @ bytes = r_buffer r @ rest (r_file r)" using at by (simp add: reader_at_def)
  have le: "length (r_buffer r) \<le> length (trailer off)" using at tr by (simp add: reader_at_def)
  have "rest (r_file r) \<noteq> []"
  proof
    assume "rest (r_file r) = []"
    then have "length (trailer off) + length bytes = length (r_buffer r)"
      using arg_cong [OF split, of length] by simp
    with le assms(3) show False by (cases bytes) auto
  qed
  then have ne: "\<not> r_eof r" using at by (auto simp: reader_at_def)
  then have "length (r_buffer r) = length (trailer off)" using at tr by (simp add: reader_at_def)
  then have rest: "rest (r_file r) = bytes" using split by simp
  obtain s d f where rd: "read log_kBlockSize (r_file r) = (s, d, f)" by (cases "read log_kBlockSize (r_file r)")
  have h: "healthy (r_file r)" using at by (simp add: reader_at_def)
  note rok = read_ok [OF h rd]
  show ?thesis
    using ne le tr assms(2) rok rd rest at by (auto simp: reader_at_def)
qed

lemma ReadPhysicalRecord_at:
  assumes at: "at r off (trailer off @ record_header addr t p @ p @ later)"
    and fits: "length p \<le> room off" and t: "t \<noteq> kZeroType"
  shows "\<exists>r'. ReadPhysicalRecord read result r = (type_code t, p, r') \<and>
    at r' (record_start off + kHeaderSize + length p) later \<and> r_reports r' = r_reports r"
proof (cases "log_kBlockSize - off < kHeaderSize")
  case True
  define bytes where "bytes = record_header addr t p @ p @ later"
  have bytes: "bytes \<noteq> []" "kHeaderSize \<le> length (take log_kBlockSize bytes)"
    by (auto simp: bytes_def log_kBlockSize_def kHeaderSize_def dest!: arg_cong [where f = length])
  note refill = refill_at [OF at [folded bytes_def] True bytes(1)]
  have z: "record_start off = 0" using True by (simp add: record_start_def)
  obtain f where f: "\<not> r_eof r" "length (r_buffer r) < kHeaderSize"
      "read log_kBlockSize (r_file r) = (None, take log_kBlockSize bytes, f)"
    using refill by auto
  define r2 where "r2 = (if length (take log_kBlockSize bytes) < log_kBlockSize
        then r\<lparr>r_file := f, r_buffer := take log_kBlockSize bytes, r_buffer_addr := r_backing_store r,
               r_end_of_buffer_offset := r_end_of_buffer_offset r + word_of_nat (length (take log_kBlockSize bytes)),
               r_eof := True\<rparr>
        else r\<lparr>r_file := f, r_buffer := take log_kBlockSize bytes, r_buffer_addr := r_backing_store r,
               r_end_of_buffer_offset := r_end_of_buffer_offset r + word_of_nat (length (take log_kBlockSize bytes))\<rparr>)"
  have at2: "at r2 0 bytes" using refill f(3) unfolding r2_def by auto
  have "ReadPhysicalRecord read result r = parse_record result r2"
    using f bytes(2) unfolding ReadPhysicalRecord_def r2_def Let_def
    by (simp add: ok_def not_less [symmetric])
  moreover have "r_reports r2 = r_reports r" by (simp add: r2_def)
  ultimately show ?thesis
    using parse_at [OF at2 [unfolded bytes_def] _ t, of result] room_fits [OF fits] z by auto
next
  case False
  then have "trailer off = []" "record_start off = off" by (simp_all add: trailer_def record_start_def)
  with parse_at [of r off addr t p later result] at t room_fits [OF fits] show ?thesis
    by (auto simp: ReadPhysicalRecord_def)
qed

lemma ReadPhysicalRecord_end:
  assumes at: "at r off []"
  shows "\<exists>r' off'. ReadPhysicalRecord read result r = (kEof, result, r') \<and> at r' off' [] \<and> r_reports r' = r_reports r"
proof -
  have e: "r_buffer r = []" "rest (r_file r) = []" "healthy (r_file r)" using at by (auto simp: reader_at_def)
  obtain s d f where rd: "read log_kBlockSize (r_file r) = (s, d, f)" by (cases "read log_kBlockSize (r_file r)")
  note rok = read_ok [OF e(3) rd]
  show ?thesis
  proof (cases "r_eof r")
    case True
    then show ?thesis
      using at e by (auto simp: ReadPhysicalRecord_def kHeaderSize_def end_of_file_def)
  next
    case False
    then show ?thesis
      using at e rok rd
      by (auto simp: ReadPhysicalRecord_def kHeaderSize_def end_of_file_def log_kBlockSize_def Let_def ok_def
          reader_at_def)
  qed
qed

lemma type_code_simps [simp]:
  "type_code kFullType = 1" "type_code kFirstType = 2" "type_code kMiddleType = 3" "type_code kLastType = 4"
  by (simp_all add: type_code_def)

lemma fragment_type_nz: "fragment_type first l \<noteq> kZeroType"
  by (simp add: fragment_type_def)

lemma read_loop_record:
  assumes "at r off (layout off (fragments addr off first ptr) @ later)" and "first \<Longrightarrow> scratch = []"
  shows "\<exists>sc r'. read_record_loop read (\<not> first) scratch prosp frag r = Some (True, scratch @ ptr, sc, r') \<and>
    at r' (layout_end off (fragments addr off first ptr)) later \<and> r_reports r' = r_reports r"
  using assms
proof (induction addr off first ptr arbitrary: r scratch prosp frag rule: fragments.induct)
  case (1 addr off first ptr)
  show ?case
  proof (cases "length ptr \<le> room off")
    case True
    then have fr: "fragments addr off first ptr = [(addr, fragment_type first True, ptr)]"
      by (simp add: fragments.simps [of addr off first ptr])
    then have at: "at r off (trailer off @ record_header addr (fragment_type first True) ptr @ ptr @ later)"
      using 1(2) by simp
    obtain r' where r': "ReadPhysicalRecord read frag r = (type_code (fragment_type first True), ptr, r')"
        "at r' (record_start off + kHeaderSize + length ptr) later" "r_reports r' = r_reports r"
      using ReadPhysicalRecord_at [OF at True fragment_type_nz, of frag] by blast
    show ?thesis
      using r' 1(3) by (subst read_record_loop.simps)
        (auto simp: fr fragment_type_def reader_at_def Let_def)
  next
    case False
    let ?o = "record_start off + kHeaderSize + room off" and ?p = "take (room off) ptr"
    have fr: "fragments addr off first ptr = (addr, fragment_type first False, ?p) #
        fragments (addr + room off) ?o False (drop (room off) ptr)"
      using False by (simp add: fragments.simps [of addr off first ptr])
    then have at: "at r off (trailer off @ record_header addr (fragment_type first False) ?p @ ?p @
        (layout ?o (fragments (addr + room off) ?o False (drop (room off) ptr)) @ later))"
      using 1(2) False by simp
    obtain r1 where r1: "ReadPhysicalRecord read frag r = (type_code (fragment_type first False), ?p, r1)"
        "at r1 ?o (layout ?o (fragments (addr + room off) ?o False (drop (room off) ptr)) @ later)"
        "r_reports r1 = r_reports r"
      using ReadPhysicalRecord_at [OF at _ fragment_type_nz, of frag] False by (auto simp: min_absorb2)
    define pro where "pro = (if first then r_end_of_buffer_offset r - buffer_size r else prosp)"
    have step: "read_record_loop read (\<not> first) scratch prosp frag r =
        read_record_loop read True (scratch @ ?p) pro ?p r1"
      using r1(1) 1(3) by (subst read_record_loop.simps) (simp add: fragment_type_def Let_def pro_def)
    show ?thesis
      using 1(1) [OF False r1(2), of "scratch @ ?p" pro ?p] r1(3) False unfolding step fr
      by (auto simp: min_absorb2)
  qed
qed

lemma read_loop_end:
  assumes "at r off []"
  shows "\<exists>sc r'. read_record_loop read False [] prosp frag r = Some (False, [], sc, r') \<and> r_reports r' = r_reports r"
proof -
  obtain r' where "ReadPhysicalRecord read frag r = (kEof, frag, r')" "r_reports r' = r_reports r"
    using ReadPhysicalRecord_end [OF assms, of frag] by blast
  then show ?thesis
    by (subst read_record_loop.simps) (simp add: Let_def kEof_def)
qed

lemma ReadRecord_at:
  assumes "at r off bytes"
  shows "ReadRecord read skip r = read_record_loop read False [] 0 [] r"
  using assms by (simp add: ReadRecord_def reader_at_def)

lemma read_records_at:
  assumes "at r off (records_layout off rs)" "off \<le> log_kBlockSize"
  shows "\<exists>r'. read_records read skip (Suc (length rs)) r = Some (map snd rs, True, r') \<and> r_reports r' = r_reports r"
  using assms
proof (induction rs arbitrary: r off)
  case Nil
  then have "at r off []" by simp
  then show ?case
    using read_loop_end [of r off 0 "[]"] ReadRecord_at [of r off "[]" skip] by auto
next
  case (Cons x rs)
  obtain addr data where x: "x = (addr, data)" by (cases x)
  let ?fs = "fragments addr off True data"
  have at: "at r off (layout off ?fs @ records_layout (layout_end off ?fs) rs)" using Cons.prems x by simp
  obtain sc r1 where r1: "read_record_loop read False [] 0 [] r = Some (True, data, sc, r1)"
      "at r1 (layout_end off ?fs) (records_layout (layout_end off ?fs) rs)" "r_reports r1 = r_reports r"
    using read_loop_record [OF at, of "[]" 0 "[]"] by auto
  have rec: "ReadRecord read skip r = Some (True, data, sc, r1)"
    using ReadRecord_at [OF at, of skip] r1(1) by simp
  obtain r' where "read_records read skip (Suc (length rs)) r1 = Some (map snd rs, True, r')"
      "r_reports r' = r_reports r1"
    using Cons.IH [OF r1(2)] layout_end_fragments [OF Cons.prems(2)] by blast
  then show ?case using rec r1(3) x by auto
qed

text \<open>A new reader stands before the whole file: an empty buffer is a buffer at the end of a block.\<close>

lemma make_Reader_at:
  assumes "healthy f"
  shows "at (make_Reader f rep False 0 store g1 g2) log_kBlockSize (rest f)"
  using assms by (simp add: reader_at_def make_Reader_def)

end

subsection \<open>Reading always returns\<close>

text \<open>All that is needed is that a file does not deliver more bytes than it has.\<close>

locale finite_file =
  fixes read :: "nat \<Rightarrow> 'f \<Rightarrow> status \<times> slice \<times> 'f" and remaining :: "'f \<Rightarrow> nat"
  assumes read_remaining: "read n f = (s, data, f') \<Longrightarrow> length data + remaining f' \<le> remaining f"
begin

abbreviation unread :: "'f Reader \<Rightarrow> nat" where
  "unread r \<equiv> length (r_buffer r) + remaining (r_file r)"

lemma unread_report [simp]: "unread (ReportDrop n m r) = unread r" "unread (ReportCorruption n m' r) = unread r"
  by (simp_all add: ReportDrop_def ReportCorruption_def)

lemma parse_consumes:
  assumes "parse_record result r = (t, d, r')" "kHeaderSize \<le> length (r_buffer r)"
  shows "unread r' < unread r"
  using assms by (auto simp: parse_record_def Let_def kHeaderSize_def split: if_splits)

lemma ReadPhysicalRecord_consumes:
  assumes "ReadPhysicalRecord read result r = (t, d, r')" "t \<noteq> kEof"
  shows "unread r' < unread r"
proof (cases "length (r_buffer r) < kHeaderSize")
  case True
  obtain s buf f where rd: "read log_kBlockSize (r_file r) = (s, buf, f)" by (cases "read log_kBlockSize (r_file r)")
  have len: "length buf + remaining f \<le> remaining (r_file r)" using read_remaining [OF rd] .
  define r2 where "r2 = (let r1 = r\<lparr>r_file := f, r_buffer := buf, r_buffer_addr := r_backing_store r,
      r_end_of_buffer_offset := r_end_of_buffer_offset r + word_of_nat (length buf)\<rparr>
    in if length buf < log_kBlockSize then r1\<lparr>r_eof := True\<rparr> else r1)"
  have r2: "r_buffer r2 = buf" "r_file r2 = f" by (simp_all add: r2_def Let_def)
  have "parse_record result r2 = (t, d, r')" "kHeaderSize \<le> length buf"
    using assms True rd
    by (auto simp: ReadPhysicalRecord_def Let_def end_of_file_def r2_def [unfolded Let_def] not_less split: if_splits)
  then show ?thesis using parse_consumes [of result r2 t d r'] r2 len by simp
next
  case False
  then show ?thesis using assms parse_consumes by (simp add: ReadPhysicalRecord_def)
qed

lemma read_loop_returns: "read_record_loop read infr scratch prosp frag r \<noteq> None"
proof (induction "unread r" arbitrary: infr scratch prosp frag r rule: less_induct)
  case less
  obtain t d r1 where p: "ReadPhysicalRecord read frag r = (t, d, r1)" by (cases "ReadPhysicalRecord read frag r")
  show ?case
  proof (cases "t = kEof")
    case True
    then show ?thesis using p by (subst read_record_loop.simps) (auto simp: kEof_def Let_def)
  next
    case False
    have dec: "unread r1 < unread r" by (rule ReadPhysicalRecord_consumes [OF p False])
    have again: "read_record_loop read b sc pr fr r2 \<noteq> None" if "unread r2 = unread r1" for b sc pr fr r2
      using less [of r2] dec that by simp
    show ?thesis
      using p False by (subst read_record_loop.simps) (simp only: p prod.case Let_def, simp add: again del: not_None_eq)
  qed
qed

lemma ReadRecord_returns: "ReadRecord read skip r \<noteq> None"
  using read_loop_returns by (simp add: ReadRecord_def Let_def split: prod.splits)

end

end
