(* ===== verification/Env_Posix.thy ===== *)
theory Env_Posix
  imports Log_Reader
begin

text \<open>
  The file classes of \<^verbatim>\<open>util/env_posix.cpp\<close>.  A stdio stream is the bytes it has not delivered yet
  with its end-of-file flag and whether the device fails; a file on disk is its bytes.  Which of the
  system calls on a mapped file succeed is an argument (\<open>os\<close>), and so is the text \<^verbatim>\<open>strerror\<close> gives
  (\<open>err\<close>).  Pointers into the mapped region are offsets from \<^verbatim>\<open>base_\<close>; a mapped region is the part of
  the file it maps.
\<close>

definition PosixIOError :: "slice \<Rightarrow> slice \<Rightarrow> status" where
  "PosixIOError context err = IOError context err"

lemma PosixIOError_fails [simp]:
  "PosixIOError context err \<noteq> None" "\<exists>y. PosixIOError context err = Some y" "\<not> ok (PosixIOError context err)"
  by (simp_all add: PosixIOError_def Status_make_def IOError_def Let_def ok_def)

subsection \<open>PosixSequentialFile\<close>

record FILE =
  fl_rest :: slice
  fl_eof :: bool
  fl_fails :: bool

definition fread :: "nat \<Rightarrow> FILE \<Rightarrow> slice \<times> FILE" where
  "fread n f =
     (if fl_fails f then ([], f)
      else (take n (fl_rest f), f\<lparr>fl_rest := drop n (fl_rest f), fl_eof := length (fl_rest f) < n\<rparr>))"

record PosixSequentialFile =
  ps_filename :: slice
  ps_file :: FILE

definition PosixSequentialFile_Read ::
  "slice \<Rightarrow> nat \<Rightarrow> PosixSequentialFile \<Rightarrow> status \<times> slice \<times> PosixSequentialFile" where
  "PosixSequentialFile_Read err n p =
     (let (data, f) = fread n (ps_file p);
          s = (if length data < n then if fl_eof f then None else PosixIOError (ps_filename p) err else None)
      in (s, data, p\<lparr>ps_file := f\<rparr>))"

definition PosixSequentialFile_Skip ::
  "slice \<Rightarrow> u64 \<Rightarrow> PosixSequentialFile \<Rightarrow> status \<times> PosixSequentialFile" where
  "PosixSequentialFile_Skip err n p =
     (let f = ps_file p
      in if fl_fails f then (PosixIOError (ps_filename p) err, p)
         else (None, p\<lparr>ps_file := f\<lparr>fl_rest := drop (unat n) (fl_rest f), fl_eof := False\<rparr>\<rparr>))"

interpretation posix_seq: sequential_file "PosixSequentialFile_Read err" "\<lambda>p. fl_rest (ps_file p)"
  "\<lambda>p. \<not> fl_fails (ps_file p)"
  by unfold_locales (auto simp: PosixSequentialFile_Read_def fread_def Let_def split: if_splits)

interpretation posix_fin: finite_file "PosixSequentialFile_Read err" "\<lambda>p. length (fl_rest (ps_file p))"
  by unfold_locales (auto simp: PosixSequentialFile_Read_def fread_def Let_def split: if_splits)

subsection \<open>Random access\<close>

text \<open>\<^verbatim>\<open>pread\<close> on the bytes of the file: it fails on a negative \<^verbatim>\<open>off_t\<close> and when the device fails.\<close>

definition pread :: "bool \<Rightarrow> slice \<Rightarrow> nat \<Rightarrow> u64 \<Rightarrow> slice option" where
  "pread fails file n offset =
     (if fails \<or> sint offset < 0 then None else Some (take n (drop (unat offset) file)))"

definition PosixRandomAccessFile_Read :: "bool \<Rightarrow> slice \<Rightarrow> slice \<Rightarrow> slice \<Rightarrow> u64 \<Rightarrow> nat \<Rightarrow> status \<times> slice" where
  "PosixRandomAccessFile_Read fails err filename file offset n =
     (case pread fails file n offset of
        None \<Rightarrow> (PosixIOError filename err, [])
      | Some data \<Rightarrow> (None, data))"

text \<open>\<^verbatim>\<open>Acquire\<close> looks at the counter twice, first without the lock: \<open>seen\<close> is what it saw then, \<open>allowed\<close>
  the value under the lock.\<close>

definition MmapLimiter_init :: int where
  "MmapLimiter_init = 1000"

definition MmapLimiter_Acquire :: "int \<Rightarrow> int \<Rightarrow> bool \<times> int" where
  "MmapLimiter_Acquire seen allowed =
     (if seen \<le> 0 then (False, allowed)
      else if allowed \<le> 0 then (False, allowed) else (True, allowed - 1))"

definition MmapLimiter_Release :: "int \<Rightarrow> int" where
  "MmapLimiter_Release allowed = allowed + 1"

text \<open>The sum \<^verbatim>\<open>offset + n\<close> is computed in 64 bits.\<close>

definition PosixMmapReadableFile_Read ::
  "slice \<Rightarrow> slice \<Rightarrow> slice \<Rightarrow> u64 \<Rightarrow> u64 \<Rightarrow> status \<times> slice" where
  "PosixMmapReadableFile_Read err filename region offset n =
     (if unat (offset + n) > length region then (PosixIOError filename err, [])
      else (None, take (unat n) (drop (unat offset) region)))"

subsection \<open>PosixMmapFile\<close>

record PosixMmapFile =
  mf_filename :: slice
  mf_file :: slice
  mf_open :: bool
  mf_page_size :: nat
  mf_map_size :: nat
  mf_mapped :: bool
  mf_limit :: nat
  mf_dst :: nat
  mf_last_sync :: nat
  mf_file_offset :: nat
  mf_pending_sync :: bool

record os =
  os_munmap :: "PosixMmapFile \<Rightarrow> bool"
  os_ftruncate :: "PosixMmapFile \<Rightarrow> bool"
  os_mmap :: "PosixMmapFile \<Rightarrow> bool"
  os_fdatasync :: "PosixMmapFile \<Rightarrow> bool"
  os_msync :: "PosixMmapFile \<Rightarrow> bool"
  os_close :: "PosixMmapFile \<Rightarrow> bool"

definition Roundup :: "nat \<Rightarrow> nat \<Rightarrow> nat" where
  "Roundup x y = ((x + y - 1) div y) * y"

definition TruncateToPageBoundary :: "nat \<Rightarrow> nat \<Rightarrow> nat" where
  "TruncateToPageBoundary page_size s = s - (s AND (page_size - 1))"

definition make_PosixMmapFile :: "slice \<Rightarrow> nat \<Rightarrow> PosixMmapFile" where
  "make_PosixMmapFile fname page_size =
     \<lparr>mf_filename = fname, mf_file = [], mf_open = True, mf_page_size = page_size,
      mf_map_size = Roundup 65536 page_size, mf_mapped = False, mf_limit = 0, mf_dst = 0, mf_last_sync = 0,
      mf_file_offset = 0, mf_pending_sync = False\<rparr>"

definition UnmapCurrentRegion :: "os \<Rightarrow> PosixMmapFile \<Rightarrow> bool \<times> PosixMmapFile" where
  "UnmapCurrentRegion os m =
     (if mf_mapped m then
        (os_munmap os m,
         m\<lparr>mf_pending_sync := mf_pending_sync m \<or> mf_last_sync m < mf_limit m,
           mf_file_offset := mf_file_offset m + mf_limit m,
           mf_mapped := False, mf_limit := 0, mf_last_sync := 0, mf_dst := 0,
           mf_map_size := (if mf_map_size m < 2 ^ 20 then mf_map_size m * 2 else mf_map_size m)\<rparr>)
      else (True, m))"

definition MapNewRegion :: "os \<Rightarrow> PosixMmapFile \<Rightarrow> bool \<times> PosixMmapFile" where
  "MapNewRegion os m =
     (if \<not> os_ftruncate os m then (False, m)
      else let m1 = m\<lparr>mf_file := resize (mf_file m) (mf_file_offset m + mf_map_size m)\<rparr>
           in if \<not> os_mmap os m1 then (False, m1)
              else (True, m1\<lparr>mf_mapped := True, mf_limit := mf_map_size m1, mf_dst := 0, mf_last_sync := 0\<rparr>))"

text \<open>\<^verbatim>\<open>avail\<close> is computed before a new region is mapped, so the turn that maps one copies nothing.\<close>

partial_function (option) mmap_append_loop ::
  "os \<Rightarrow> slice \<Rightarrow> slice \<Rightarrow> PosixMmapFile \<Rightarrow> (status \<times> PosixMmapFile) option" where
  "mmap_append_loop os err src m =
     (if src = [] then Some (None, m)
      else let avail = mf_limit m - mf_dst m
           in if avail = 0 then
                let (ok1, m1) = UnmapCurrentRegion os m in
                if \<not> ok1 then Some (PosixIOError (mf_filename m) err, m1)
                else let (ok2, m2) = MapNewRegion os m1 in
                     if \<not> ok2 then Some (PosixIOError (mf_filename m) err, m2)
                     else mmap_append_loop os err src m2
              else let n = (if length src \<le> avail then length src else avail)
                   in mmap_append_loop os err (drop n src)
                        (m\<lparr>mf_file := patch (mf_file m) (mf_file_offset m + mf_dst m) (take n src),
                           mf_dst := mf_dst m + n\<rparr>))"

definition PosixMmapFile_Append ::
  "os \<Rightarrow> slice \<Rightarrow> slice \<Rightarrow> PosixMmapFile \<Rightarrow> (status \<times> PosixMmapFile) option" where
  "PosixMmapFile_Append os err data m = mmap_append_loop os err data m"

definition PosixMmapFile_Close :: "os \<Rightarrow> slice \<Rightarrow> PosixMmapFile \<Rightarrow> status \<times> PosixMmapFile" where
  "PosixMmapFile_Close os err m =
     (let unused = mf_limit m - mf_dst m;
          (unmapped, m1) = UnmapCurrentRegion os m;
          (s, m2) =
            (if \<not> unmapped then (PosixIOError (mf_filename m) err, m1)
             else if unused > 0 then
               if os_ftruncate os m1
               then (None, m1\<lparr>mf_file := resize (mf_file m1) (mf_file_offset m1 - unused)\<rparr>)
               else (PosixIOError (mf_filename m) err, m1)
             else (None, m1));
          s = (if os_close os m2 then s else if ok s then PosixIOError (mf_filename m) err else s)
      in (s, m2\<lparr>mf_open := False, mf_mapped := False, mf_limit := 0\<rparr>))"

definition PosixMmapFile_Flush :: "PosixMmapFile \<Rightarrow> status \<times> PosixMmapFile" where
  "PosixMmapFile_Flush m = (None, m)"

text \<open>\<^verbatim>\<open>Sync\<close> returns, besides the status, the range \<open>(offset, length)\<close> it passed to \<^verbatim>\<open>msync\<close>.\<close>

definition PosixMmapFile_Sync :: "os \<Rightarrow> slice \<Rightarrow> PosixMmapFile \<Rightarrow> status \<times> (nat \<times> nat) option \<times> PosixMmapFile" where
  "PosixMmapFile_Sync os err m =
     (let (s, m1) = (if mf_pending_sync m
                     then let m0 = m\<lparr>mf_pending_sync := False\<rparr>
                          in (if os_fdatasync os m0 then None else PosixIOError (mf_filename m) err, m0)
                     else (None, m))
      in if mf_dst m1 > mf_last_sync m1 then
           let p1 = TruncateToPageBoundary (mf_page_size m1) (mf_last_sync m1);
               p2 = TruncateToPageBoundary (mf_page_size m1) (mf_dst m1 - 1);
               m2 = m1\<lparr>mf_last_sync := mf_dst m1\<rparr>
           in (if os_msync os m2 then s else PosixIOError (mf_filename m) err,
               Some (p1, p2 - p1 + mf_page_size m1), m2)
         else (s, None, m1))"

subsection \<open>The mapped file holds what was appended\<close>

text \<open>What the file holds so far is the part before the write position.\<close>

definition mm_contents :: "PosixMmapFile \<Rightarrow> slice" where
  "mm_contents m = take (mf_file_offset m + mf_dst m) (mf_file m)"

definition mm_ok :: "PosixMmapFile \<Rightarrow> bool" where
  "mm_ok m \<longleftrightarrow> mf_map_size m > 0 \<and> mf_dst m \<le> mf_limit m \<and> mf_last_sync m \<le> mf_dst m \<and>
     (mf_mapped m \<longrightarrow> mf_limit m > 0) \<and> (\<not> mf_mapped m \<longrightarrow> mf_limit m = 0) \<and>
     mf_file_offset m + mf_limit m \<le> length (mf_file m)"

text \<open>The file is exactly as long as the mapped region reaches.\<close>

definition mm_tight :: "PosixMmapFile \<Rightarrow> bool" where
  "mm_tight m \<longleftrightarrow> mm_ok m \<and> length (mf_file m) = mf_file_offset m + mf_limit m"

definition reliable_os :: os where
  "reliable_os = \<lparr>os_munmap = \<lambda>_. True, os_ftruncate = \<lambda>_. True, os_mmap = \<lambda>_. True, os_fdatasync = \<lambda>_. True,
     os_msync = \<lambda>_. True, os_close = \<lambda>_. True\<rparr>"

lemma make_mm_tight: "page_size > 0 \<Longrightarrow> mm_tight (make_PosixMmapFile fname page_size)"
  by (simp add: mm_tight_def mm_ok_def make_PosixMmapFile_def Roundup_def div_greater_zero_iff)

lemma Unmap_ok:
  assumes "mm_ok m" "UnmapCurrentRegion os m = (b, m')"
  shows "mm_ok m' \<and> \<not> mf_mapped m' \<and> mf_file m' = mf_file m \<and> mf_file_offset m' = mf_file_offset m + mf_limit m"
  using assms by (auto simp: UnmapCurrentRegion_def mm_ok_def split: if_splits)

lemma Map_ok:
  assumes "mm_ok m" "\<not> mf_mapped m" "MapNewRegion os m = (b, m')"
  shows "mm_ok m' \<and> mm_contents m' = mm_contents m \<and> (b \<longrightarrow> mf_limit m' - mf_dst m' > 0)"
  using assms by (auto simp: MapNewRegion_def mm_ok_def mm_contents_def resize_def Let_def split: if_splits)

text \<open>Making room: the two calls \<^verbatim>\<open>Append\<close> makes at the end of a region keep what the file holds.\<close>

lemma remap_ok:
  assumes "mm_ok m" "mf_limit m - mf_dst m = 0" "UnmapCurrentRegion os m = (b1, m1)" "MapNewRegion os m1 = (b2, m2)"
  shows "mm_ok m1 \<and> mm_contents m1 = mm_contents m"
    and "mm_ok m2 \<and> mm_contents m2 = mm_contents m \<and> (b2 \<longrightarrow> mf_limit m2 - mf_dst m2 > 0)"
proof -
  have d: "mf_dst m = mf_limit m" using assms(1,2) by (simp add: mm_ok_def)
  note u = Unmap_ok [OF assms(1,3)]
  show 1: "mm_ok m1 \<and> mm_contents m1 = mm_contents m"
    using u d by (auto simp: mm_contents_def mm_ok_def)
  show "mm_ok m2 \<and> mm_contents m2 = mm_contents m \<and> (b2 \<longrightarrow> mf_limit m2 - mf_dst m2 > 0)"
    using Map_ok [OF _ _ assms(4)] u 1 by auto
qed

lemma copy_ok:
  assumes "mm_ok m" "n = length d" "n \<le> mf_limit m - mf_dst m"
  shows "mm_ok (m\<lparr>mf_file := patch (mf_file m) (mf_file_offset m + mf_dst m) d, mf_dst := mf_dst m + n\<rparr>) \<and>
    mm_contents (m\<lparr>mf_file := patch (mf_file m) (mf_file_offset m + mf_dst m) d, mf_dst := mf_dst m + n\<rparr>) =
      mm_contents m @ d"
  using assms by (auto simp: mm_ok_def mm_contents_def patch_def min_def)

text \<open>\<^verbatim>\<open>Append\<close> always returns, whatever the system calls do, and what the file holds afterwards is what it
  held followed by a prefix of the data: all of it when the status is OK.\<close>

lemma append_loop_ok:
  assumes "mm_ok m"
  shows "\<exists>s m' n. mmap_append_loop os err src m = Some (s, m') \<and> mm_ok m' \<and>
    mm_contents m' = mm_contents m @ take n src \<and> (s = None \<longrightarrow> take n src = src) \<and>
    (os = reliable_os \<longrightarrow> s = None \<and> (mm_tight m \<longrightarrow> mm_tight m'))"
  using assms
proof (induction "2 * length src + (if mf_limit m - mf_dst m = 0 then 1 else 0)" arbitrary: src m rule: less_induct)
  case less
  let ?avail = "mf_limit m - mf_dst m"
  consider "src = []" | "src \<noteq> []" "?avail = 0" | "src \<noteq> []" "?avail > 0" by blast
  then show ?case
  proof cases
    case 1
    then show ?thesis using less.prems by (subst mmap_append_loop.simps) auto
  next
    case 2
    obtain b1 m1 where u: "UnmapCurrentRegion os m = (b1, m1)" by (cases "UnmapCurrentRegion os m")
    obtain b2 m2 where n: "MapNewRegion os m1 = (b2, m2)" by (cases "MapNewRegion os m1")
    note r = remap_ok [OF less.prems 2(2) u n]
    have rel: "b1 \<and> b2 \<and> mm_tight m2" if "os = reliable_os"
      using u n that r(2)
      by (auto simp: UnmapCurrentRegion_def MapNewRegion_def reliable_os_def Let_def mm_tight_def resize_def
          split: if_splits)
    show ?thesis
    proof (cases "b1 \<and> b2")
      case True
      then have "mmap_append_loop os err src m = mmap_append_loop os err src m2"
        using 2 u n by (subst mmap_append_loop.simps) simp
      then show ?thesis using less.hyps [of src m2] r(2) 2(2) True rel by auto
    next
      case False
      then show ?thesis
        using 2 u n r rel by (subst mmap_append_loop.simps) (auto simp: Let_def intro!: exI [of _ 0])
    qed
  next
    case 3
    define n where "n = min (length src) ?avail"
    define m1 where "m1 = m\<lparr>mf_file := patch (mf_file m) (mf_file_offset m + mf_dst m) (take n src), mf_dst := mf_dst m + n\<rparr>"
    have c: "mm_ok m1 \<and> mm_contents m1 = mm_contents m @ take n src"
      using copy_ok [OF less.prems, of n "take n src"] by (simp add: n_def m1_def)
    have step: "mmap_append_loop os err src m = mmap_append_loop os err (drop n src) m1"
      using 3 by (subst mmap_append_loop.simps) (simp add: Let_def min_def n_def m1_def)
    have "n > 0" "n \<le> length src" using 3 by (auto simp: n_def)
    then have dec: "2 * length (drop n src) + (if mf_limit m1 - mf_dst m1 = 0 then 1 else 0)
        < 2 * length src + (if mf_limit m - mf_dst m = 0 then 1 else 0)" by auto
    obtain s m' k where "mmap_append_loop os err (drop n src) m1 = Some (s, m')" "mm_ok m'"
        "mm_contents m' = mm_contents m1 @ take k (drop n src)" "s = None \<longrightarrow> take k (drop n src) = drop n src"
        "os = reliable_os \<longrightarrow> s = None \<and> (mm_tight m1 \<longrightarrow> mm_tight m')"
      using less.hyps [OF dec] c by blast
    moreover have "mm_tight m1" if "mm_tight m"
      using c that less.prems by (auto simp: mm_tight_def mm_ok_def patch_def m1_def n_def)
    ultimately show ?thesis
      using c step by (intro exI [of _ s] exI [of _ m'] exI [of _ "n + k"]) (simp add: take_add)
  qed
qed

interpretation posix_mmap: writable_file "\<lambda>data m. the (PosixMmapFile_Append reliable_os err data m)"
  PosixMmapFile_Flush mm_contents mm_tight
proof unfold_locales
  fix m data s m'
  assume m: "mm_tight m" and a: "the (PosixMmapFile_Append reliable_os err data m) = (s, m')"
  then have "mm_ok m" by (simp add: mm_tight_def)
  then show "s = None \<and> mm_contents m' = mm_contents m @ data \<and> mm_tight m'"
    using append_loop_ok [of m reliable_os err data] m a by (auto simp: PosixMmapFile_Append_def)
qed (simp_all add: PosixMmapFile_Flush_def)

text \<open>\<^verbatim>\<open>Close\<close> cuts the file to what was appended.\<close>

lemma Close_ok:
  assumes "mm_tight m" "PosixMmapFile_Close os err m = (s, m')" "s = None"
  shows "mf_file m' = mm_contents m"
proof -
  obtain b m1 where u: "UnmapCurrentRegion os m = (b, m1)" by (cases "UnmapCurrentRegion os m")
  have "mm_ok m" using assms(1) by (simp add: mm_tight_def)
  note u' = Unmap_ok [OF this u]
  have le: "length (mf_file m) = mf_file_offset m + mf_limit m" "mf_dst m \<le> mf_limit m"
    using assms(1) by (simp_all add: mm_tight_def mm_ok_def)
  show ?thesis
    using assms u u' le
    by (auto simp: PosixMmapFile_Close_def Let_def mm_contents_def resize_def split: if_splits)
qed

lemma Close_reliable: "fst (PosixMmapFile_Close reliable_os err m) = None"
  by (auto simp: PosixMmapFile_Close_def UnmapCurrentRegion_def reliable_os_def Let_def split: if_splits)

text \<open>\<^verbatim>\<open>Sync\<close> passes whole pages to \<^verbatim>\<open>msync\<close> that cover every byte not yet synced.\<close>

lemma TruncateToPageBoundary_mod: "TruncateToPageBoundary (2 ^ k) s = s - s mod 2 ^ k"
proof -
  have "s AND (2 ^ k - 1) = s mod 2 ^ k"
    using take_bit_eq_mask [of k s] by (simp add: take_bit_eq_mod mask_eq_exp_minus_1)
  then show ?thesis by (simp add: TruncateToPageBoundary_def)
qed

lemma page_bounds:
  fixes s :: nat
  assumes "p > 0"
  shows "s - s mod p \<le> s" "s < s - s mod p + p"
  using mod_less_divisor [OF assms, of s] mod_less_eq_dividend [of s p] by linarith+

lemma Sync_ok:
  assumes "mm_ok m" "mf_page_size m = 2 ^ k" "PosixMmapFile_Sync reliable_os err m = (s, rng, m')"
  shows "s = None \<and> \<not> mf_pending_sync m' \<and> mf_last_sync m' = mf_dst m' \<and> mm_contents m' = mm_contents m \<and>
    (case rng of None \<Rightarrow> mf_last_sync m = mf_dst m
     | Some (p, len) \<Rightarrow> p \<le> mf_last_sync m \<and> mf_dst m \<le> p + len \<and> 2 ^ k dvd p \<and> 2 ^ k dvd len)"
proof -
  have le: "mf_last_sync m \<le> mf_dst m" using assms(1) by (simp add: mm_ok_def)
  show ?thesis
  proof (cases "mf_last_sync m < mf_dst m")
    case True
    define p1 where "p1 = TruncateToPageBoundary (2 ^ k) (mf_last_sync m)"
    define p2 where "p2 = TruncateToPageBoundary (2 ^ k) (mf_dst m - 1)"
    have "p1 \<le> p2" "2 ^ k dvd p1" "2 ^ k dvd p2" using True
      by (simp_all add: p1_def p2_def TruncateToPageBoundary_mod minus_mod_eq_mult_div div_le_mono)
    moreover have "p1 \<le> mf_last_sync m" "mf_dst m - 1 < p2 + 2 ^ k"
      unfolding p1_def p2_def TruncateToPageBoundary_mod by (rule page_bounds, simp)+
    moreover from this have "mf_dst m \<le> p2 + 2 ^ k" using True by linarith
    moreover have "PosixMmapFile_Sync reliable_os err m = (None, Some (p1, p2 - p1 + 2 ^ k),
        m\<lparr>mf_pending_sync := False, mf_last_sync := mf_dst m\<rparr>)"
      using assms(2) True by (simp add: PosixMmapFile_Sync_def reliable_os_def Let_def p1_def p2_def)
    ultimately show ?thesis
      using assms(3) by (auto simp: mm_contents_def)
  next
    case False
    then show ?thesis
      using assms le
      by (auto simp: PosixMmapFile_Sync_def reliable_os_def Let_def mm_contents_def split: if_splits)
  qed
qed

text \<open>A log written to a new file and closed, and a new reader on the file.\<close>

definition write_log :: "slice \<Rightarrow> slice \<Rightarrow> nat \<Rightarrow> (nat \<times> slice) list \<Rightarrow> status \<times> status \<times> slice" where
  "write_log err fname page_size rs =
     (let (s, w) = add_records (\<lambda>data m. the (PosixMmapFile_Append reliable_os err data m)) PosixMmapFile_Flush rs
                     (make_Writer (make_PosixMmapFile fname page_size));
          (s2, m) = PosixMmapFile_Close reliable_os err (w_dest w)
      in (s, s2, mf_file m))"

definition open_log :: "slice \<Rightarrow> slice \<Rightarrow> bool \<Rightarrow> nat \<Rightarrow> u64 \<Rightarrow> u64 \<Rightarrow> PosixSequentialFile Reader" where
  "open_log fname bytes checksum store g1 g2 =
     make_Reader \<lparr>ps_filename = fname, ps_file = \<lparr>fl_rest = bytes, fl_eof = False, fl_fails = False\<rparr>\<rparr>
       True checksum 0 store g1 g2"

lemma write_log_layout:
  assumes "page_size > 0"
  shows "write_log err fname page_size rs = (None, None, records_layout 0 rs)"
proof -
  let ?w = "make_Writer (make_PosixMmapFile fname page_size)"
  obtain s w where a: "add_records (\<lambda>data m. the (PosixMmapFile_Append reliable_os err data m)) PosixMmapFile_Flush rs ?w
      = (s, w)" by fastforce
  obtain s2 m where c: "PosixMmapFile_Close reliable_os err (w_dest w) = (s2, m)" by fastforce
  have "mm_tight (w_dest ?w)" "mm_contents (w_dest ?w) = []" "w_block_offset ?w = 0"
    using make_mm_tight [OF assms, of fname] by (simp_all add: make_Writer_def mm_contents_def make_PosixMmapFile_def)
  with posix_mmap.add_records_ok [OF _ a]
  have "s = None" "mm_tight (w_dest w)" "mm_contents (w_dest w) = records_layout 0 rs" by simp_all
  moreover have "s2 = None" using Close_reliable [of err "w_dest w"] c by simp
  ultimately show ?thesis
    using Close_ok [OF _ c] a c by (simp add: write_log_def)
qed




lemma alignment_changes_crc: "Value 6 [1, 1, 2, 3, 4] \<noteq> Extend 0 (type_crc kFullType) [1, 2, 3, 4]"
  by code_simp


text \<open>C10: Reading a record from a log always returns, whatever bytes the file has, whether or not checksums are
  checked, in every state of the reader, and also when the device fails.\<close>

theorem read_record_returns:
  "\<exists>more_data record scratch r'.
     ReadRecord (PosixSequentialFile_Read err) (PosixSequentialFile_Skip err) r = Some (more_data, record, scratch, r')"
  using posix_fin.ReadRecord_returns [of err "PosixSequentialFile_Skip err" r] by auto

text \<open>C34: \<^verbatim>\<open>PosixMmapFile::Append\<close> returns whatever the system calls do.  It keeps the invariant of the file and
  adds a prefix of the data to what the file holds; it adds all of it when it returns OK.\<close>

theorem mmap_append_correct:
  assumes "mm_ok m"
  shows "\<exists>s m' n. PosixMmapFile_Append os err data m = Some (s, m') \<and> mm_ok m' \<and>
    mm_contents m' = mm_contents m @ take n data \<and> (ok s \<longrightarrow> take n data = data)"
  using append_loop_ok [OF assms, of os err data] unfolding PosixMmapFile_Append_def ok_def by blast

theorem mmap_append_correct_witness:
  "\<exists>s m' n. PosixMmapFile_Append (reliable_os\<lparr>os_mmap := \<lambda>_. False\<rparr>) [] [1, 2] (make_PosixMmapFile [] 4096) = Some (s, m') \<and>
    mm_ok m' \<and> mm_contents m' = take n [1, 2] \<and> (ok s \<longrightarrow> take n [1, 2] = ([1, 2] :: slice))"
proof -
  have "mm_ok (make_PosixMmapFile [] 4096)" using make_mm_tight [of 4096 "[]"] by (simp add: mm_tight_def)
  moreover have "mm_contents (make_PosixMmapFile [] 4096) = []" by (simp add: mm_contents_def make_PosixMmapFile_def)
  ultimately show ?thesis
    using mmap_append_correct [of "make_PosixMmapFile [] 4096" "reliable_os\<lparr>os_mmap := \<lambda>_. False\<rparr>" "[]" "[1, 2]"] by simp
qed



text \<open>The limiter: of the slots handed out and not given back, and those left, there are always as many as at the
  start, whatever the unlocked read saw.\<close>

inductive limiter_reach :: "int \<Rightarrow> int \<Rightarrow> bool" where
  start: "limiter_reach MmapLimiter_init 0"
| acquire: "limiter_reach allowed held \<Longrightarrow> MmapLimiter_Acquire seen allowed = (got, allowed') \<Longrightarrow>
    limiter_reach allowed' (if got then held + 1 else held)"
| release: "limiter_reach allowed held \<Longrightarrow> held > 0 \<Longrightarrow> limiter_reach (MmapLimiter_Release allowed) (held - 1)"

lemma limiter_bounded: "limiter_reach allowed held \<Longrightarrow> 0 \<le> allowed \<and> 0 \<le> held \<and> allowed + held = 1000"
  by (induction rule: limiter_reach.induct)
    (auto simp: MmapLimiter_init_def MmapLimiter_Acquire_def MmapLimiter_Release_def split: if_splits)

end
