(* ===== verification/Env_Base.thy ===== *)
theory Env_Base
  imports Env_Posix
begin

text \<open>
  The interface \<^verbatim>\<open>Env\<close> of \<^verbatim>\<open>leveldb/env.h\<close>, as a record of its operations on a state of the environment,
  and the helpers of \<^verbatim>\<open>util/env.cpp\<close>.  A writable file is named by its file name; the state holds the files
  that are open for writing.  A sequential file is a state of its own.  The locale \<open>env\<close> states what the
  operations do when no device fails.
\<close>

record ('e, 's) env_ops =
  eo_NewSequentialFile :: "slice \<Rightarrow> 'e \<Rightarrow> status \<times> 's option"
  eo_Read :: "nat \<Rightarrow> 's \<Rightarrow> status \<times> slice \<times> 's"
  eo_Skip :: "u64 \<Rightarrow> 's \<Rightarrow> status \<times> 's"
  eo_NewWritableFile :: "slice \<Rightarrow> 'e \<Rightarrow> status \<times> 'e"
  eo_Append :: "slice \<Rightarrow> slice \<Rightarrow> 'e \<Rightarrow> status \<times> 'e"
  eo_Flush :: "slice \<Rightarrow> 'e \<Rightarrow> status \<times> 'e"
  eo_Sync :: "slice \<Rightarrow> 'e \<Rightarrow> status \<times> 'e"
  eo_Close :: "slice \<Rightarrow> 'e \<Rightarrow> status \<times> 'e"
  eo_destroy :: "slice \<Rightarrow> 'e \<Rightarrow> 'e"
  eo_DeleteFile :: "slice \<Rightarrow> 'e \<Rightarrow> status \<times> 'e"
  eo_RenameFile :: "slice \<Rightarrow> slice \<Rightarrow> 'e \<Rightarrow> status \<times> 'e"

text \<open>\<^verbatim>\<open>delete file\<close> is \<open>eo_destroy\<close>.\<close>

definition DoWriteStringToFile ::
  "('e, 's) env_ops \<Rightarrow> slice \<Rightarrow> slice \<Rightarrow> bool \<Rightarrow> 'e \<Rightarrow> status \<times> 'e" where
  "DoWriteStringToFile E data fname should_sync e =
     (let (s, e) = eo_NewWritableFile E fname e
      in if \<not> ok s then (s, e)
         else let (s, e) = eo_Append E fname data e;
                  (s, e) = (if ok s \<and> should_sync then eo_Sync E fname e else (s, e));
                  (s, e) = (if ok s then eo_Close E fname e else (s, e));
                  e = eo_destroy E fname e;
                  e = (if \<not> ok s then snd (eo_DeleteFile E fname e) else e)
              in (s, e))"

definition WriteStringToFile :: "('e, 's) env_ops \<Rightarrow> slice \<Rightarrow> slice \<Rightarrow> 'e \<Rightarrow> status \<times> 'e" where
  "WriteStringToFile E data fname e = DoWriteStringToFile E data fname False e"

definition WriteStringToFileSync :: "('e, 's) env_ops \<Rightarrow> slice \<Rightarrow> slice \<Rightarrow> 'e \<Rightarrow> status \<times> 'e" where
  "WriteStringToFileSync E data fname e = DoWriteStringToFile E data fname True e"

text \<open>The loop of \<^verbatim>\<open>ReadFileToString\<close>, with the status and the data read so far.\<close>

partial_function (option) read_file_loop ::
  "('e, 's) env_ops \<Rightarrow> slice \<Rightarrow> 's \<Rightarrow> (status \<times> slice) option" where
  "read_file_loop E data file =
     (let (s, fragment, file) = eo_Read E 8192 file
      in if \<not> ok s then Some (s, data)
         else if fragment = [] then Some (s, data @ fragment)
         else read_file_loop E (data @ fragment) file)"

definition ReadFileToString :: "('e, 's) env_ops \<Rightarrow> slice \<Rightarrow> 'e \<Rightarrow> (status \<times> slice) option" where
  "ReadFileToString E fname e =
     (case eo_NewSequentialFile E fname e of
        (s, None) \<Rightarrow> Some (s, [])
      | (s, Some file) \<Rightarrow> if \<not> ok s then Some (s, []) else read_file_loop E [] file)"

subsection \<open>The contract\<close>

locale env =
  fixes E :: "('e, 's) env_ops" and files :: "'e \<Rightarrow> slice \<Rightarrow> slice option" and opened :: "'e \<Rightarrow> slice set"
    and healthy :: "'e \<Rightarrow> bool" and rest :: "'s \<Rightarrow> slice" and seq_ok :: "'s \<Rightarrow> bool"
  assumes opened_files: "healthy e \<Longrightarrow> n \<in> opened e \<Longrightarrow> files e n \<noteq> None"
    and new_writable: "healthy e \<Longrightarrow> eo_NewWritableFile E n e = (s, e') \<Longrightarrow>
      s = None \<and> healthy e' \<and> files e' = (files e)(n \<mapsto> []) \<and> opened e' = insert n (opened e)"
    and append: "healthy e \<Longrightarrow> n \<in> opened e \<Longrightarrow> eo_Append E n data e = (s, e') \<Longrightarrow>
      s = None \<and> healthy e' \<and> files e' = (files e)(n \<mapsto> the (files e n) @ data) \<and> opened e' = opened e"
    and flush: "healthy e \<Longrightarrow> n \<in> opened e \<Longrightarrow> eo_Flush E n e = (s, e') \<Longrightarrow>
      s = None \<and> healthy e' \<and> files e' = files e \<and> opened e' = opened e"
    and sync: "healthy e \<Longrightarrow> n \<in> opened e \<Longrightarrow> eo_Sync E n e = (s, e') \<Longrightarrow>
      s = None \<and> healthy e' \<and> files e' = files e \<and> opened e' = opened e"
    and close: "healthy e \<Longrightarrow> n \<in> opened e \<Longrightarrow> eo_Close E n e = (s, e') \<Longrightarrow>
      s = None \<and> healthy e' \<and> files e' = files e \<and> opened e' = opened e - {n}"
    and destroy: "healthy e \<Longrightarrow> healthy (eo_destroy E n e) \<and> files (eo_destroy E n e) = files e \<and>
      opened (eo_destroy E n e) = opened e - {n}"
    and rename: "healthy e \<Longrightarrow> a \<noteq> b \<Longrightarrow> a \<notin> opened e \<Longrightarrow> b \<notin> opened e \<Longrightarrow> files e a = Some c \<Longrightarrow>
      eo_RenameFile E a b e = (s, e') \<Longrightarrow>
      s = None \<and> healthy e' \<and> files e' = (files e)(a := None, b \<mapsto> c) \<and> opened e' = opened e"
    and open_sequential: "healthy e \<Longrightarrow> n \<notin> opened e \<Longrightarrow> files e n = Some c \<Longrightarrow>
      \<exists>h. eo_NewSequentialFile E n e = (None, Some h) \<and> rest h = c \<and> seq_ok h"
    and read: "seq_ok h \<Longrightarrow> eo_Read E k h = (s, data, h') \<Longrightarrow>
      s = None \<and> data = take k (rest h) \<and> rest h' = drop k (rest h) \<and> seq_ok h'"
begin

lemma write_string:
  assumes "healthy e" "DoWriteStringToFile E data n sync' e = (s, e')"
  shows "s = None \<and> healthy e' \<and> files e' = (files e)(n \<mapsto> data) \<and> opened e' = opened e - {n}"
proof -
  obtain s1 e1 where 1: "eo_NewWritableFile E n e = (s1, e1)" by fastforce
  note n1 = new_writable [OF assms(1) 1]
  obtain s2 e2 where 2: "eo_Append E n data e1 = (s2, e2)" by fastforce
  have o1: "healthy e1" "n \<in> opened e1" using n1 by auto
  note n2 = append [OF o1 2]
  have o2: "healthy e2" "n \<in> opened e2" using n2 o1 by auto
  obtain s3 e3 where 3: "(if ok s2 \<and> sync' then eo_Sync E n e2 else (s2, e2)) = (s3, e3)" by fastforce
  have n3: "s3 = None \<and> healthy e3 \<and> files e3 = files e2 \<and> opened e3 = opened e2"
    using 3 n2 sync [OF o2] by (cases sync') (auto simp: ok_def)
  have o3: "healthy e3" "n \<in> opened e3" using n3 o2 by auto
  obtain s4 e4 where 4: "eo_Close E n e3 = (s4, e4)" by fastforce
  note n4 = close [OF o3 4]
  have n5: "healthy (eo_destroy E n e4) \<and> files (eo_destroy E n e4) = files e4 \<and>
      opened (eo_destroy E n e4) = opened e4 - {n}"
    using destroy n4 by blast
  have "DoWriteStringToFile E data n sync' e = (s4, eo_destroy E n e4)"
    unfolding DoWriteStringToFile_def Let_def 1 prod.case 2 3 using n1 n3 n4 4 by (simp add: ok_def)
  then show ?thesis using assms(2) n1 n2 n3 n4 n5 by auto
qed

sublocale seq: sequential_file "eo_Read E" rest seq_ok
  by unfold_locales (rule read)

text \<open>A log on the file \<open>n\<close>, while the other files \<open>F\<close> and the set \<open>Op\<close> of open files stay as they are.\<close>

sublocale log: writable_file "eo_Append E n" "eo_Flush E n" "\<lambda>e. the (files e n)"
  "\<lambda>e. healthy e \<and> n \<in> Op \<and> opened e = Op \<and> (files e)(n := None) = F" for n Op F
proof unfold_locales
  fix e data s e'
  assume h: "healthy e \<and> n \<in> Op \<and> opened e = Op \<and> (files e)(n := None) = F"
  then have o: "healthy e" "n \<in> opened e" by auto
  show "s = None \<and> the (files e' n) = the (files e n) @ data \<and>
      healthy e' \<and> n \<in> Op \<and> opened e' = Op \<and> (files e')(n := None) = F" if "eo_Append E n data e = (s, e')"
    using append [OF o that] h by auto
  show "s = None \<and> the (files e' n) = the (files e n) \<and>
      healthy e' \<and> n \<in> Op \<and> opened e' = Op \<and> (files e')(n := None) = F" if "eo_Flush E n e = (s, e')"
    using flush [OF o that] h by auto
qed

lemma read_file_loop_ok:
  assumes "seq_ok h"
  shows "read_file_loop E data h = Some (None, data @ rest h)"
  using assms
proof (induction "length (rest h)" arbitrary: data h rule: less_induct)
  case less
  obtain s d h' where r: "eo_Read E 8192 h = (s, d, h')" by (cases "eo_Read E 8192 h")
  note rd = read [OF less.prems r]
  show ?case
  proof (cases "rest h = []")
    case True
    then show ?thesis using r rd by (subst read_file_loop.simps) (simp add: ok_def)
  next
    case False
    then have "length (rest h') < length (rest h)" using rd by simp
    from less.hyps [OF this] rd show ?thesis
      using r False by (subst read_file_loop.simps) (simp add: ok_def)
  qed
qed

lemma read_file:
  assumes "healthy e" "n \<notin> opened e" "files e n = Some c"
  shows "ReadFileToString E n e = Some (None, c)"
  using open_sequential [OF assms] read_file_loop_ok [of _ "[]"] by (auto simp: ReadFileToString_def ok_def)

end

end
