(* ===== verification/Filename.thy ===== *)
theory Filename
  imports Logging Env_Base
begin

text \<open>
  \<^verbatim>\<open>db/filename.h\<close> and \<^verbatim>\<open>db/filename.cpp\<close>: the names of the files of a database, the parser for them, and
  the replacement of the \<^verbatim>\<open>CURRENT\<close> file.  The assertions \<^verbatim>\<open>number > 0\<close> are hypotheses of the lemmas.
\<close>

datatype FileType = kLogFile | kDBLockFile | kTableFile | kDescriptorFile | kCurrentFile | kTempFile | kInfoLogFile

text \<open>\<^verbatim>\<open>%06llu\<close>\<close>

definition pad6 :: "u64 \<Rightarrow> slice" where
  "pad6 number = replicate (6 - length (decimal (unat number))) 48 @ decimal (unat number)"

definition MakeFileName :: "slice \<Rightarrow> u64 \<Rightarrow> string \<Rightarrow> slice" where
  "MakeFileName name number suffix = name @ (str ''/'' @ pad6 number @ str ''.'' @ str suffix)"

definition LogFileName :: "slice \<Rightarrow> u64 \<Rightarrow> slice" where
  "LogFileName name number = MakeFileName name number ''log''"

definition TableFileName :: "slice \<Rightarrow> u64 \<Rightarrow> slice" where
  "TableFileName name number = MakeFileName name number ''sst''"

definition DescriptorFileName :: "slice \<Rightarrow> u64 \<Rightarrow> slice" where
  "DescriptorFileName dbname number = dbname @ (str ''/MANIFEST-'' @ pad6 number)"

definition CurrentFileName :: "slice \<Rightarrow> slice" where
  "CurrentFileName dbname = dbname @ str ''/CURRENT''"

definition LockFileName :: "slice \<Rightarrow> slice" where
  "LockFileName dbname = dbname @ str ''/LOCK''"

definition TempFileName :: "slice \<Rightarrow> u64 \<Rightarrow> slice" where
  "TempFileName dbname number = MakeFileName dbname number ''dbtmp''"

definition InfoLogFileName :: "slice \<Rightarrow> slice" where
  "InfoLogFileName dbname = dbname @ str ''/LOG''"

definition OldInfoLogFileName :: "slice \<Rightarrow> slice" where
  "OldInfoLogFileName dbname = dbname @ str ''/LOG.old''"

definition ParseFileName :: "slice \<Rightarrow> (u64 \<times> FileType) option" where
  "ParseFileName fname =
     (let rest = fname in
      if Slice_eq rest (str ''CURRENT'') then Some (0, kCurrentFile)
      else if Slice_eq rest (str ''LOCK'') then Some (0, kDBLockFile)
      else if Slice_eq rest (str ''LOG'') \<or> Slice_eq rest (str ''LOG.old'') then Some (0, kInfoLogFile)
      else if starts_with rest (str ''MANIFEST-'') then
        let rest = remove_prefix rest (length (str ''MANIFEST-''))
        in (case ConsumeDecimalNumber rest of
              (True, rest, Some num) \<Rightarrow> if rest \<noteq> [] then None else Some (num, kDescriptorFile)
            | _ \<Rightarrow> None)
      else (case ConsumeDecimalNumber rest of
              (True, suffix, Some num) \<Rightarrow>
                if Slice_eq suffix (str ''.log'') then Some (num, kLogFile)
                else if Slice_eq suffix (str ''.sst'') then Some (num, kTableFile)
                else if Slice_eq suffix (str ''.dbtmp'') then Some (num, kTempFile)
                else None
            | _ \<Rightarrow> None))"

definition SetCurrentFile :: "('e, 's) env_ops \<Rightarrow> slice \<Rightarrow> u64 \<Rightarrow> 'e \<Rightarrow> status \<times> 'e" where
  "SetCurrentFile E dbname descriptor_number e =
     (let manifest = DescriptorFileName dbname descriptor_number;
          contents = remove_prefix manifest (length dbname + 1);
          tmp = TempFileName dbname descriptor_number;
          (s, e) = WriteStringToFileSync E (contents @ [10]) tmp e;
          (s, e) = (if ok s then eo_RenameFile E tmp (CurrentFileName dbname) e else (s, e));
          e = (if \<not> ok s then snd (eo_DeleteFile E tmp e) else e)
      in (s, e))"

subsection \<open>Names are read back\<close>

lemma str_simps: "str [] = []" "str (c # cs) = of_char c # str cs"
  by (simp_all add: str_def)

lemma hd_pad6: "pad6 n \<noteq> [] \<and> is_digit (hd (pad6 n))"
  using decimal_digits [of "unat n"]
  by (cases "6 - length (decimal (unat n))") (auto simp: pad6_def is_digit_def)

lemma consume_pad6:
  "rest = [] \<or> \<not> is_digit (hd rest) \<Longrightarrow> ConsumeDecimalNumber (pad6 n @ rest) = (True, rest, Some n)"
  unfolding pad6_def append_assoc by (rule consume_printed)

text \<open>C9: The parser of file names reads back every name the database makes: for every number up to the largest 64-bit
  one the names of logs, tables, descriptors and temporary files, relative to the directory, give the number and the
  type, and the names without a number give their types.\<close>

theorem parse_file_name_roundtrip:
  "ParseFileName (drop (length db + 1) (LogFileName db n)) = Some (n, kLogFile) \<and>
   ParseFileName (drop (length db + 1) (TableFileName db n)) = Some (n, kTableFile) \<and>
   ParseFileName (drop (length db + 1) (TempFileName db n)) = Some (n, kTempFile) \<and>
   ParseFileName (drop (length db + 1) (DescriptorFileName db n)) = Some (n, kDescriptorFile) \<and>
   ParseFileName (drop (length db + 1) (CurrentFileName db)) = Some (0, kCurrentFile) \<and>
   ParseFileName (drop (length db + 1) (LockFileName db)) = Some (0, kDBLockFile) \<and>
   ParseFileName (drop (length db + 1) (InfoLogFileName db)) = Some (0, kInfoLogFile) \<and>
   ParseFileName (drop (length db + 1) (OldInfoLogFileName db)) = Some (0, kInfoLogFile)"
proof -
  have numbered: "ParseFileName (pad6 n @ str sfx) = Some (n, t)"
    if "(sfx, t) \<in> {(''.log'', kLogFile), (''.sst'', kTableFile), (''.dbtmp'', kTempFile)}" for sfx t
  proof -
    obtain d ds where d: "pad6 n = d # ds" "is_digit d" using hd_pad6 [of n] by (cases "pad6 n") auto
    then have "d \<noteq> 67" "d \<noteq> 76" "d \<noteq> 77" by (auto simp: is_digit_def)
    moreover have "\<not> is_digit (hd (str sfx))" using that by (auto simp: str_simps is_digit_def)
    ultimately show ?thesis
      using consume_pad6 [OF disjI2, of "str sfx" n] that d(1)
      by (auto simp: str_simps starts_with_iff ParseFileName_def)
  qed
  have names: "drop (length db + 1) (LogFileName db n) = pad6 n @ str ''.log''"
      "drop (length db + 1) (TableFileName db n) = pad6 n @ str ''.sst''"
      "drop (length db + 1) (TempFileName db n) = pad6 n @ str ''.dbtmp''"
      "drop (length db + 1) (DescriptorFileName db n) = str ''MANIFEST-'' @ pad6 n"
    by (simp_all add: LogFileName_def TableFileName_def TempFileName_def MakeFileName_def DescriptorFileName_def str_simps)
  have m: "ConsumeDecimalNumber (pad6 n) = (True, [], Some n)" using consume_pad6 [of "[]" n] by simp
  have manifest: "ParseFileName (str ''MANIFEST-'' @ pad6 n) = Some (n, kDescriptorFile)"
    using m by (simp add: ParseFileName_def starts_with_iff remove_prefix_def str_simps)
  have fixed: "ParseFileName (drop (length db + 1) (CurrentFileName db)) = Some (0, kCurrentFile)"
      "ParseFileName (drop (length db + 1) (LockFileName db)) = Some (0, kDBLockFile)"
      "ParseFileName (drop (length db + 1) (InfoLogFileName db)) = Some (0, kInfoLogFile)"
      "ParseFileName (drop (length db + 1) (OldInfoLogFileName db)) = Some (0, kInfoLogFile)"
    by (simp_all add: CurrentFileName_def LockFileName_def InfoLogFileName_def OldInfoLogFileName_def str_simps
        ParseFileName_def)
  show ?thesis
    unfolding names using numbered manifest fixed by blast
qed

subsection \<open>The CURRENT file\<close>

lemma names_differ:
  "TempFileName db n \<noteq> CurrentFileName db" "TempFileName db n \<noteq> DescriptorFileName db m"
  "CurrentFileName db \<noteq> DescriptorFileName db m"
  using hd_pad6 [of n] by (cases "pad6 n"; auto simp: TempFileName_def MakeFileName_def CurrentFileName_def DescriptorFileName_def
    str_simps is_digit_def)+

context env
begin

text \<open>\<^verbatim>\<open>SetCurrentFile\<close> leaves \<^verbatim>\<open>CURRENT\<close> with the name of the descriptor and a newline, and no temporary file.\<close>

lemma set_current:
  assumes "healthy e" "CurrentFileName db \<notin> opened e" "SetCurrentFile E db n e = (s, e')"
  shows "s = None \<and> healthy e' \<and> opened e' = opened e - {TempFileName db n} \<and>
    files e' = (files e)(TempFileName db n := None, CurrentFileName db \<mapsto> str ''MANIFEST-'' @ pad6 n @ [10])"
proof -
  let ?tmp = "TempFileName db n" and ?data = "str ''MANIFEST-'' @ pad6 n @ [10]"
  have c: "remove_prefix (DescriptorFileName db n) (length db + 1) @ [10] = ?data"
    by (simp add: DescriptorFileName_def remove_prefix_def str_simps)
  obtain s1 e1 where 1: "WriteStringToFileSync E ?data ?tmp e = (s1, e1)" by fastforce
  note w = write_string [OF assms(1) 1 [unfolded WriteStringToFileSync_def]]
  obtain s2 e2 where 2: "eo_RenameFile E ?tmp (CurrentFileName db) e1 = (s2, e2)" by fastforce
  have r: "s2 = None \<and> healthy e2 \<and> files e2 = (files e1)(?tmp := None, CurrentFileName db \<mapsto> ?data) \<and> opened e2 = opened e1"
    by (rule rename [OF _ _ _ _ _ 2]) (use w assms(2) names_differ(1) [of db n] in auto)
  have "SetCurrentFile E db n e = (s2, e2)"
    using w r 1 2 unfolding SetCurrentFile_def Let_def c by (simp add: ok_def)
  then show ?thesis using assms(3) w r by auto
qed

end

end
