(* ===== verification/Version_Set.thy ===== *)
theory Version_Set
  imports Version_Builder Filename
begin

text \<open>
  \<^verbatim>\<open>VersionSet\<close> of \<^verbatim>\<open>db/version_set.h\<close> and \<^verbatim>\<open>db/version_set.cpp\<close>: the live versions, the counters, the descriptor
  log.  The linked list of versions is a list, oldest first, and the current version is its last element.  The
  descriptor file with the writer on it is its name and the block offset of the writer.  \<open>None\<close> is a failed
  assertion.  The environment is the interface of \<open>Env_Base\<close>; the addresses of the strings passed to the log
  writer are arguments because the checksum depends on them.  Compaction scores, doubles in the code, are exact rationals.
\<close>

fun max_bytes_loop :: "nat \<Rightarrow> rat \<Rightarrow> rat" where
  "max_bytes_loop level result = (if level > 1 then max_bytes_loop (level - 1) (result * 10) else result)"

declare max_bytes_loop.simps [simp del]

definition MaxBytesForLevel :: "nat \<Rightarrow> rat" where
  "MaxBytesForLevel level = max_bytes_loop level (10 * 1048576)"

definition MaxFileSizeForLevel :: "nat \<Rightarrow> u64" where
  "MaxFileSizeForLevel level = of_int kTargetFileSize"

record VersionSet =
  vs_dbname :: slice
  vs_next_file_number :: u64
  vs_manifest_file_number :: u64
  vs_last_sequence :: u64
  vs_log_number :: u64
  vs_prev_log_number :: u64
  vs_descriptor :: "(slice \<times> nat) option"
  vs_versions :: "Version list"
  vs_compact_pointer :: "nat \<Rightarrow> slice"

definition vs_current :: "VersionSet \<Rightarrow> Version" where
  "vs_current vs = last (vs_versions vs)"

text \<open>Dropping the reference to the current version deletes it when it was the last one.\<close>

definition unref_current :: "Version list \<Rightarrow> Version list" where
  "unref_current vl =
     (if vl = [] then []
      else case Version_Unref (last vl) of None \<Rightarrow> butlast vl | Some v \<Rightarrow> butlast vl @ [v])"

definition AppendVersion :: "Version \<Rightarrow> VersionSet \<Rightarrow> VersionSet option" where
  "AppendVersion v vs =
     (if v_refs v \<noteq> 0 then None
      else Some (vs\<lparr>vs_versions := unref_current (vs_versions vs) @ [Version_Ref v]\<rparr>))"

text \<open>The constructor leaves \<^verbatim>\<open>log_number_\<close> uninitialised: its first value is an argument.\<close>

definition make_VersionSet :: "slice \<Rightarrow> u64 \<Rightarrow> VersionSet" where
  "make_VersionSet dbname garbage =
     the (AppendVersion make_Version
       \<lparr>vs_dbname = dbname, vs_next_file_number = 2, vs_manifest_file_number = 0, vs_last_sequence = 0,
        vs_log_number = garbage, vs_prev_log_number = 0, vs_descriptor = None, vs_versions = [],
        vs_compact_pointer = \<lambda>_. []\<rparr>)"

definition NewFileNumber :: "VersionSet \<Rightarrow> u64 \<times> VersionSet" where
  "NewFileNumber vs = (vs_next_file_number vs, vs\<lparr>vs_next_file_number := vs_next_file_number vs + 1\<rparr>)"

definition ReuseFileNumber :: "u64 \<Rightarrow> VersionSet \<Rightarrow> VersionSet" where
  "ReuseFileNumber file_number vs =
     (if vs_next_file_number vs = file_number + 1 then vs\<lparr>vs_next_file_number := file_number\<rparr> else vs)"

definition VersionSet_SetLastSequence :: "u64 \<Rightarrow> VersionSet \<Rightarrow> VersionSet option" where
  "VersionSet_SetLastSequence s vs = (if s \<ge> vs_last_sequence vs then Some (vs\<lparr>vs_last_sequence := s\<rparr>) else None)"

definition MarkFileNumberUsed :: "u64 \<Rightarrow> VersionSet \<Rightarrow> VersionSet" where
  "MarkFileNumberUsed number vs =
     (if vs_next_file_number vs \<le> number then vs\<lparr>vs_next_file_number := number + 1\<rparr> else vs)"

definition NeedsCompaction :: "VersionSet \<Rightarrow> bool" where
  "NeedsCompaction vs \<longleftrightarrow>
     v_compaction_score (vs_current vs) \<ge> 1 \<or> v_file_to_compact (vs_current vs) \<noteq> None"

definition NumLevelFiles :: "nat \<Rightarrow> VersionSet \<Rightarrow> nat option" where
  "NumLevelFiles level vs = (if level < kNumLevels then Some (length (v_files (vs_current vs) level)) else None)"

definition LevelSummary :: "VersionSet \<Rightarrow> slice" where
  "LevelSummary vs =
     take 99 (str ''files[ '' @ concat (map (\<lambda>l. decimal (length (v_files (vs_current vs) l)) @ str '' '') [0..<7]) @ str '']'')"

definition AddLiveFiles :: "VersionSet \<Rightarrow> u64 set \<Rightarrow> u64 set" where
  "AddLiveFiles vs live =
     fold (\<lambda>v live. fold (\<lambda>level live. fold (\<lambda>f live. insert (fm_number f) live) (v_files v level) live) [0..<kNumLevels] live)
       (vs_versions vs) live"

definition level_score :: "Version \<Rightarrow> nat \<Rightarrow> rat" where
  "level_score v level =
     (if level = 0 then of_nat (length (v_files v level)) / of_nat kL0_CompactionTrigger
      else of_nat (nat (TotalFileSize (v_files v level) mod 2 ^ 64)) / MaxBytesForLevel level)"

definition Finalize :: "Version \<Rightarrow> Version" where
  "Finalize v =
     (let (best_level, best_score) =
            fold (\<lambda>level (best_level, best_score).
                    let score = level_score v level
                    in if score > best_score then (int level, score) else (best_level, best_score))
              [0..<kNumLevels - 1] (-1, -1)
      in v\<lparr>v_compaction_level := best_level, v_compaction_score := best_score\<rparr>)"

subsection \<open>Writing the descriptor\<close>

definition snapshot_edit :: "slice \<Rightarrow> VersionSet \<Rightarrow> VersionEdit" where
  "snapshot_edit name vs =
     (let edit = SetComparatorName name make_VersionEdit;
          edit = fold (\<lambda>level edit. if vs_compact_pointer vs level \<noteq> []
                    then SetCompactPointer level (vs_compact_pointer vs level) edit else edit) [0..<kNumLevels] edit
      in fold (\<lambda>level edit. fold (\<lambda>f edit. AddFile level (fm_number f) (fm_file_size f) (fm_smallest f) (fm_largest f) edit)
                (v_files (vs_current vs) level) edit) [0..<kNumLevels] edit)"

definition WriteSnapshot ::
  "slice \<Rightarrow> ('e, 's) env_ops \<Rightarrow> slice \<Rightarrow> nat \<Rightarrow> VersionSet \<Rightarrow> 'e Writer \<Rightarrow> status \<times> 'e Writer" where
  "WriteSnapshot name E fname addr vs lw =
     AddRecord (eo_Append E fname) (eo_Flush E fname) addr (VersionEdit_EncodeTo (snapshot_edit name vs) []) lw"

text \<open>\<^verbatim>\<open>LogAndApply\<close> in its parts: completing the edit, opening a new descriptor, writing the record, installing.\<close>

definition complete_edit :: "VersionEdit \<Rightarrow> VersionSet \<Rightarrow> VersionEdit option" where
  "complete_edit edit vs =
     (if ve_has_log_number edit \<and>
         \<not> (ve_log_number edit \<ge> vs_log_number vs \<and> ve_log_number edit < vs_next_file_number vs) then None
      else let edit = (if ve_has_log_number edit then edit else SetLogNumber (vs_log_number vs) edit);
               edit = (if ve_has_prev_log_number edit then edit else SetPrevLogNumber (vs_prev_log_number vs) edit)
           in Some (SetLastSequence (vs_last_sequence vs) (SetNextFile (vs_next_file_number vs) edit)))"

definition open_descriptor ::
  "slice \<Rightarrow> ('e, 's) env_ops \<Rightarrow> nat \<Rightarrow> VersionSet \<Rightarrow> 'e \<Rightarrow> status \<times> slice \<times> VersionSet \<times> 'e" where
  "open_descriptor name E addr vs e =
     (case vs_descriptor vs of
        Some _ \<Rightarrow> (None, [], vs, e)
      | None \<Rightarrow>
          let new_manifest_file = DescriptorFileName (vs_dbname vs) (vs_manifest_file_number vs);
              (s, e) = eo_NewWritableFile E new_manifest_file e
          in if ok s
             then let (s, lw) = WriteSnapshot name E new_manifest_file addr vs (make_Writer e)
                  in (s, new_manifest_file, vs\<lparr>vs_descriptor := Some (new_manifest_file, w_block_offset lw)\<rparr>, w_dest lw)
             else (s, new_manifest_file, vs, e))"

definition write_edit ::
  "('e, 's) env_ops \<Rightarrow> nat \<Rightarrow> VersionEdit \<Rightarrow> VersionSet \<Rightarrow> 'e \<Rightarrow> status \<times> VersionSet \<times> 'e" where
  "write_edit E addr edit vs e =
     (case vs_descriptor vs of
        None \<Rightarrow> (None, vs, e)
      | Some (fname, offset) \<Rightarrow>
          let (s, lw) = AddRecord (eo_Append E fname) (eo_Flush E fname) addr (VersionEdit_EncodeTo edit [])
                           \<lparr>w_dest = e, w_block_offset = offset\<rparr>;
              vs = vs\<lparr>vs_descriptor := Some (fname, w_block_offset lw)\<rparr>;
              (s, e) = (if ok s then eo_Sync E fname (w_dest lw) else (s, w_dest lw))
          in (s, vs, e))"

definition discard_descriptor :: "('e, 's) env_ops \<Rightarrow> slice \<Rightarrow> VersionSet \<Rightarrow> 'e \<Rightarrow> VersionSet \<times> 'e" where
  "discard_descriptor E new_manifest_file vs e =
     (if new_manifest_file \<noteq> []
      then let e = (case vs_descriptor vs of None \<Rightarrow> e | Some (fname, _) \<Rightarrow> eo_destroy E fname e)
           in (vs\<lparr>vs_descriptor := None\<rparr>, snd (eo_DeleteFile E new_manifest_file e))
      else (vs, e))"

definition LogAndApply ::
  "(slice \<Rightarrow> slice \<Rightarrow> int) \<Rightarrow> slice \<Rightarrow> ('e, 's) env_ops \<Rightarrow> nat \<Rightarrow> nat \<Rightarrow> VersionEdit \<Rightarrow> VersionSet \<Rightarrow> 'e \<Rightarrow>
   (status \<times> VersionEdit \<times> VersionSet \<times> 'e) option" where
  "LogAndApply ucmp name E addr1 addr2 edit vs e =
     (case complete_edit edit vs of
        None \<Rightarrow> None
      | Some edit \<Rightarrow>
          let (builder, pointers) = Builder_Apply ucmp edit (make_Builder (vs_current vs), vs_compact_pointer vs);
              vs = vs\<lparr>vs_compact_pointer := pointers\<rparr>
          in (case Builder_SaveTo ucmp builder make_Version of
                None \<Rightarrow> None
              | Some v \<Rightarrow>
                  if vs_descriptor vs = None \<and> vs_manifest_file_number vs = 0 then None
                  else let v = Finalize v;
                           (s, new_manifest_file, vs, e) = open_descriptor name E addr1 vs e;
                           (s, vs, e) = (if ok s then write_edit E addr2 edit vs e else (s, vs, e));
                           (s, e) = (if ok s \<and> new_manifest_file \<noteq> []
                                     then SetCurrentFile E (vs_dbname vs) (vs_manifest_file_number vs) e else (s, e))
                       in if ok s
                          then (case AppendVersion v vs of
                                  None \<Rightarrow> None
                                | Some vs \<Rightarrow> Some (s, edit, vs\<lparr>vs_log_number := ve_log_number edit,
                                                     vs_prev_log_number := ve_prev_log_number edit\<rparr>, e))
                          else let (vs, e) = discard_descriptor E new_manifest_file vs e in Some (s, edit, vs, e)))"

subsection \<open>Reading the descriptor\<close>

record recover_state =
  rc_status :: status
  rc_builder :: Builder
  rc_pointers :: "nat \<Rightarrow> slice"
  rc_log_number :: "u64 option"
  rc_prev_log_number :: "u64 option"
  rc_next_file :: "u64 option"
  rc_last_sequence :: "u64 option"

text \<open>\<^verbatim>\<open>LogReporter::Corruption\<close> keeps the first status.\<close>

definition reported :: "(nat \<times> status) list \<Rightarrow> status \<Rightarrow> status" where
  "reported reports s = fold (\<lambda>(bytes, m) s. if ok s then m else s) reports s"

definition recover_record :: "(slice \<Rightarrow> slice \<Rightarrow> int) \<Rightarrow> slice \<Rightarrow> slice \<Rightarrow> recover_state \<Rightarrow> recover_state" where
  "recover_record ucmp name record st =
     (let (s, edit) = VersionEdit_DecodeFrom record make_VersionEdit;
          s = (if ok s \<and> ve_has_comparator edit \<and> ve_comparator edit \<noteq> name
               then InvalidArgument (ve_comparator edit @ str '' does not match existing comparator '') name else s);
          (b, p) = (if ok s then Builder_Apply ucmp edit (rc_builder st, rc_pointers st) else (rc_builder st, rc_pointers st))
      in st\<lparr>rc_status := s, rc_builder := b, rc_pointers := p,
            rc_log_number := (if ve_has_log_number edit then Some (ve_log_number edit) else rc_log_number st),
            rc_prev_log_number := (if ve_has_prev_log_number edit then Some (ve_prev_log_number edit) else rc_prev_log_number st),
            rc_next_file := (if ve_has_next_file_number edit then Some (ve_next_file_number edit) else rc_next_file st),
            rc_last_sequence := (if ve_has_last_sequence edit then Some (ve_last_sequence edit) else rc_last_sequence st)\<rparr>)"

partial_function (option) recover_loop ::
  "(slice \<Rightarrow> slice \<Rightarrow> int) \<Rightarrow> slice \<Rightarrow> ('e, 's) env_ops \<Rightarrow> recover_state \<times> 's Reader \<Rightarrow> recover_state option" where
  "recover_loop ucmp name E x =
     (case ReadRecord (eo_Read E) (eo_Skip E) (snd x) of
        None \<Rightarrow> None
      | Some (more_data, record, scratch, r) \<Rightarrow>
          let st = (fst x)\<lparr>rc_status := reported (drop (length (r_reports (snd x))) (r_reports r)) (rc_status (fst x))\<rparr>
          in if more_data \<and> ok (rc_status st) then recover_loop ucmp name E (recover_record ucmp name record st, r)
             else Some st)"

definition finish_recover :: "(slice \<Rightarrow> slice \<Rightarrow> int) \<Rightarrow> recover_state \<Rightarrow> VersionSet \<Rightarrow> (status \<times> VersionSet) option" where
  "finish_recover ucmp st vs =
     (let vs = vs\<lparr>vs_compact_pointer := rc_pointers st\<rparr>
      in if \<not> ok (rc_status st) then Some (rc_status st, vs)
         else let s = (if rc_next_file st = None then Corruption (str ''no meta-nextfile entry in descriptor'') []
                       else if rc_log_number st = None then Corruption (str ''no meta-lognumber entry in descriptor'') []
                       else if rc_last_sequence st = None
                       then Corruption (str ''no last-sequence-number entry in descriptor'') [] else None);
                  log_number = (case rc_log_number st of None \<Rightarrow> 0 | Some n \<Rightarrow> n);
                  prev_log_number = (case rc_prev_log_number st of None \<Rightarrow> 0 | Some n \<Rightarrow> n);
                  vs = MarkFileNumberUsed log_number (MarkFileNumberUsed prev_log_number vs)
              in if \<not> ok s then Some (s, vs)
                 else (case Builder_SaveTo ucmp (rc_builder st) make_Version of
                         None \<Rightarrow> None
                       | Some v \<Rightarrow>
                           map_option (\<lambda>vs. (s, vs\<lparr>vs_manifest_file_number := the (rc_next_file st),
                               vs_next_file_number := the (rc_next_file st) + 1,
                               vs_last_sequence := the (rc_last_sequence st),
                               vs_log_number := log_number, vs_prev_log_number := prev_log_number\<rparr>))
                             (AppendVersion (Finalize v) vs)))"

text \<open>\<open>store\<close>, \<open>g1\<close> and \<open>g2\<close> are the address of the buffer of the log reader and its two uninitialised members.\<close>

definition VersionSet_Recover ::
  "(slice \<Rightarrow> slice \<Rightarrow> int) \<Rightarrow> slice \<Rightarrow> ('e, 's) env_ops \<Rightarrow> nat \<times> u64 \<times> u64 \<Rightarrow> 'e \<Rightarrow> VersionSet \<Rightarrow>
   (status \<times> VersionSet) option" where
  "VersionSet_Recover ucmp name E mem e vs =
     (case ReadFileToString E (CurrentFileName (vs_dbname vs)) e of
        None \<Rightarrow> None
      | Some (s, current) \<Rightarrow>
          if \<not> ok s then Some (s, vs)
          else if current = [] \<or> last current \<noteq> 10
          then Some (Corruption (str ''CURRENT file does not end with newline'') [], vs)
          else (case eo_NewSequentialFile E (vs_dbname vs @ str ''/'' @ butlast current) e of
                  (s, None) \<Rightarrow> Some (s, vs)
                | (s, Some file) \<Rightarrow>
                    if \<not> ok s then Some (s, vs)
                    else let (store, g1, g2) = mem;
                             st = \<lparr>rc_status = s, rc_builder = make_Builder (vs_current vs), rc_pointers = vs_compact_pointer vs,
                                   rc_log_number = None, rc_prev_log_number = None, rc_next_file = None, rc_last_sequence = None\<rparr>
                         in Option.bind (recover_loop ucmp name E (st, make_Reader file True True 0 store g1 g2))
                              (\<lambda>st. finish_recover ucmp st vs)))"

text \<open>The destructor of the version set closes the descriptor.\<close>

definition VersionSet_destroy :: "('e, 's) env_ops \<Rightarrow> VersionSet \<Rightarrow> 'e \<Rightarrow> 'e" where
  "VersionSet_destroy E vs e = (case vs_descriptor vs of None \<Rightarrow> e | Some (fname, _) \<Rightarrow> eo_destroy E fname e)"

end
