(* ===== verification/Posix_Env.thy ===== *)
theory Posix_Env
  imports Env_Base
begin

text \<open>
  The class \<^verbatim>\<open>PosixEnv\<close> of \<^verbatim>\<open>util/env_posix.cpp\<close>: files by name, locks, the background queue.  The file
  system is a map from names to bytes; the file objects open for writing are kept beside it, and the bytes of
  such a file are those of its object.  Which system calls succeed on which file is an argument, and so is the
  order in which \<^verbatim>\<open>readdir\<close> lists a directory.  A file that is open for writing is not renamed or deleted in
  what follows.  The clock, the sleep and the logger are left out.
\<close>

datatype syscall = Sys_fopen | Sys_open | Sys_mmap | Sys_opendir | Sys_unlink | Sys_mkdir | Sys_rmdir | Sys_stat
  | Sys_rename | Sys_fcntl

type_synonym syscalls = "syscall \<Rightarrow> slice \<Rightarrow> bool"

record 't PosixEnv =
  pe_page_size :: nat
  pe_files :: "slice \<Rightarrow> slice option"
  pe_dirs :: "slice set"
  pe_writers :: "slice \<Rightarrow> PosixMmapFile option"
  pe_locks :: "slice set"
  pe_mmap_allowed :: int
  pe_started_bgthread :: bool
  pe_queue :: "'t list"

definition make_PosixEnv :: "nat \<Rightarrow> (slice \<Rightarrow> slice option) \<Rightarrow> slice set \<Rightarrow> 't PosixEnv" where
  "make_PosixEnv page_size fs dirs =
     \<lparr>pe_page_size = page_size, pe_files = fs, pe_dirs = dirs, pe_writers = Map.empty, pe_locks = {},
      pe_mmap_allowed = MmapLimiter_init, pe_started_bgthread = False, pe_queue = []\<rparr>"

text \<open>The bytes of a file on the device; past the write position a mapped file has zero bytes.\<close>

definition disk :: "'t PosixEnv \<Rightarrow> slice \<Rightarrow> slice option" where
  "disk e fname =
     (case pe_files e fname of
        None \<Rightarrow> None
      | Some bytes \<Rightarrow> (case pe_writers e fname of
                          Some m \<Rightarrow> Some (if mf_open m then mf_file m else bytes)
                        | None \<Rightarrow> Some bytes))"

definition PosixEnv_NewSequentialFile ::
  "syscalls \<Rightarrow> slice \<Rightarrow> slice \<Rightarrow> 't PosixEnv \<Rightarrow> status \<times> PosixSequentialFile option" where
  "PosixEnv_NewSequentialFile sys err fname e =
     (case disk e fname of
        Some bytes \<Rightarrow>
          if sys Sys_fopen fname
          then (None, Some \<lparr>ps_filename = fname, ps_file = \<lparr>fl_rest = bytes, fl_eof = False, fl_fails = False\<rparr>\<rparr>)
          else (PosixIOError fname err, None)
      | None \<Rightarrow> (PosixIOError fname err, None))"

definition PosixEnv_GetFileSize :: "syscalls \<Rightarrow> slice \<Rightarrow> slice \<Rightarrow> 't PosixEnv \<Rightarrow> status \<times> u64" where
  "PosixEnv_GetFileSize sys err fname e =
     (case disk e fname of
        Some bytes \<Rightarrow> if sys Sys_stat fname then (None, word_of_nat (length bytes)) else (PosixIOError fname err, 0)
      | None \<Rightarrow> (PosixIOError fname err, 0))"

datatype RandomAccessFile = MmapReadable slice slice | Pread slice slice

definition PosixEnv_NewRandomAccessFile ::
  "syscalls \<Rightarrow> slice \<Rightarrow> slice \<Rightarrow> 't PosixEnv \<Rightarrow> status \<times> RandomAccessFile option \<times> 't PosixEnv" where
  "PosixEnv_NewRandomAccessFile sys err fname e =
     (case disk e fname of
        None \<Rightarrow> (PosixIOError fname err, None, e)
      | Some bytes \<Rightarrow>
          if \<not> sys Sys_open fname then (PosixIOError fname err, None, e)
          else let (acquired, allowed) = MmapLimiter_Acquire (pe_mmap_allowed e) (pe_mmap_allowed e);
                   e1 = e\<lparr>pe_mmap_allowed := allowed\<rparr>
               in if acquired then
                    let (s, sz) = PosixEnv_GetFileSize sys err fname e1;
                        (s, result) = (if ok s then
                            if sys Sys_mmap fname then (s, Some (MmapReadable fname (take (unat sz) bytes)))
                            else (PosixIOError fname err, None)
                          else (s, None))
                    in (s, result, if \<not> ok s then e1\<lparr>pe_mmap_allowed := MmapLimiter_Release (pe_mmap_allowed e1)\<rparr> else e1)
                  else (None, Some (Pread fname bytes), e1))"

text \<open>\<^verbatim>\<open>O_CREAT | O_RDWR | O_TRUNC\<close>\<close>

definition PosixEnv_NewWritableFile :: "syscalls \<Rightarrow> slice \<Rightarrow> slice \<Rightarrow> 't PosixEnv \<Rightarrow> status \<times> 't PosixEnv" where
  "PosixEnv_NewWritableFile sys err fname e =
     (if \<not> sys Sys_open fname then (PosixIOError fname err, e)
      else (None, e\<lparr>pe_files := (pe_files e)(fname \<mapsto> []),
                    pe_writers := (pe_writers e)(fname \<mapsto> make_PosixMmapFile fname (pe_page_size e))\<rparr>))"

definition PosixEnv_FileExists :: "slice \<Rightarrow> 't PosixEnv \<Rightarrow> bool" where
  "PosixEnv_FileExists fname e \<longleftrightarrow> pe_files e fname \<noteq> None \<or> fname \<in> pe_dirs e"

definition PosixEnv_GetChildren ::
  "syscalls \<Rightarrow> slice \<Rightarrow> (slice \<Rightarrow> 't PosixEnv \<Rightarrow> slice list) \<Rightarrow> slice \<Rightarrow> 't PosixEnv \<Rightarrow> status \<times> slice list" where
  "PosixEnv_GetChildren sys err readdir dir e =
     (if dir \<notin> pe_dirs e \<or> \<not> sys Sys_opendir dir then (PosixIOError dir err, []) else (None, readdir dir e))"

definition PosixEnv_DeleteFile :: "syscalls \<Rightarrow> slice \<Rightarrow> slice \<Rightarrow> 't PosixEnv \<Rightarrow> status \<times> 't PosixEnv" where
  "PosixEnv_DeleteFile sys err fname e =
     (if pe_files e fname = None \<or> \<not> sys Sys_unlink fname then (PosixIOError fname err, e)
      else (None, e\<lparr>pe_files := (pe_files e)(fname := None)\<rparr>))"

definition PosixEnv_CreateDir :: "syscalls \<Rightarrow> slice \<Rightarrow> slice \<Rightarrow> 't PosixEnv \<Rightarrow> status \<times> 't PosixEnv" where
  "PosixEnv_CreateDir sys err name e =
     (if PosixEnv_FileExists name e \<or> \<not> sys Sys_mkdir name then (PosixIOError name err, e)
      else (None, e\<lparr>pe_dirs := insert name (pe_dirs e)\<rparr>))"

definition PosixEnv_DeleteDir :: "syscalls \<Rightarrow> slice \<Rightarrow> slice \<Rightarrow> 't PosixEnv \<Rightarrow> status \<times> 't PosixEnv" where
  "PosixEnv_DeleteDir sys err name e =
     (if name \<notin> pe_dirs e \<or> \<not> sys Sys_rmdir name then (PosixIOError name err, e)
      else (None, e\<lparr>pe_dirs := pe_dirs e - {name}\<rparr>))"

definition PosixEnv_RenameFile :: "syscalls \<Rightarrow> slice \<Rightarrow> slice \<Rightarrow> slice \<Rightarrow> 't PosixEnv \<Rightarrow> status \<times> 't PosixEnv" where
  "PosixEnv_RenameFile sys err src target e =
     (case disk e src of
        None \<Rightarrow> (PosixIOError src err, e)
      | Some bytes \<Rightarrow>
          if \<not> sys Sys_rename src then (PosixIOError src err, e)
          else (None, e\<lparr>pe_files := (pe_files e)(src := None, target \<mapsto> bytes)\<rparr>))"

subsection \<open>Locks\<close>

definition LockTable_Insert :: "slice \<Rightarrow> slice set \<Rightarrow> bool \<times> slice set" where
  "LockTable_Insert fname locked_files = (fname \<notin> locked_files, insert fname locked_files)"

definition LockTable_Remove :: "slice \<Rightarrow> slice set \<Rightarrow> slice set" where
  "LockTable_Remove fname locked_files = locked_files - {fname}"

text \<open>A lock is the name it holds.\<close>

definition PosixEnv_LockFile :: "syscalls \<Rightarrow> slice \<Rightarrow> slice \<Rightarrow> 't PosixEnv \<Rightarrow> status \<times> slice option \<times> 't PosixEnv" where
  "PosixEnv_LockFile sys err fname e =
     (if \<not> sys Sys_open fname then (PosixIOError fname err, None, e)
      else let e1 = e\<lparr>pe_files := (case pe_files e fname of None \<Rightarrow> (pe_files e)(fname \<mapsto> []) | Some _ \<Rightarrow> pe_files e)\<rparr>;
               (inserted, locks) = LockTable_Insert fname (pe_locks e1)
           in if \<not> inserted then (IOError (str ''lock '' @ fname) (str ''already held by process''), None, e1)
              else if \<not> sys Sys_fcntl fname
              then (PosixIOError (str ''lock '' @ fname) err, None, e1\<lparr>pe_locks := LockTable_Remove fname locks\<rparr>)
              else (None, Some fname, e1\<lparr>pe_locks := locks\<rparr>))"

definition PosixEnv_UnlockFile :: "syscalls \<Rightarrow> slice \<Rightarrow> slice \<Rightarrow> 't PosixEnv \<Rightarrow> status \<times> 't PosixEnv" where
  "PosixEnv_UnlockFile sys err lock e =
     (if sys Sys_fcntl lock then None else PosixIOError (str ''unlock'') err,
      e\<lparr>pe_locks := LockTable_Remove lock (pe_locks e)\<rparr>)"

subsection \<open>The background queue\<close>

definition PosixEnv_Schedule :: "'t \<Rightarrow> 't PosixEnv \<Rightarrow> 't PosixEnv" where
  "PosixEnv_Schedule item e = e\<lparr>pe_started_bgthread := True, pe_queue := pe_queue e @ [item]\<rparr>"

text \<open>One turn of the loop of \<^verbatim>\<open>BGThread\<close>: the item to run; \<open>None\<close> when the thread waits.\<close>

definition BGThread_step :: "'t PosixEnv \<Rightarrow> ('t \<times> 't PosixEnv) option" where
  "BGThread_step e =
     (case pe_queue e of
        [] \<Rightarrow> None
      | item # queue \<Rightarrow> Some (item, e\<lparr>pe_queue := queue\<rparr>))"

subsection \<open>The writable files\<close>

definition on_writer ::
  "slice \<Rightarrow> (PosixMmapFile \<Rightarrow> status \<times> PosixMmapFile) \<Rightarrow> slice \<Rightarrow> 't PosixEnv \<Rightarrow> status \<times> 't PosixEnv" where
  "on_writer err f fname e =
     (case pe_writers e fname of
        None \<Rightarrow> (PosixIOError fname err, e)
      | Some m \<Rightarrow> let (s, m1) = f m in (s, e\<lparr>pe_writers := (pe_writers e)(fname \<mapsto> m1)\<rparr>))"

text \<open>Closing leaves the bytes in the file system; the destructor closes a file that is still open.\<close>

definition PosixEnv_Close :: "os \<Rightarrow> slice \<Rightarrow> slice \<Rightarrow> 't PosixEnv \<Rightarrow> status \<times> 't PosixEnv" where
  "PosixEnv_Close os err fname e =
     (case pe_writers e fname of
        None \<Rightarrow> (PosixIOError fname err, e)
      | Some m \<Rightarrow>
          let (s, m1) = PosixMmapFile_Close os err m
          in (s, e\<lparr>pe_writers := (pe_writers e)(fname \<mapsto> m1),
                   pe_files := (case pe_files e fname of None \<Rightarrow> pe_files e
                                | Some _ \<Rightarrow> (pe_files e)(fname \<mapsto> mf_file m1))\<rparr>))"

definition PosixEnv_destroy :: "os \<Rightarrow> slice \<Rightarrow> slice \<Rightarrow> 't PosixEnv \<Rightarrow> 't PosixEnv" where
  "PosixEnv_destroy os err fname e =
     (case pe_writers e fname of
        None \<Rightarrow> e
      | Some m \<Rightarrow> let e1 = (if mf_open m then snd (PosixEnv_Close os err fname e) else e)
                  in e1\<lparr>pe_writers := (pe_writers e1)(fname := None)\<rparr>)"

definition posix_ops :: "os \<Rightarrow> syscalls \<Rightarrow> slice \<Rightarrow> ('t PosixEnv, PosixSequentialFile) env_ops" where
  "posix_ops os sys err =
     \<lparr>eo_NewSequentialFile = PosixEnv_NewSequentialFile sys err,
      eo_Read = PosixSequentialFile_Read err,
      eo_Skip = PosixSequentialFile_Skip err,
      eo_NewWritableFile = PosixEnv_NewWritableFile sys err,
      eo_Append = (\<lambda>fname data. on_writer err (\<lambda>m. the (PosixMmapFile_Append os err data m)) fname),
      eo_Flush = on_writer err PosixMmapFile_Flush,
      eo_Sync = on_writer err (\<lambda>m. let (s, _, m1) = PosixMmapFile_Sync os err m in (s, m1)),
      eo_Close = PosixEnv_Close os err,
      eo_destroy = PosixEnv_destroy os err,
      eo_DeleteFile = PosixEnv_DeleteFile sys err,
      eo_RenameFile = PosixEnv_RenameFile sys err\<rparr>"

subsection \<open>The contract of the environment\<close>

definition all_calls :: syscalls where
  "all_calls c fname = True"

definition posix_files :: "'t PosixEnv \<Rightarrow> slice \<Rightarrow> slice option" where
  "posix_files e fname =
     (case pe_files e fname of
        None \<Rightarrow> None
      | Some bytes \<Rightarrow> (case pe_writers e fname of
                          Some m \<Rightarrow> Some (if mf_open m then mm_contents m else bytes)
                        | None \<Rightarrow> Some bytes))"

definition posix_opened :: "'t PosixEnv \<Rightarrow> slice set" where
  "posix_opened e = {fname. \<exists>m. pe_writers e fname = Some m \<and> mf_open m}"

definition posix_healthy :: "'t PosixEnv \<Rightarrow> bool" where
  "posix_healthy e \<longleftrightarrow> pe_page_size e > 0 \<and>
     (\<forall>fname m. pe_writers e fname = Some m \<longrightarrow> mf_open m \<longrightarrow> mm_tight m \<and> pe_files e fname \<noteq> None)"

lemma disk_closed: "fname \<notin> posix_opened e \<Longrightarrow> disk e fname = posix_files e fname"
  by (auto simp: disk_def posix_files_def posix_opened_def split: option.splits)

lemma posix_update:
  assumes "posix_healthy e" "pe_writers e fname = Some m" "mf_open m" "mm_tight m'" "mf_open m'"
  shows "posix_healthy (e\<lparr>pe_writers := (pe_writers e)(fname \<mapsto> m')\<rparr>) \<and>
    posix_files (e\<lparr>pe_writers := (pe_writers e)(fname \<mapsto> m')\<rparr>) = (posix_files e)(fname \<mapsto> mm_contents m') \<and>
    posix_opened (e\<lparr>pe_writers := (pe_writers e)(fname \<mapsto> m')\<rparr>) = posix_opened e \<and>
    posix_files e fname = Some (mm_contents m)"
  using assms
  by (auto simp: posix_healthy_def posix_files_def posix_opened_def fun_eq_iff split: option.splits)

lemma append_keeps_open:
  assumes "mmap_append_loop os err data m = Some (s, m')"
  shows "mf_open m' = mf_open m"
proof -
  have "mf_open (snd (s, m')) = mf_open m"
    by (rule mmap_append_loop.raw_induct [OF _ assms, where P = "\<lambda>_ _ _ m y. mf_open (snd y) = mf_open m"])
      (force simp: Let_def UnmapCurrentRegion_def MapNewRegion_def split: if_splits)
  then show ?thesis by simp
qed

lemma posix_forget:
  assumes "pe_writers e fname = Some m" "\<not> mf_open m"
  shows "posix_files (e\<lparr>pe_writers := (pe_writers e)(fname := None)\<rparr>) = posix_files e"
    "posix_opened (e\<lparr>pe_writers := (pe_writers e)(fname := None)\<rparr>) = posix_opened e"
    "posix_healthy e \<Longrightarrow> posix_healthy (e\<lparr>pe_writers := (pe_writers e)(fname := None)\<rparr>)"
  using assms by (auto simp: posix_files_def posix_opened_def posix_healthy_def fun_eq_iff split: option.split)

lemma Sync_keeps:
  assumes "mm_tight m" "PosixMmapFile_Sync reliable_os err m = (s, r, m')"
  shows "s = None \<and> mm_tight m' \<and> mf_open m' = mf_open m \<and> mm_contents m' = mm_contents m"
  using assms
  by (auto simp: PosixMmapFile_Sync_def reliable_os_def Let_def mm_tight_def mm_ok_def mm_contents_def split: if_splits)

lemma Close_closes: "PosixMmapFile_Close os err m = (s, m') \<Longrightarrow> \<not> mf_open m'"
  by (auto simp: PosixMmapFile_Close_def Let_def split: prod.splits)

lemma posix_close:
  assumes "posix_healthy e" "fname \<in> posix_opened e" "PosixEnv_Close reliable_os err fname e = (s, e')"
  shows "s = None \<and> posix_healthy e' \<and> posix_files e' = posix_files e \<and> posix_opened e' = posix_opened e - {fname} \<and>
    (\<exists>m'. pe_writers e' = (pe_writers e)(fname \<mapsto> m') \<and> \<not> mf_open m')"
proof -
  obtain m where m: "pe_writers e fname = Some m" "mf_open m" using assms(2) by (auto simp: posix_opened_def)
  then have t: "mm_tight m" "\<exists>b. pe_files e fname = Some b" using assms(1) by (auto simp: posix_healthy_def)
  obtain s1 m1 where c: "PosixMmapFile_Close reliable_os err m = (s1, m1)" by fastforce
  have s1: "s1 = None" using Close_reliable [of err m] c by simp
  have "mf_file m1 = mm_contents m" "\<not> mf_open m1" using Close_ok [OF t(1) c s1] Close_closes [OF c] by auto
  then show ?thesis
    using assms m t c s1
    by (auto simp: PosixEnv_Close_def posix_healthy_def posix_files_def posix_opened_def fun_eq_iff split: option.splits if_splits)
qed

lemma posix_destroy:
  assumes "posix_healthy e"
  shows "posix_healthy (PosixEnv_destroy reliable_os err fname e) \<and>
    posix_files (PosixEnv_destroy reliable_os err fname e) = posix_files e \<and>
    posix_opened (PosixEnv_destroy reliable_os err fname e) = posix_opened e - {fname}"
proof (cases "fname \<in> posix_opened e")
  case True
  obtain s e1 where c: "PosixEnv_Close reliable_os err fname e = (s, e1)" by fastforce
  obtain m where m: "pe_writers e fname = Some m" "mf_open m" using True by (auto simp: posix_opened_def)
  note cl = posix_close [OF assms True c]
  have "PosixEnv_destroy reliable_os err fname e = e1\<lparr>pe_writers := (pe_writers e1)(fname := None)\<rparr>"
    using m c by (simp add: PosixEnv_destroy_def)
  moreover obtain m' where "pe_writers e1 fname = Some m'" "\<not> mf_open m'" using cl by auto
  note fg = posix_forget [OF this]
  ultimately show ?thesis using cl by (simp add: fg)
next
  case False
  then show ?thesis
    using assms by (auto simp: PosixEnv_destroy_def posix_healthy_def posix_files_def posix_opened_def fun_eq_iff split: option.splits)
qed

lemma posix_rename:
  assumes "posix_healthy e" "a \<noteq> b" "a \<notin> posix_opened e" "b \<notin> posix_opened e"
  shows "posix_healthy (e\<lparr>pe_files := (pe_files e)(a := None, b \<mapsto> c)\<rparr>) \<and>
    posix_files (e\<lparr>pe_files := (pe_files e)(a := None, b \<mapsto> c)\<rparr>) = (posix_files e)(a := None, b \<mapsto> c) \<and>
    posix_opened (e\<lparr>pe_files := (pe_files e)(a := None, b \<mapsto> c)\<rparr>) = posix_opened e"
  using assms
  by (auto simp: posix_healthy_def posix_opened_def posix_files_def fun_eq_iff split: option.split)

interpretation posix: env "posix_ops reliable_os all_calls err" posix_files posix_opened posix_healthy
  "\<lambda>p. fl_rest (ps_file p)" "\<lambda>p. \<not> fl_fails (ps_file p)"
proof (unfold_locales, goal_cases)
  case (1 e n)
  then show ?case by (auto simp: posix_healthy_def posix_opened_def posix_files_def split: option.splits)
next
  case (2 e n s e')
  then have e': "s = None" "e' = e\<lparr>pe_files := (pe_files e)(n \<mapsto> []),
      pe_writers := (pe_writers e)(n \<mapsto> make_PosixMmapFile n (pe_page_size e))\<rparr>"
    by (simp_all add: posix_ops_def PosixEnv_NewWritableFile_def all_calls_def)
  have "mm_tight (make_PosixMmapFile n (pe_page_size e))" using 2 make_mm_tight by (auto simp: posix_healthy_def)
  moreover have "mm_contents (make_PosixMmapFile n (pe_page_size e)) = []" "mf_open (make_PosixMmapFile n (pe_page_size e))"
    by (simp_all add: mm_contents_def make_PosixMmapFile_def)
  ultimately show ?case
    using 2(1) e' by (auto simp: posix_healthy_def posix_files_def posix_opened_def fun_eq_iff split: option.split)
next
  case (3 e n data s e')
  then obtain m where m: "pe_writers e n = Some m" "mf_open m" by (auto simp: posix_opened_def)
  then have t: "mm_tight m" using 3(1) by (auto simp: posix_healthy_def)
  obtain s1 m1 where a: "the (PosixMmapFile_Append reliable_os err data m) = (s1, m1)" by fastforce
  note ap = posix_mmap.app_ok [OF t a]
  have "PosixMmapFile_Append reliable_os err data m = Some (s1, m1)"
    using append_loop_ok [of m reliable_os err data] t a by (auto simp: PosixMmapFile_Append_def mm_tight_def)
  then have o: "mf_open m1" using append_keeps_open m(2) by (auto simp: PosixMmapFile_Append_def)
  have e': "s = s1" "e' = e\<lparr>pe_writers := (pe_writers e)(n \<mapsto> m1)\<rparr>"
    using 3(3) a m(1) by (simp_all add: posix_ops_def on_writer_def)
  show ?case using posix_update [OF 3(1) m conjunct2 [OF conjunct2 [OF ap]] o] ap e' by simp
next
  case (4 e n s e')
  then obtain m where m: "pe_writers e n = Some m" "mf_open m" by (auto simp: posix_opened_def)
  then have t: "mm_tight m" using 4(1) by (auto simp: posix_healthy_def)
  show ?case
    using posix_update [OF 4(1) m t m(2)] 4(3) m by (auto simp: posix_ops_def on_writer_def PosixMmapFile_Flush_def)
next
  case (5 e n s e')
  then obtain m where m: "pe_writers e n = Some m" "mf_open m" by (auto simp: posix_opened_def)
  then have t: "mm_tight m" using 5(1) by (auto simp: posix_healthy_def)
  obtain s1 r m1 where a: "PosixMmapFile_Sync reliable_os err m = (s1, r, m1)" by (cases "PosixMmapFile_Sync reliable_os err m")
  note sy = Sync_keeps [OF t a]
  show ?case
    using posix_update [OF 5(1) m, of m1] sy 5(3) m a by (auto simp: posix_ops_def on_writer_def)
next
  case (6 e n s e')
  then show ?case using posix_close [of e n err s e'] by (simp add: posix_ops_def)
next
  case (7 e n)
  then show ?case using posix_destroy [of e err n] by (simp add: posix_ops_def)
next
  case (8 e a b c s e')
  then have e': "s = None" "e' = e\<lparr>pe_files := (pe_files e)(a := None, b \<mapsto> c)\<rparr>"
    by (simp_all add: posix_ops_def PosixEnv_RenameFile_def disk_closed all_calls_def)
  show ?case using posix_rename [OF 8(1-4)] e' by simp
next
  case (9 e n c)
  then show ?case by (simp add: posix_ops_def PosixEnv_NewSequentialFile_def disk_closed all_calls_def)
next
  case (10 h k s data h')
  then show ?case using posix_seq.read_ok [of h err k] by (simp add: posix_ops_def)
qed

subsection \<open>Every scheduled item runs\<close>

text \<open>Calls of \<^verbatim>\<open>Schedule\<close> and turns of the background thread in any order: the items scheduled and the items run.\<close>

inductive bg_run :: "'t PosixEnv \<Rightarrow> 't list \<Rightarrow> 't list \<Rightarrow> 't PosixEnv \<Rightarrow> bool" where
  bg_start: "bg_run e [] [] e"
| bg_schedule: "bg_run e scheduled finished e1 \<Longrightarrow> bg_run e (scheduled @ [item]) finished (PosixEnv_Schedule item e1)"
| bg_turn: "bg_run e scheduled finished e1 \<Longrightarrow> BGThread_step e1 = Some (item, e2) \<Longrightarrow> bg_run e scheduled (finished @ [item]) e2"

lemma bg_run_order: "bg_run e scheduled finished e1 \<Longrightarrow> finished @ pe_queue e1 = pe_queue e @ scheduled"
  by (induction rule: bg_run.induct) (auto simp: PosixEnv_Schedule_def BGThread_step_def split: list.splits)



end
