(* ===== verification/Manifest.thy ===== *)
theory Manifest
  imports Version_Set Posix_Env
begin

text \<open>
  The descriptor is a faithful record: what \<^verbatim>\<open>LogAndApply\<close> writes, \<^verbatim>\<open>Recover\<close> reads back as the same version.
\<close>

subsection \<open>Replaying records\<close>

lemma report_prefix:
  "\<exists>xs. r_reports (ReportDrop n m r) = r_reports r @ xs" "\<exists>xs. r_reports (ReportCorruption n m' r) = r_reports r @ xs"
  by (auto simp: ReportDrop_def ReportCorruption_def)

definition reports_grow :: "'f Reader \<Rightarrow> 'f Reader \<Rightarrow> bool" where
  "reports_grow r r' \<longleftrightarrow> (\<exists>xs. r_reports r' = r_reports r @ xs)"

lemma reports_grow_refl [simp]: "r_reports r' = r_reports r \<Longrightarrow> reports_grow r r'"
  by (simp add: reports_grow_def)

lemma reports_grow_trans: "reports_grow r r' \<Longrightarrow> reports_grow r' r'' \<Longrightarrow> reports_grow r r''"
  by (auto simp: reports_grow_def)

lemma reports_grow_report [simp]:
  "reports_grow r r' \<Longrightarrow> reports_grow r (ReportDrop n m r')" "reports_grow r r' \<Longrightarrow> reports_grow r (ReportCorruption n m' r')"
  using report_prefix(1) [of n m r'] report_prefix(2) [of n m' r'] by (auto simp: reports_grow_def)

lemma reports_grow_update [simp]:
  "reports_grow r (r'\<lparr>r_buffer := b\<rparr>) = reports_grow r r'" "reports_grow r (r'\<lparr>r_eof := c\<rparr>) = reports_grow r r'"
  "reports_grow r (r'\<lparr>r_last_record_offset := d\<rparr>) = reports_grow r r'"
  "reports_grow (r\<lparr>r_eof := c\<rparr>) r' = reports_grow r r'" "reports_grow (r\<lparr>r_buffer := b\<rparr>) r' = reports_grow r r'"
  "reports_grow (r\<lparr>r_file := f\<rparr>) r' = reports_grow r r'" "reports_grow (r\<lparr>r_buffer_addr := n\<rparr>) r' = reports_grow r r'"
  "reports_grow (r\<lparr>r_end_of_buffer_offset := d\<rparr>) r' = reports_grow r r'"
  by (simp_all add: reports_grow_def)

lemma parse_record_reports: "parse_record result r = (t, d, r') \<Longrightarrow> reports_grow r r'"
  by (auto simp: parse_record_def Let_def split: if_splits)

lemma end_of_file_reports: "end_of_file result r = (t, d, r') \<Longrightarrow> reports_grow r r'"
  by (auto simp: end_of_file_def split: if_splits)

lemma ReadPhysicalRecord_reports:
  assumes "ReadPhysicalRecord rd result r = (t, d, r')"
  shows "reports_grow r r'"
proof -
  obtain s buf f where rd: "rd log_kBlockSize (r_file r) = (s, buf, f)" by (cases "rd log_kBlockSize (r_file r)")
  let ?r1 = "r\<lparr>r_file := f, r_buffer := buf, r_buffer_addr := r_backing_store r,
    r_end_of_buffer_offset := r_end_of_buffer_offset r + word_of_nat (length buf)\<rparr>"
  let ?r2 = "if length buf < log_kBlockSize then ?r1\<lparr>r_eof := True\<rparr> else ?r1"
  have "reports_grow r ?r1" "reports_grow r ?r2" by (simp_all add: reports_grow_def)
  then show ?thesis
    using assms parse_record_reports [of result r t d r'] end_of_file_reports [of result r t d r']
      parse_record_reports [of result ?r2 t d r'] end_of_file_reports [of result ?r2 t d r']
    unfolding ReadPhysicalRecord_def rd Let_def prod.case
    by (auto split: if_splits)
qed

lemma read_record_loop_reports:
  assumes "read_record_loop rd infr scratch prosp frag r = Some (m, rec, sc, r')"
  shows "reports_grow r r'"
proof -
  have "reports_grow r (snd (snd (snd (m, rec, sc, r'))))"
  proof (rule read_record_loop.raw_induct [OF _ assms,
        where P = "\<lambda>_ _ _ _ _ r y. reports_grow r (snd (snd (snd y)))"], goal_cases)
    case (1 loop rd infr scratch prosp frag r y)
    obtain t d r1 where p: "ReadPhysicalRecord rd frag r = (t, d, r1)" by (cases "ReadPhysicalRecord rd frag r")
    have g: "reports_grow r r1" by (rule ReadPhysicalRecord_reports [OF p])
    have step: "loop rd i sc pr fr r2 = Some y \<Longrightarrow> reports_grow r1 r2 \<Longrightarrow> reports_grow r (snd (snd (snd y)))" for i sc pr fr r2
      using 1(1) [of rd i sc pr fr r2 y] reports_grow_trans [OF g] reports_grow_trans by blast
    show ?case
      using 1(2) g step unfolding p Let_def prod.case by (auto split: if_splits)
  qed
  then show ?thesis by simp
qed

lemma ReadRecord_reports:
  assumes "ReadRecord rd skip r = Some (m, rec, sc, r')"
  shows "reports_grow r r'"
proof -
  obtain go r1 where g: "(if r_last_record_offset r < r_initial_offset r then SkipToInitialBlock skip r else (True, r)) = (go, r1)"
    by fastforce
  have "reports_grow r r1"
    using g by (auto simp: SkipToInitialBlock_def Let_def reports_grow_def ReportDrop_def split: if_splits prod.splits)
  moreover have "reports_grow r1 r'"
    using assms g read_record_loop_reports [of rd False "[]" 0 "[]" r1 m rec sc r']
    unfolding ReadRecord_def Let_def g prod.case by (auto split: if_splits)
  ultimately show ?thesis by (rule reports_grow_trans)
qed

lemma read_records_reports:
  "read_records rd skip n r = Some (recs, b, r') \<Longrightarrow> reports_grow r r'"
proof (induction n arbitrary: r recs)
  case (Suc n)
  obtain m rec sc r1 where 1: "ReadRecord rd skip r = Some (m, rec, sc, r1)"
    using Suc.prems by (cases "ReadRecord rd skip r") auto
  show ?case
    using Suc 1 reports_grow_trans [OF ReadRecord_reports [OF 1]] ReadRecord_reports [OF 1]
    by (auto split: if_splits option.splits)
qed simp

text \<open>When the log reader delivers records without a report and each of them is accepted, the loop of
  \<^verbatim>\<open>Recover\<close> applies them in order.\<close>

lemma recover_loop_records:
  assumes "read_records (eo_Read E) (eo_Skip E) n r = Some (recs, True, r')" "r_reports r' = r_reports r"
    and "rc_status st = None" "\<And>k. k < length recs \<Longrightarrow> rc_status (fold (recover_record ucmp name) (take (Suc k) recs) st) = None"
  shows "recover_loop ucmp name E (st, r) = Some (fold (recover_record ucmp name) recs st)"
  using assms
proof (induction n arbitrary: r recs st)
  case (Suc n)
  obtain m rec sc r1 where 1: "ReadRecord (eo_Read E) (eo_Skip E) r = Some (m, rec, sc, r1)"
    using Suc.prems(1) by (cases "ReadRecord (eo_Read E) (eo_Skip E) r") auto
  have "r1 = r' \<or> (\<exists>recs1 b. read_records (eo_Read E) (eo_Skip E) n r1 = Some (recs1, b, r'))"
    using Suc.prems(1) unfolding read_records.simps 1 option.case prod.case by (auto split: if_splits option.splits)
  then have "reports_grow r1 r'"
    by (elim disjE exE) (simp, rule read_records_reports)
  then have grow: "reports_grow r r1" "reports_grow r1 r'" using ReadRecord_reports [OF 1] by simp_all
  then obtain xs ys where "r_reports r1 = r_reports r @ xs" "r_reports r' = r_reports r1 @ ys"
    unfolding reports_grow_def by blast
  then have same: "r_reports r1 = r_reports r" using Suc.prems(2) by (metis append_Nil2 append_is_Nil_conv same_append_eq append_assoc)
  have st: "st\<lparr>rc_status := None\<rparr> = st" using Suc.prems(3) by simp
  show ?case
  proof (cases m)
    case True
    then obtain recs1 where recs: "recs = rec # recs1" "read_records (eo_Read E) (eo_Skip E) n r1 = Some (recs1, True, r')"
      using Suc.prems(1) 1 by (auto split: option.splits)
    have "recover_loop ucmp name E (recover_record ucmp name rec st, r1) =
        Some (fold (recover_record ucmp name) recs1 (recover_record ucmp name rec st))"
    proof (rule Suc.IH [OF recs(2)])
      show "rc_status (recover_record ucmp name rec st) = None" using Suc.prems(4) [of 0] recs(1) by simp
      show "rc_status (fold (recover_record ucmp name) (take (Suc k) recs1) (recover_record ucmp name rec st)) = None"
        if "k < length recs1" for k
        using Suc.prems(4) [of "Suc k"] recs(1) that by simp
    qed (use same Suc.prems(2) in simp)
    then show ?thesis
      using True 1 same Suc.prems(3) recs(1)
      by (subst recover_loop.simps) (simp add: reported_def ok_def st)
  next
    case False
    then show ?thesis
      using 1 same Suc.prems(1,3) by (subst recover_loop.simps) (auto simp: reported_def ok_def st)
  qed
qed simp

text \<open>The record of a well-formed edit.\<close>

definition applied_edit :: "(slice \<Rightarrow> slice \<Rightarrow> int) \<Rightarrow> VersionEdit \<Rightarrow> recover_state \<Rightarrow> recover_state" where
  "applied_edit ucmp e st = st\<lparr>rc_status := None,
     rc_builder := fst (Builder_Apply ucmp e (rc_builder st, rc_pointers st)),
     rc_pointers := snd (Builder_Apply ucmp e (rc_builder st, rc_pointers st)),
     rc_log_number := (if ve_has_log_number e then Some (ve_log_number e) else rc_log_number st),
     rc_prev_log_number := (if ve_has_prev_log_number e then Some (ve_prev_log_number e) else rc_prev_log_number st),
     rc_next_file := (if ve_has_next_file_number e then Some (ve_next_file_number e) else rc_next_file st),
     rc_last_sequence := (if ve_has_last_sequence e then Some (ve_last_sequence e) else rc_last_sequence st)\<rparr>"

lemma recover_record_edit:
  assumes "edit_ok e" "ve_has_comparator e \<longrightarrow> ve_comparator e = name"
  shows "recover_record ucmp name (VersionEdit_EncodeTo e []) st = applied_edit ucmp e st"
proof -
  have "VersionEdit_DecodeFrom (VersionEdit_EncodeTo e []) make_VersionEdit = (None, e)"
    using decode_encoded [OF assms(1), of make_VersionEdit] by (simp add: VersionEdit_DecodeFrom_def make_VersionEdit_def)
  then show ?thesis
    using assms(2) by (auto simp: recover_record_def applied_edit_def ok_def split: prod.splits)
qed

lemma fold_recover_edits:
  assumes "\<forall>e\<in>set es. edit_ok e \<and> (ve_has_comparator e \<longrightarrow> ve_comparator e = name)"
  shows "fold (recover_record ucmp name) (map (\<lambda>e. VersionEdit_EncodeTo e []) es) st = fold (applied_edit ucmp) es st"
  using assms by (induction es arbitrary: st) (simp_all add: recover_record_edit)

lemma fold_applied_status: "rc_status st = None \<Longrightarrow> rc_status (fold (applied_edit ucmp) es st) = None"
  by (induction es arbitrary: st) (simp_all add: applied_edit_def)

lemma fold_applied_builder:
  "(rc_builder (fold (applied_edit ucmp) es st), rc_pointers (fold (applied_edit ucmp) es st)) =
     Builder_edits ucmp es (rc_builder st, rc_pointers st)"
  by (induction es arbitrary: st) (simp_all add: applied_edit_def Builder_edits_def)

text \<open>An edit as \<^verbatim>\<open>LogAndApply\<close> completes it has all four numbers.\<close>

definition complete :: "VersionEdit \<Rightarrow> bool" where
  "complete e \<longleftrightarrow> ve_has_log_number e \<and> ve_has_prev_log_number e \<and> ve_has_next_file_number e \<and> ve_has_last_sequence e"

lemma fold_applied_numbers:
  assumes "complete (last es)" "es \<noteq> []"
  shows "rc_log_number (fold (applied_edit ucmp) es st) = Some (ve_log_number (last es)) \<and>
    rc_prev_log_number (fold (applied_edit ucmp) es st) = Some (ve_prev_log_number (last es)) \<and>
    rc_next_file (fold (applied_edit ucmp) es st) = Some (ve_next_file_number (last es)) \<and>
    rc_last_sequence (fold (applied_edit ucmp) es st) = Some (ve_last_sequence (last es))"
  using assms by (cases es rule: rev_cases) (simp_all add: applied_edit_def complete_def)

subsection \<open>The edits and the versions\<close>

text \<open>Calls of \<^verbatim>\<open>LogAndApply\<close> that all return OK; before each of them the counters of the version set may have
  moved on.  The completed edits, the version set and the environment after them.\<close>

type_synonym log_call = "u64 \<times> u64 \<times> nat \<times> nat \<times> VersionEdit"

definition call_edit :: "log_call \<Rightarrow> VersionEdit" where
  "call_edit c = snd (snd (snd (snd c)))"

fun log_edits ::
  "(slice \<Rightarrow> slice \<Rightarrow> int) \<Rightarrow> slice \<Rightarrow> ('e, 's) env_ops \<Rightarrow> log_call list \<Rightarrow> VersionSet \<Rightarrow> 'e \<Rightarrow>
   (VersionEdit list \<times> VersionSet \<times> 'e) option" where
  "log_edits ucmp name E [] vs e = Some ([], vs, e)"
| "log_edits ucmp name E ((next_file, last_seq, addr1, addr2, edit) # calls) vs e =
     (case LogAndApply ucmp name E addr1 addr2 edit
             (vs\<lparr>vs_next_file_number := next_file, vs_last_sequence := last_seq\<rparr>) e of
        None \<Rightarrow> None
      | Some (s, edit, vs, e) \<Rightarrow>
          if ok s then map_option (\<lambda>(es, vs, e). (edit # es, vs, e)) (log_edits ucmp name E calls vs e) else None)"

lemma v_files_Finalize [simp]: "v_files (Finalize v) = v_files v" "v_refs (Finalize v) = v_refs v"
  by (simp_all add: Finalize_def split: prod.splits)

lemma Apply_fst: "fst (Builder_Apply ucmp e (b, cp)) = fst (Builder_Apply ucmp e (b, cp'))"
  by (simp add: Builder_Apply_def Let_def)

lemma Apply_snd: "snd (Builder_Apply ucmp e (b, cp)) = fold (\<lambda>(level, key) p. p(level := key)) (ve_compact_pointers e) cp"
  by (simp add: Builder_Apply_def Let_def)

lemma SaveTo_files:
  assumes "v_files base = v_files base'"
  shows "Builder_SaveTo ucmp (fst (Builder_Apply ucmp e (make_Builder base, cp))) v =
    Builder_SaveTo ucmp (fst (Builder_Apply ucmp e (make_Builder base', cp'))) v"
  using assms by (simp add: Builder_SaveTo_def Builder_Apply_def make_Builder_def Let_def)

lemma chain_files:
  assumes "v_files base = v_files base'" "version_chain ucmp base es = Some v"
  shows "\<exists>v'. version_chain ucmp base' es = Some v' \<and> v_files v' = v_files v"
  using assms
  by (cases es) (auto simp: SaveTo_files [OF assms(1), of ucmp _ "\<lambda>_. []" _ "\<lambda>_. []"] split: option.splits)

lemma append_version_current:
  "AppendVersion v vs = Some vs' \<Longrightarrow> v_files (vs_current vs') = v_files v \<and> vs_dbname vs' = vs_dbname vs \<and>
     vs_descriptor vs' = vs_descriptor vs \<and> vs_manifest_file_number vs' = vs_manifest_file_number vs \<and>
     vs_next_file_number vs' = vs_next_file_number vs \<and> vs_last_sequence vs' = vs_last_sequence vs \<and>
     vs_compact_pointer vs' = vs_compact_pointer vs"
  by (auto simp: AppendVersion_def vs_current_def Version_Ref_def split: if_splits)

lemma complete_edit_fields:
  assumes "complete_edit edit vs = Some e"
  shows "complete e \<and> ve_new_files e = ve_new_files edit \<and> ve_deleted_files e = ve_deleted_files edit \<and>
    ve_compact_pointers e = ve_compact_pointers edit \<and> ve_has_comparator e = ve_has_comparator edit \<and>
    ve_comparator e = ve_comparator edit \<and> ve_next_file_number e = vs_next_file_number vs \<and>
    ve_last_sequence e = vs_last_sequence vs"
    and "edit_ok edit \<Longrightarrow> edit_ok e"
proof -
  define e1 where "e1 = (if ve_has_log_number edit then edit else SetLogNumber (vs_log_number vs) edit)"
  define e2 where "e2 = (if ve_has_prev_log_number e1 then e1 else SetPrevLogNumber (vs_prev_log_number vs) e1)"
  have e: "e = SetLastSequence (vs_last_sequence vs) (SetNextFile (vs_next_file_number vs) e2)"
    using assms unfolding complete_edit_def Let_def e1_def [symmetric] e2_def [symmetric] by (simp split: if_split_asm)
  show "complete e \<and> ve_new_files e = ve_new_files edit \<and> ve_deleted_files e = ve_deleted_files edit \<and>
    ve_compact_pointers e = ve_compact_pointers edit \<and> ve_has_comparator e = ve_has_comparator edit \<and>
    ve_comparator e = ve_comparator edit \<and> ve_next_file_number e = vs_next_file_number vs \<and>
    ve_last_sequence e = vs_last_sequence vs"
    unfolding e e2_def e1_def
    by (simp add: SetLastSequence_def SetNextFile_def SetPrevLogNumber_def SetLogNumber_def complete_def)
  show "edit_ok e" if "edit_ok edit"
    unfolding e e2_def e1_def by (simp add: edit_ok_setters that)
qed

text \<open>A call that returns OK, taken apart.\<close>

lemma LogAndApply_ok:
  assumes "LogAndApply ucmp name E addr1 addr2 edit vs e = Some (s, edit', vs', e')" "s = None"
  obtains v s1 nm vs1 e1 vs2 e2 s3 vs3 where
    "complete_edit edit vs = Some edit'"
    "Builder_SaveTo ucmp (fst (Builder_Apply ucmp edit' (make_Builder (vs_current vs), vs_compact_pointer vs))) make_Version = Some v"
    "vs_descriptor vs = None \<longrightarrow> vs_manifest_file_number vs \<noteq> 0"
    "open_descriptor name E addr1 (vs\<lparr>vs_compact_pointer :=
        snd (Builder_Apply ucmp edit' (make_Builder (vs_current vs), vs_compact_pointer vs))\<rparr>) e = (s1, nm, vs1, e1)" "s1 = None"
    "write_edit E addr2 edit' vs1 e1 = (None, vs2, e2)"
    "(if nm \<noteq> [] then SetCurrentFile E (vs_dbname vs2) (vs_manifest_file_number vs2) e2 else (None, e2)) = (s3, e')" "s3 = None"
    "AppendVersion (Finalize v) vs2 = Some vs3"
    "vs' = vs3\<lparr>vs_log_number := ve_log_number edit', vs_prev_log_number := ve_prev_log_number edit'\<rparr>"
proof -
  obtain ed where c: "complete_edit edit vs = Some ed"
    using assms(1) by (cases "complete_edit edit vs") (auto simp: LogAndApply_def)
  obtain b p where bp: "Builder_Apply ucmp ed (make_Builder (vs_current vs), vs_compact_pointer vs) = (b, p)" by fastforce
  define vs0 where "vs0 = vs\<lparr>vs_compact_pointer := p\<rparr>"
  have d0: "vs_descriptor vs0 = vs_descriptor vs" "vs_manifest_file_number vs0 = vs_manifest_file_number vs" by (simp_all add: vs0_def)
  obtain v where v: "Builder_SaveTo ucmp b make_Version = Some v"
    using assms(1) by (cases "Builder_SaveTo ucmp b make_Version") (auto simp: LogAndApply_def c bp)
  obtain s1 nm vs1 e1 where o: "open_descriptor name E addr1 vs0 e = (s1, nm, vs1, e1)"
    by (cases "open_descriptor name E addr1 vs0 e")
  obtain s2 vs2 e2 where w: "(if ok s1 then write_edit E addr2 ed vs1 e1 else (s1, vs1, e1)) = (s2, vs2, e2)"
    by (cases "if ok s1 then write_edit E addr2 ed vs1 e1 else (s1, vs1, e1)")
  obtain s3 e3 where cu: "(if ok s2 \<and> nm \<noteq> [] then SetCurrentFile E (vs_dbname vs2) (vs_manifest_file_number vs2) e2 else (s2, e2)) = (s3, e3)"
    by (cases "if ok s2 \<and> nm \<noteq> [] then SetCurrentFile E (vs_dbname vs2) (vs_manifest_file_number vs2) e2 else (s2, e2)")
  have res: "(if vs_descriptor vs0 = None \<and> vs_manifest_file_number vs0 = 0 then None
      else if ok s3 then (case AppendVersion (Finalize v) vs2 of None \<Rightarrow> None
        | Some vs \<Rightarrow> Some (s3, ed, vs\<lparr>vs_log_number := ve_log_number ed, vs_prev_log_number := ve_prev_log_number ed\<rparr>, e3))
      else let (vs, e) = discard_descriptor E nm vs2 e3 in Some (s3, ed, vs, e)) = Some (s, edit', vs', e')"
    using assms(1) unfolding LogAndApply_def c option.case bp prod.case Let_def v vs0_def [symmetric] o w cu .
  then have nz: "vs_descriptor vs = None \<longrightarrow> vs_manifest_file_number vs \<noteq> 0" by (auto simp: d0 split: if_splits)
  have s3: "s3 = None" using res assms(2) by (auto simp: ok_def split: if_splits option.splits prod.splits)
  have s2: "s2 = None" using cu s3 by (auto simp: ok_def split: if_splits)
  have s1: "s1 = None" using w s2 by (auto simp: ok_def split: if_splits)
  obtain vs3 where ap: "AppendVersion (Finalize v) vs2 = Some vs3"
    and r: "ed = edit'" "e3 = e'" "vs' = vs3\<lparr>vs_log_number := ve_log_number edit', vs_prev_log_number := ve_prev_log_number edit'\<rparr>"
    using res s3 by (auto simp: ok_def split: if_splits option.splits)
  have cu': "(if nm \<noteq> [] then SetCurrentFile E (vs_dbname vs2) (vs_manifest_file_number vs2) e2 else (None, e2)) = (s3, e')"
    using cu s2 r(2) by (auto simp: ok_def split: if_splits)
  have w': "write_edit E addr2 edit' vs1 e1 = (None, vs2, e2)" using w s1 s2 r(1) by (simp add: ok_def)
  show thesis
    by (rule that [OF _ _ nz _ s1 w' cu' s3 ap r(3)]) (use c r(1) v bp o vs0_def in auto)
qed

text \<open>What the calls leave of the version set.\<close>

lemma vs_current_update [simp]:
  "vs_current (vs\<lparr>vs_next_file_number := a\<rparr>) = vs_current vs" "vs_current (vs\<lparr>vs_last_sequence := a\<rparr>) = vs_current vs"
  "vs_current (vs\<lparr>vs_compact_pointer := p\<rparr>) = vs_current vs" "vs_current (vs\<lparr>vs_descriptor := d\<rparr>) = vs_current vs"
  "vs_current (vs\<lparr>vs_log_number := a\<rparr>) = vs_current vs" "vs_current (vs\<lparr>vs_prev_log_number := a\<rparr>) = vs_current vs"
  by (simp_all add: vs_current_def)

lemma open_descriptor_fields:
  assumes "open_descriptor name E addr vs e = (s, nm, vs', e')"
  shows "vs' = vs\<lparr>vs_descriptor := vs_descriptor vs'\<rparr>"
  using assms by (auto simp: open_descriptor_def Let_def split: option.splits prod.splits if_splits)

lemma write_edit_fields:
  assumes "write_edit E addr edit vs e = (s, vs', e')"
  shows "vs' = vs\<lparr>vs_descriptor := vs_descriptor vs'\<rparr>"
  using assms by (auto simp: write_edit_def Let_def split: option.splits prod.splits if_splits)

definition edit_pointers :: "VersionEdit list \<Rightarrow> (nat \<Rightarrow> slice) \<Rightarrow> nat \<Rightarrow> slice" where
  "edit_pointers es = fold (\<lambda>e. fold (\<lambda>(level, key) p. p(level := key)) (ve_compact_pointers e)) es"

lemma LogAndApply_fields:
  assumes "LogAndApply ucmp name E addr1 addr2 edit vs e = Some (s, edit', vs', e')" "s = None"
  shows "complete_edit edit vs = Some edit' \<and>
    (\<exists>w. version_chain ucmp (vs_current vs) [edit'] = Some w \<and> v_files (vs_current vs') = v_files w) \<and>
    vs_dbname vs' = vs_dbname vs \<and> vs_manifest_file_number vs' = vs_manifest_file_number vs \<and>
    vs_next_file_number vs' = vs_next_file_number vs \<and> vs_last_sequence vs' = vs_last_sequence vs \<and>
    vs_log_number vs' = ve_log_number edit' \<and> vs_prev_log_number vs' = ve_prev_log_number edit' \<and>
    vs_compact_pointer vs' = edit_pointers [edit'] (vs_compact_pointer vs)"
proof -
  from assms show ?thesis
  proof (rule LogAndApply_ok, goal_cases)
    case (1 v s1 nm vs1 e1 vs2 e2 s3 vs3)
    note f = open_descriptor_fields [OF 1(4)] write_edit_fields [OF 1(6)] append_version_current [OF 1(9)]
    have "Builder_SaveTo ucmp (fst (Builder_Apply ucmp edit' (make_Builder (vs_current vs), \<lambda>_. []))) make_Version = Some v"
      using 1(2) Apply_fst [of ucmp edit' "make_Builder (vs_current vs)" "vs_compact_pointer vs" "\<lambda>_. []"] by simp
    moreover have "vs_dbname vs1 = vs_dbname vs" "vs_manifest_file_number vs1 = vs_manifest_file_number vs"
        "vs_next_file_number vs1 = vs_next_file_number vs" "vs_last_sequence vs1 = vs_last_sequence vs"
        "vs_compact_pointer vs1 = edit_pointers [edit'] (vs_compact_pointer vs)"
      by (subst f(1), simp add: Apply_snd edit_pointers_def)+
    moreover have "vs_dbname vs2 = vs_dbname vs1" "vs_manifest_file_number vs2 = vs_manifest_file_number vs1"
        "vs_next_file_number vs2 = vs_next_file_number vs1" "vs_last_sequence vs2 = vs_last_sequence vs1"
        "vs_compact_pointer vs2 = vs_compact_pointer vs1"
      by (subst f(2), simp)+
    ultimately show ?case using 1(1,10) f(3) by simp
  qed
qed

lemma log_edits_fields:
  assumes "log_edits ucmp name E calls vs e = Some (es, vs', e')"
  shows "(\<exists>w. version_chain ucmp (vs_current vs) es = Some w \<and> v_files (vs_current vs') = v_files w) \<and>
    vs_dbname vs' = vs_dbname vs \<and> vs_manifest_file_number vs' = vs_manifest_file_number vs \<and>
    vs_compact_pointer vs' = edit_pointers es (vs_compact_pointer vs) \<and>
    list_all2 (\<lambda>c e. \<exists>vs. complete_edit (call_edit c) vs = Some e) calls es \<and>
    (es \<noteq> [] \<longrightarrow> complete (last es) \<and> vs_next_file_number vs' = ve_next_file_number (last es) \<and>
       vs_last_sequence vs' = ve_last_sequence (last es) \<and> vs_log_number vs' = ve_log_number (last es) \<and>
       vs_prev_log_number vs' = ve_prev_log_number (last es))"
  using assms
proof (induction calls arbitrary: vs e es)
  case Nil
  then show ?case by (simp add: edit_pointers_def)
next
  case (Cons c calls)
  obtain nf sq a1 a2 ed where c: "c = (nf, sq, a1, a2, ed)" by (cases c)
  let ?vs = "vs\<lparr>vs_next_file_number := nf, vs_last_sequence := sq\<rparr>"
  obtain ed' vs1 e1 where l: "LogAndApply ucmp name E a1 a2 ed ?vs e = Some (None, ed', vs1, e1)"
    using Cons.prems by (auto simp: c ok_def split: option.splits if_splits)
  obtain es1 where es: "es = ed' # es1" and rest: "log_edits ucmp name E calls vs1 e1 = Some (es1, vs', e')"
    using Cons.prems l by (auto simp: c ok_def split: option.splits)
  note f = LogAndApply_fields [OF l refl] and IH = Cons.IH [OF rest]
  obtain w w1 where w: "version_chain ucmp (vs_current vs) [ed'] = Some w" "v_files (vs_current vs1) = v_files w"
    and w1: "version_chain ucmp (vs_current vs1) es1 = Some w1" "v_files (vs_current vs') = v_files w1"
    using f IH by auto
  obtain w2 where w2: "version_chain ucmp w es1 = Some w2" "v_files w2 = v_files w1" using chain_files [OF w(2) w1(1)] by blast
  then have chain: "\<exists>w. version_chain ucmp (vs_current vs) es = Some w \<and> v_files (vs_current vs') = v_files w"
    using w(1) w1(2) es by (auto split: option.splits)
  have ce: "complete_edit ed ?vs = Some ed'" using f by simp
  have last: "es1 = [] \<longrightarrow> vs' = vs1" using rest by (cases calls) (auto split: option.splits if_splits prod.splits)
  show ?case
    using chain f IH es ce last complete_edit_fields(1) [OF ce] c
    by (cases "es1 = []") (auto simp: edit_pointers_def call_edit_def)
qed

subsection \<open>The bytes of the descriptor\<close>

fun records_end :: "nat \<Rightarrow> (nat \<times> slice) list \<Rightarrow> nat" where
  "records_end off [] = off"
| "records_end off ((addr, data) # rs) = records_end (layout_end off (fragments addr off True data)) rs"

lemma records_layout_append:
  "records_layout off (xs @ ys) = records_layout off xs @ records_layout (records_end off xs) ys"
  "records_end off (xs @ ys) = records_end (records_end off xs) ys"
  by (induction xs arbitrary: off) auto

text \<open>The descriptor file is open and holds the records \<open>rs\<close>, and \<^verbatim>\<open>CURRENT\<close> names it.\<close>

definition descriptor_holds ::
  "('e \<Rightarrow> slice \<Rightarrow> slice option) \<Rightarrow> ('e \<Rightarrow> slice set) \<Rightarrow> ('e \<Rightarrow> bool) \<Rightarrow> VersionSet \<Rightarrow> 'e \<Rightarrow> (nat \<times> slice) list \<Rightarrow> bool" where
  "descriptor_holds files opened healthy vs e rs \<longleftrightarrow>
     (let d = DescriptorFileName (vs_dbname vs) (vs_manifest_file_number vs); c = CurrentFileName (vs_dbname vs)
      in healthy e \<and> vs_descriptor vs = Some (d, records_end 0 rs) \<and> d \<in> opened e \<and>
         files e d = Some (records_layout 0 rs) \<and> c \<notin> opened e \<and>
         files e c = Some (str ''MANIFEST-'' @ pad6 (vs_manifest_file_number vs) @ [10]))"

abbreviation edit_bytes :: "VersionEdit \<Rightarrow> slice" where
  "edit_bytes e \<equiv> VersionEdit_EncodeTo e []"

lemma DescriptorFileName_not_Nil: "DescriptorFileName db n \<noteq> []"
  by (simp add: DescriptorFileName_def str_simps)

context env
begin

lemma add_record:
  assumes "healthy e" "n \<in> opened e" "files e n = Some c"
    and "AddRecord (eo_Append E n) (eo_Flush E n) addr data \<lparr>w_dest = e, w_block_offset = off\<rparr> = (s, lw)"
  shows "s = None \<and> healthy (w_dest lw) \<and> opened (w_dest lw) = opened e \<and>
    files (w_dest lw) = (files e)(n \<mapsto> c @ layout off (fragments addr off True data)) \<and>
    w_block_offset lw = layout_end off (fragments addr off True data)"
proof -
  have "healthy (w_dest \<lparr>w_dest = e, w_block_offset = off\<rparr>) \<and> n \<in> opened e \<and>
      opened (w_dest \<lparr>w_dest = e, w_block_offset = off\<rparr>) = opened e \<and>
      (files (w_dest \<lparr>w_dest = e, w_block_offset = off\<rparr>))(n := None) = (files e)(n := None)"
    using assms(1,2) by simp
  note a = log.AddRecord_ok [OF this assms(4)]
  then have "files (w_dest lw) n \<noteq> None" using opened_files assms(2) by auto
  then have "files (w_dest lw) n = Some (c @ layout off (fragments addr off True data))" using a assms(3) by auto
  moreover have "(files (w_dest lw))(n := None) = (files e)(n := None)" using a by simp
  ultimately have "files (w_dest lw) = (files e)(n \<mapsto> c @ layout off (fragments addr off True data))"
    by (metis fun_upd_triv fun_upd_upd)
  then show ?thesis using a by simp
qed

lemma write_edit_holds:
  assumes "healthy e" "d \<in> opened e" "files e d = Some (records_layout 0 rs)" "vs_descriptor vs = Some (d, records_end 0 rs)"
    and "write_edit E addr edit vs e = (s, vs', e')"
  shows "s = None \<and> healthy e' \<and> opened e' = opened e \<and> files e' = (files e)(d \<mapsto> records_layout 0 (rs @ [(addr, edit_bytes edit)])) \<and>
    vs_descriptor vs' = Some (d, records_end 0 (rs @ [(addr, edit_bytes edit)]))"
proof -
  obtain s1 lw where a: "AddRecord (eo_Append E d) (eo_Flush E d) addr (edit_bytes edit)
      \<lparr>w_dest = e, w_block_offset = records_end 0 rs\<rparr> = (s1, lw)" by fastforce
  note ar = add_record [OF assms(1-3) a]
  obtain s2 e2 where y: "eo_Sync E d (w_dest lw) = (s2, e2)" by fastforce
  have "healthy (w_dest lw)" "d \<in> opened (w_dest lw)" using ar assms(2) by auto
  note sy = sync [OF this y]
  have "(s, vs', e') = (s2, vs\<lparr>vs_descriptor := Some (d, w_block_offset lw)\<rparr>, e2)"
    using assms(5) a y ar unfolding write_edit_def assms(4) option.case prod.case Let_def by (simp add: ok_def)
  then show ?thesis using ar sy by (simp add: records_layout_append)
qed

lemma open_descriptor_holds:
  assumes "healthy e" "vs_descriptor vs = None" "open_descriptor name E addr vs e = (s, nm, vs', e')"
  defines "d \<equiv> DescriptorFileName (vs_dbname vs) (vs_manifest_file_number vs)"
  shows "s = None \<and> nm = d \<and> healthy e' \<and> opened e' = insert d (opened e) \<and>
    files e' = (files e)(d \<mapsto> records_layout 0 [(addr, edit_bytes (snapshot_edit name vs))]) \<and>
    vs_descriptor vs' = Some (d, records_end 0 [(addr, edit_bytes (snapshot_edit name vs))])"
proof -
  obtain s1 e1 where n: "eo_NewWritableFile E d e = (s1, e1)" by fastforce
  note nw = new_writable [OF assms(1) n]
  obtain s2 lw where a: "AddRecord (eo_Append E d) (eo_Flush E d) addr (edit_bytes (snapshot_edit name vs))
      \<lparr>w_dest = e1, w_block_offset = 0\<rparr> = (s2, lw)" by fastforce
  have e1: "healthy e1" "d \<in> opened e1" "files e1 d = Some []" using nw by auto
  note ar = add_record [OF e1 a]
  have "(s, nm, vs', e') = (s2, d, vs\<lparr>vs_descriptor := Some (d, w_block_offset lw)\<rparr>, w_dest lw)"
    using assms(3) n a nw
    unfolding open_descriptor_def assms(2) option.case prod.case Let_def d_def [symmetric] WriteSnapshot_def make_Writer_def
    by (auto simp: ok_def)
  then show ?thesis using ar nw by simp
qed

lemma LogAndApply_first:
  assumes "healthy e" "CurrentFileName (vs_dbname vs) \<notin> opened e" "vs_descriptor vs = None"
    and l: "LogAndApply ucmp name E a1 a2 edit vs e = Some (s, edit', vs', e')" "s = None"
  shows "descriptor_holds files opened healthy vs' e'
    [(a1, edit_bytes (snapshot_edit name (vs\<lparr>vs_compact_pointer := edit_pointers [edit'] (vs_compact_pointer vs)\<rparr>))), (a2, edit_bytes edit')]"
proof -
  from l show ?thesis
  proof (rule LogAndApply_ok, goal_cases)
    case (1 v s1 nm vs1 e1 vs2 e2 s3 vs3)
    let ?vs = "vs\<lparr>vs_compact_pointer := edit_pointers [edit'] (vs_compact_pointer vs)\<rparr>"
    let ?d = "DescriptorFileName (vs_dbname vs) (vs_manifest_file_number vs)"
    have o: "open_descriptor name E a1 ?vs e = (s1, nm, vs1, e1)" using 1(4) by (simp add: Apply_snd edit_pointers_def)
    note h1 = open_descriptor_holds [OF assms(1) _ o, simplified, OF assms(3)]
    have h2: "healthy e2 \<and> opened e2 = opened e1 \<and>
        files e2 = (files e1)(?d \<mapsto> records_layout 0 ([(a1, edit_bytes (snapshot_edit name ?vs))] @ [(a2, edit_bytes edit')])) \<and>
        vs_descriptor vs2 = Some (?d, records_end 0 ([(a1, edit_bytes (snapshot_edit name ?vs))] @ [(a2, edit_bytes edit')]))"
      by (rule write_edit_holds [OF _ _ _ _ 1(6), THEN conjunct2]) (use h1 in auto)
    have f: "vs_dbname vs2 = vs_dbname vs" "vs_manifest_file_number vs2 = vs_manifest_file_number vs"
      by (subst write_edit_fields [OF 1(6)], subst open_descriptor_fields [OF o], simp)+
    have nm: "nm \<noteq> []" using h1 DescriptorFileName_not_Nil by simp
    have cur: "SetCurrentFile E (vs_dbname vs) (vs_manifest_file_number vs) e2 = (s3, e')" using 1(7) nm f by simp
    have "healthy e2" "CurrentFileName (vs_dbname vs) \<notin> opened e2"
      using h1 h2 assms(2) names_differ(3) [of "vs_dbname vs" "vs_manifest_file_number vs"] by auto
    note sc = set_current [OF this cur]
    show ?case
      using sc h1 h2 f append_version_current [OF 1(9)] 1(10) assms(2)
        names_differ(2) [of "vs_dbname vs" "vs_manifest_file_number vs" "vs_manifest_file_number vs"]
        names_differ(3) [of "vs_dbname vs" "vs_manifest_file_number vs"]
        names_differ(1) [of "vs_dbname vs" "vs_manifest_file_number vs"]
      by (auto simp: descriptor_holds_def Let_def)
  qed
qed

lemma LogAndApply_next:
  assumes h: "descriptor_holds files opened healthy vs e rs"
    and l: "LogAndApply ucmp name E a1 a2 edit vs e = Some (s, edit', vs', e')" "s = None"
  shows "descriptor_holds files opened healthy vs' e' (rs @ [(a2, edit_bytes edit')])"
proof -
  let ?d = "DescriptorFileName (vs_dbname vs) (vs_manifest_file_number vs)"
  note h' = h [unfolded descriptor_holds_def Let_def]
  from l show ?thesis
  proof (rule LogAndApply_ok, goal_cases)
    case (1 v s1 nm vs1 e1 vs2 e2 s3 vs3)
    have o: "nm = []" "e1 = e" "vs1 = vs\<lparr>vs_compact_pointer := snd (Builder_Apply ucmp edit' (make_Builder (vs_current vs), vs_compact_pointer vs))\<rparr>"
      using 1(4) h' by (auto simp: open_descriptor_def)
    have w: "healthy e2 \<and> opened e2 = opened e \<and> files e2 = (files e)(?d \<mapsto> records_layout 0 (rs @ [(a2, edit_bytes edit')])) \<and>
        vs_descriptor vs2 = Some (?d, records_end 0 (rs @ [(a2, edit_bytes edit')]))"
      by (rule write_edit_holds [OF _ _ _ _ 1(6) [unfolded o], THEN conjunct2]) (use h' in auto)
    have f: "vs_dbname vs2 = vs_dbname vs" "vs_manifest_file_number vs2 = vs_manifest_file_number vs"
      by (subst write_edit_fields [OF 1(6)], simp add: o)+
    show ?case
      using w f o h' append_version_current [OF 1(9)] 1(7,10) names_differ(3) [of "vs_dbname vs" "vs_manifest_file_number vs"]
      by (auto simp: descriptor_holds_def Let_def)
  qed
qed

lemma log_edits_next:
  assumes "descriptor_holds files opened healthy vs e rs" "log_edits ucmp name E calls vs e = Some (es, vs', e')"
  shows "\<exists>addrs. length addrs = length es \<and>
    descriptor_holds files opened healthy vs' e' (rs @ zip addrs (map edit_bytes es))"
  using assms
proof (induction calls arbitrary: vs e rs es)
  case (Cons c calls)
  obtain nf sq a1 a2 ed where c: "c = (nf, sq, a1, a2, ed)" by (cases c)
  let ?vs = "vs\<lparr>vs_next_file_number := nf, vs_last_sequence := sq\<rparr>"
  obtain ed' vs1 e1 where l: "LogAndApply ucmp name E a1 a2 ed ?vs e = Some (None, ed', vs1, e1)"
    using Cons.prems(2) by (auto simp: c ok_def split: option.splits if_splits)
  obtain es1 where es: "es = ed' # es1" and rest: "log_edits ucmp name E calls vs1 e1 = Some (es1, vs', e')"
    using Cons.prems(2) l by (auto simp: c ok_def split: option.splits)
  have "descriptor_holds files opened healthy ?vs e rs" using Cons.prems(1) by (simp add: descriptor_holds_def)
  from Cons.IH [OF LogAndApply_next [OF this l refl] rest]
  obtain addrs where "length addrs = length es1"
    "descriptor_holds files opened healthy vs' e' ((rs @ [(a2, edit_bytes ed')]) @ zip addrs (map edit_bytes es1))" by blast
  then show ?case by (intro exI [of _ "a2 # addrs"]) (simp add: es)
qed auto

lemma snapshot_edit_cong:
  "snapshot_edit name (vs\<lparr>vs_next_file_number := nf, vs_last_sequence := sq, vs_compact_pointer := p\<rparr>) =
     snapshot_edit name (vs\<lparr>vs_compact_pointer := p\<rparr>)"
  by (simp add: snapshot_edit_def cong: if_cong)

lemma log_edits_holds:
  assumes "healthy e" "CurrentFileName (vs_dbname vs) \<notin> opened e" "vs_descriptor vs = None" "calls \<noteq> []"
    and "log_edits ucmp name E calls vs e = Some (es, vs', e')"
  shows "\<exists>a addrs. length addrs = length es \<and> descriptor_holds files opened healthy vs' e'
    ((a, edit_bytes (snapshot_edit name (vs\<lparr>vs_compact_pointer := edit_pointers [hd es] (vs_compact_pointer vs)\<rparr>))) #
       zip addrs (map edit_bytes es))"
proof -
  obtain nf sq a1 a2 ed calls1 where c: "calls = (nf, sq, a1, a2, ed) # calls1" using assms(4) by (cases calls) auto
  let ?vs = "vs\<lparr>vs_next_file_number := nf, vs_last_sequence := sq\<rparr>"
  obtain ed' vs1 e1 where l: "LogAndApply ucmp name E a1 a2 ed ?vs e = Some (None, ed', vs1, e1)"
    using assms(5) by (auto simp: c ok_def split: option.splits if_splits)
  obtain es1 where es: "es = ed' # es1" and rest: "log_edits ucmp name E calls1 vs1 e1 = Some (es1, vs', e')"
    using assms(5) l by (auto simp: c ok_def split: option.splits)
  have "CurrentFileName (vs_dbname ?vs) \<notin> opened e" "vs_descriptor ?vs = None" using assms(2,3) by simp_all
  note first = LogAndApply_first [OF assms(1) this l refl]
  obtain addrs where "length addrs = length es1" and d: "descriptor_holds files opened healthy vs' e'
      ([(a1, edit_bytes (snapshot_edit name (?vs\<lparr>vs_compact_pointer := edit_pointers [ed'] (vs_compact_pointer ?vs)\<rparr>))), (a2, edit_bytes ed')] @
       zip addrs (map edit_bytes es1))"
    using log_edits_next [OF first rest] by blast
  then show ?thesis
    by (intro exI [of _ a1] exI [of _ "a2 # addrs"]) (simp add: es snapshot_edit_cong)
qed

end

subsection \<open>The snapshot\<close>

text \<open>File metadata as a builder makes it: one reference, the seeks of a new file.\<close>

definition fresh_file :: "FileMetaData \<Rightarrow> bool" where
  "fresh_file f \<longleftrightarrow> f = added_file (make_FileMetaData (fm_number f) (fm_file_size f) (fm_smallest f) (fm_largest f))"

definition file_edit :: "nat \<Rightarrow> FileMetaData \<Rightarrow> nat \<times> FileMetaData" where
  "file_edit l f = (l, make_FileMetaData (fm_number f) (fm_file_size f) (fm_smallest f) (fm_largest f))"

definition vs_sized :: "slice \<Rightarrow> VersionSet \<Rightarrow> bool" where
  "vs_sized name vs \<longleftrightarrow> length name < 2 ^ 32 \<and> (\<forall>l<kNumLevels. length (vs_compact_pointer vs l) < 2 ^ 32) \<and>
     (\<forall>l<kNumLevels. \<forall>f\<in>set (v_files (vs_current vs) l). length (fm_smallest f) < 2 ^ 32 \<and> length (fm_largest f) < 2 ^ 32)"

definition snapshot_pointers :: "VersionSet \<Rightarrow> (nat \<times> slice) list" where
  "snapshot_pointers vs = map (\<lambda>l. (l, vs_compact_pointer vs l)) (filter (\<lambda>l. vs_compact_pointer vs l \<noteq> []) [0..<kNumLevels])"

definition snapshot_files :: "VersionSet \<Rightarrow> (nat \<times> FileMetaData) list" where
  "snapshot_files vs = concat (map (\<lambda>l. map (file_edit l) (v_files (vs_current vs) l)) [0..<kNumLevels])"

lemma fold_SetCompactPointer:
  "fold (\<lambda>level edit. if p level \<noteq> [] then SetCompactPointer level (p level) edit else edit) ls e =
     e\<lparr>ve_compact_pointers := ve_compact_pointers e @ map (\<lambda>l. (l, p l)) (filter (\<lambda>l. p l \<noteq> []) ls)\<rparr>"
  by (induction ls arbitrary: e) (simp_all add: SetCompactPointer_def)

lemma fold_AddFile:
  "fold (\<lambda>f edit. AddFile level (fm_number f) (fm_file_size f) (fm_smallest f) (fm_largest f) edit) fs e =
     e\<lparr>ve_new_files := ve_new_files e @ map (file_edit level) fs\<rparr>"
  by (induction fs arbitrary: e) (simp_all add: AddFile_def file_edit_def)

lemma fold_AddFiles:
  "fold (\<lambda>level edit. fold (\<lambda>f edit. AddFile level (fm_number f) (fm_file_size f) (fm_smallest f) (fm_largest f) edit)
      (files level) edit) ls e =
     e\<lparr>ve_new_files := ve_new_files e @ concat (map (\<lambda>l. map (file_edit l) (files l)) ls)\<rparr>"
  by (induction ls arbitrary: e) (simp_all add: fold_AddFile)

lemma snapshot_edit_eq:
  "snapshot_edit name vs = make_VersionEdit\<lparr>ve_has_comparator := True, ve_comparator := name,
     ve_compact_pointers := snapshot_pointers vs, ve_new_files := snapshot_files vs\<rparr>"
  unfolding snapshot_edit_def Let_def fold_SetCompactPointer fold_AddFiles
  by (simp add: SetComparatorName_def make_VersionEdit_def snapshot_pointers_def snapshot_files_def)

lemma snapshot_edit_ok: "vs_sized name vs \<Longrightarrow> edit_ok (snapshot_edit name vs)"
  by (auto simp: snapshot_edit_eq edit_ok_def make_VersionEdit_def vs_sized_def snapshot_pointers_def snapshot_files_def file_edit_def
      make_FileMetaData_def)

lemma snapshot_files_at:
  assumes "l < kNumLevels" "\<forall>f\<in>set (v_files (vs_current vs) l). fresh_file f"
  shows "files_at l (ve_new_files (snapshot_edit name vs)) = v_files (vs_current vs) l"
proof -
  have one: "filter (\<lambda>x. fst x = l) (map (file_edit m) fs) = (if m = l then map (file_edit m) fs else [])" for m fs
    by (induction fs) (auto simp: file_edit_def)
  have "filter (\<lambda>x. fst x = l) (concat (map (\<lambda>m. map (file_edit m) (F m)) ls)) =
      concat (map (\<lambda>m. if m = l then map (file_edit m) (F m) else []) ls)" for F ls
    by (induction ls) (simp_all add: one)
  moreover have "concat (map (\<lambda>m. if m = l then map (file_edit m) (F m) else []) ls) = (if l \<in> set ls then map (file_edit l) (F l) else [])"
    if "distinct ls" for F ls
    using that by (induction ls) auto
  ultimately have "filter (\<lambda>x. fst x = l) (snapshot_files vs) = map (file_edit l) (v_files (vs_current vs) l)"
    using assms(1) by (simp add: snapshot_files_def)
  then have "files_at l (ve_new_files (snapshot_edit name vs)) = map (\<lambda>f. added_file (snd (file_edit l f))) (v_files (vs_current vs) l)"
    by (simp add: files_at_def snapshot_edit_eq)
  also have "\<dots> = v_files (vs_current vs) l"
    using assms(2) by (intro map_idI) (simp add: file_edit_def fresh_file_def)
  finally show ?thesis .
qed

text \<open>Only the files an edit adds and deletes matter to the versions.\<close>

lemma edits_ok_files:
  assumes "map ve_new_files es = map ve_new_files eds" "map ve_deleted_files es = map ve_deleted_files eds"
  shows "edits_ok ucmp key_ok fs es = edits_ok ucmp key_ok fs eds"
proof -
  have len: "length es = length eds" using assms(1) map_eq_imp_length_eq by blast
  define g where "g = (\<lambda>l x S. {f \<in> S. (l, fm_number f) \<notin> set (fst x)} \<union> set (files_at l (snd x)))"
  have lvl: "fold (edit_level l) xs S = fold (g l) (map (\<lambda>e. (ve_deleted_files e, ve_new_files e)) xs) S" for l xs S
    by (induction xs arbitrary: S) (simp_all add: g_def edit_level_def)
  have "map (\<lambda>e. (ve_deleted_files e, ve_new_files e)) xs = zip (map ve_deleted_files xs) (map ve_new_files xs)" for xs
    by (induction xs) simp_all
  note zips = this
  have pairs: "map (\<lambda>e. (ve_deleted_files e, ve_new_files e)) es = map (\<lambda>e. (ve_deleted_files e, ve_new_files e)) eds"
    unfolding zips assms ..
  have "fold (edit_level l) (take k es) S = fold (edit_level l) (take k eds) S" for l k S
    unfolding lvl take_map [symmetric] pairs ..
  moreover have "new_at l es = new_at l eds" for l
    using arg_cong [OF assms(1), of "map (files_at l)"] by (simp add: new_at_def o_def)
  ultimately show ?thesis by (simp add: edits_ok_def len)
qed

lemma fold_pointers:
  "fold (\<lambda>(level, key) p. p(level := key)) xs p l = (case map_of (rev xs) l of None \<Rightarrow> p l | Some k \<Rightarrow> k)"
  by (induction xs rule: rev_induct) auto

lemma edit_pointers_one:
  "edit_pointers [e] p l = (case map_of (rev (ve_compact_pointers e)) l of None \<Rightarrow> p l | Some k \<Rightarrow> k)"
  by (simp add: edit_pointers_def fold_pointers)

lemma edit_pointers_idem: "edit_pointers [e] (edit_pointers [e] p) = edit_pointers [e] p"
  by (rule ext) (simp add: edit_pointers_one split: option.split)

lemma edit_pointers_Cons: "edit_pointers (e # es) p = edit_pointers es (edit_pointers [e] p)"
  by (simp add: edit_pointers_def)

lemma edit_pointers_cong:
  assumes "\<forall>l<n. p l = q l"
  shows "\<forall>l<n. edit_pointers es p l = edit_pointers es q l"
  using assms
proof (induction es arbitrary: p q)
  case (Cons e es)
  have "\<forall>l<n. edit_pointers [e] p l = edit_pointers [e] q l"
    using Cons.prems by (simp add: edit_pointers_one split: option.split)
  from Cons.IH [OF this] show ?case unfolding edit_pointers_Cons [of e es] .
qed (simp add: edit_pointers_def)

lemma snapshot_pointers_restore:
  assumes "l < kNumLevels"
  shows "fold (\<lambda>(level, key) p. p(level := key)) (snapshot_pointers vs) (\<lambda>_. []) l = vs_compact_pointer vs l"
proof -
  have "fold (\<lambda>(level, key) p. p(level := key)) (map (\<lambda>l. (l, P l)) (filter (\<lambda>l. P l \<noteq> []) ls)) q l =
      (if l \<in> set ls \<and> P l \<noteq> [] then P l else q l)" if "distinct ls" for P ls and q :: "nat \<Rightarrow> slice"
    using that by (induction ls arbitrary: q) auto
  then show ?thesis using assms by (simp add: snapshot_pointers_def)
qed

subsection \<open>Recovering\<close>

text \<open>Checking the checksums of the log on the sequential file \<open>h\<close> makes no difference to what the reader returns.\<close>

definition checksums_agree ::
  "(nat \<Rightarrow> 's \<Rightarrow> status \<times> slice \<times> 's) \<Rightarrow> (u64 \<Rightarrow> 's \<Rightarrow> status \<times> 's) \<Rightarrow> 's \<Rightarrow> nat \<times> u64 \<times> u64 \<Rightarrow> nat \<Rightarrow> bool" where
  "checksums_agree read skip h mem n \<longleftrightarrow>
     (let rd = (\<lambda>c. case mem of (store, g1, g2) \<Rightarrow>
            map_option (\<lambda>(recs, b, r). (recs, b, r_reports r))
              (read_records read skip n (make_Reader h True c 0 store g1 g2)))
      in rd True = rd False)"

lemma make_VersionSet_simps:
  "vs_dbname (make_VersionSet db g) = db" "vs_current (make_VersionSet db g) = Version_Ref make_Version"
  "vs_compact_pointer (make_VersionSet db g) = (\<lambda>_. [])"
  by (simp_all add: make_VersionSet_def AppendVersion_def make_Version_def vs_current_def unref_current_def)

lemma MarkFileNumberUsed_fields:
  "vs_versions (MarkFileNumberUsed n vs) = vs_versions vs" "vs_dbname (MarkFileNumberUsed n vs) = vs_dbname vs"
  "vs_compact_pointer (MarkFileNumberUsed n vs) = vs_compact_pointer vs"
  by (simp_all add: MarkFileNumberUsed_def)

lemma finish_recover_ok:
  assumes "rc_status st = None" "rc_next_file st = Some nf" "rc_log_number st = Some lg" "rc_prev_log_number st = Some pl"
    "rc_last_sequence st = Some sq" "Builder_SaveTo ucmp (rc_builder st) make_Version = Some v" "v_refs v = 0"
  shows "\<exists>vs'. finish_recover ucmp st vs = Some (None, vs') \<and> v_files (vs_current vs') = v_files v \<and>
    vs_compact_pointer vs' = rc_pointers st \<and> vs_manifest_file_number vs' = nf \<and> vs_next_file_number vs' = nf + 1 \<and>
    vs_last_sequence vs' = sq \<and> vs_log_number vs' = lg \<and> vs_prev_log_number vs' = pl"
  using assms
  by (simp add: finish_recover_def Let_def ok_def AppendVersion_def MarkFileNumberUsed_fields vs_current_def Version_Ref_def)

lemma vs_sized_pointers:
  assumes "edit_ok e" "vs_sized name vs"
  shows "vs_sized name (vs\<lparr>vs_compact_pointer := edit_pointers [e] (vs_compact_pointer vs)\<rparr>)"
proof -
  have "length (edit_pointers [e] (vs_compact_pointer vs) l) < 2 ^ 32" if "l < kNumLevels" for l
  proof (cases "map_of (rev (ve_compact_pointers e)) l")
    case None
    then show ?thesis using assms(2) that by (simp add: edit_pointers_one vs_sized_def)
  next
    case (Some k)
    then have "(l, k) \<in> set (ve_compact_pointers e)" using map_of_SomeD by fastforce
    then show ?thesis using assms(1) Some by (auto simp: edit_pointers_one edit_ok_def)
  qed
  then show ?thesis using assms(2) by (simp add: vs_sized_def)
qed

lemma Builder_edits_pointers: "snd (Builder_edits ucmp es (b, p)) = edit_pointers es p"
proof (induction es arbitrary: b p)
  case (Cons e es)
  obtain b1 p1 where "Builder_Apply ucmp e (b, p) = (b1, p1)" by fastforce
  moreover from this have "p1 = edit_pointers [e] p" using Apply_snd [of ucmp e b p] by (simp add: edit_pointers_def)
  ultimately show ?case using Cons [of b1 p1] by (simp add: Builder_edits_def edit_pointers_Cons [of e es])
qed (simp add: Builder_edits_def edit_pointers_def)

lemma applied_builder:
  "rc_builder (fold (applied_edit ucmp) es st) = fst (Builder_edits ucmp es (rc_builder st, rc_pointers st))"
  "rc_pointers (fold (applied_edit ucmp) es st) = edit_pointers es (rc_pointers st)"
  using arg_cong [OF fold_applied_builder [of ucmp es st], of fst] arg_cong [OF fold_applied_builder [of ucmp es st], of snd]
  by (simp_all only: fst_conv snd_conv Builder_edits_pointers)

text \<open>The compaction pointers after the snapshot and the edits.\<close>

lemma recovered_pointers:
  assumes "es \<noteq> []"
  shows "\<forall>l<kNumLevels. edit_pointers (snapshot_edit name (vs\<lparr>vs_compact_pointer := edit_pointers [hd es] p\<rparr>) # es) (\<lambda>_. []) l =
    edit_pointers es p l"
proof -
  let ?vs = "vs\<lparr>vs_compact_pointer := edit_pointers [hd es] p\<rparr>"
  have "ve_compact_pointers (snapshot_edit name ?vs) = snapshot_pointers ?vs" by (simp add: snapshot_edit_eq)
  then have "\<forall>l<kNumLevels. edit_pointers [snapshot_edit name ?vs] (\<lambda>_. []) l = edit_pointers [hd es] p l"
    using snapshot_pointers_restore [of _ ?vs] by (simp add: edit_pointers_def)
  note 1 = edit_pointers_cong [OF this, of es]
  have "es = hd es # tl es" using assms by simp
  then have "edit_pointers es (edit_pointers [hd es] p) = edit_pointers es p"
    using edit_pointers_Cons [of "hd es" "tl es"] by (metis edit_pointers_idem)
  then show ?thesis using 1 unfolding edit_pointers_Cons [of "snapshot_edit name ?vs" es] by simp
qed

lemma recover_loop_edits:
  assumes "read_records (eo_Read E) (eo_Skip E) n r = Some (map edit_bytes es, True, r')" "r_reports r' = r_reports r"
    and "rc_status st = None" "\<forall>e\<in>set es. edit_ok e \<and> (ve_has_comparator e \<longrightarrow> ve_comparator e = name)"
  shows "recover_loop ucmp name E (st, r) = Some (fold (applied_edit ucmp) es st)"
proof -
  have pre: "fold (recover_record ucmp name) (take k (map edit_bytes es)) st = fold (applied_edit ucmp) (take k es) st" for k
    unfolding take_map by (rule fold_recover_edits) (use assms(4) in \<open>auto dest: in_set_takeD\<close>)
  have "recover_loop ucmp name E (st, r) = Some (fold (recover_record ucmp name) (map edit_bytes es) st)"
    by (rule recover_loop_records [OF assms(1-3)]) (simp add: pre fold_applied_status assms(3))
  then show ?thesis using fold_recover_edits [OF assms(4)] by simp
qed

definition call_ok :: "slice \<Rightarrow> log_call \<Rightarrow> bool" where
  "call_ok name c \<longleftrightarrow> edit_ok (call_edit c) \<and> (ve_has_comparator (call_edit c) \<longrightarrow> ve_comparator (call_edit c) = name)"

lemma completed_edits:
  assumes "list_all2 (\<lambda>c e. \<exists>vs. complete_edit (call_edit c) vs = Some e) calls es" "\<forall>c\<in>set calls. call_ok name c"
  shows "(\<forall>e\<in>set es. edit_ok e \<and> (ve_has_comparator e \<longrightarrow> ve_comparator e = name)) \<and>
    map ve_new_files es = map ve_new_files (map call_edit calls) \<and>
    map ve_deleted_files es = map ve_deleted_files (map call_edit calls)"
  using assms
proof (induction rule: list_all2_induct)
  case (Cons c calls e es)
  then obtain vs where ce: "complete_edit (call_edit c) vs = Some e" by blast
  have ok: "call_ok name c" "\<forall>c\<in>set calls. call_ok name c" using Cons.prems by simp_all
  show ?case
    using complete_edit_fields(1) [OF ce] complete_edit_fields(2) [OF ce] ok(1) Cons.IH [OF ok(2)] by (simp add: call_ok_def)
qed simp

lemma fold_edit_level_subset: "fold (edit_level l) es S \<subseteq> S \<union> set (new_at l es)"
proof (induction es arbitrary: S)
  case (Cons e es)
  have "edit_level l e S \<subseteq> S \<union> set (files_at l (ve_new_files e))" by (auto simp: edit_level_def)
  then show ?case using Cons [of "edit_level l e S"] by (auto simp: new_at_def)
qed (simp add: new_at_def)

text \<open>\<^verbatim>\<open>Recover\<close> on a new version set, from what the files hold.\<close>

lemma recover_from_records:
  assumes cur: "ReadFileToString E (CurrentFileName db) e = Some (None, (str ''MANIFEST-'' @ pad6 m) @ [10])"
    and h: "eo_NewSequentialFile E (DescriptorFileName db m) e = (None, Some h)"
    and rd: "read_records (eo_Read E) (eo_Skip E) n (make_Reader h True True 0 store g1 g2) = Some (map edit_bytes es, True, r')"
      "r_reports r' = []"
    and all: "\<forall>e\<in>set es. edit_ok e \<and> (ve_has_comparator e \<longrightarrow> ve_comparator e = name)" and last: "es \<noteq> []" "complete (last es)"
    and v: "Builder_SaveTo ucmp (fst (Builder_edits ucmp es (make_Builder (Version_Ref make_Version), \<lambda>_. []))) make_Version = Some v"
      "v_refs v = 0"
  shows "\<exists>vs'. VersionSet_Recover ucmp name E (store, g1, g2) e (make_VersionSet db g) = Some (None, vs') \<and>
    v_files (vs_current vs') = v_files v \<and> vs_compact_pointer vs' = edit_pointers es (\<lambda>_. []) \<and>
    vs_manifest_file_number vs' = ve_next_file_number (last es) \<and> vs_next_file_number vs' = ve_next_file_number (last es) + 1 \<and>
    vs_last_sequence vs' = ve_last_sequence (last es) \<and> vs_log_number vs' = ve_log_number (last es) \<and>
    vs_prev_log_number vs' = ve_prev_log_number (last es)"
proof -
  let ?st = "\<lparr>rc_status = None, rc_builder = make_Builder (Version_Ref make_Version), rc_pointers = \<lambda>_. [], rc_log_number = None,
    rc_prev_log_number = None, rc_next_file = None, rc_last_sequence = None\<rparr>"
  let ?st' = "fold (applied_edit ucmp) es ?st"
  have loop: "recover_loop ucmp name E (?st, make_Reader h True True 0 store g1 g2) = Some ?st'"
    by (rule recover_loop_edits [OF rd(1) _ _ all]) (simp_all add: rd(2) make_Reader_def)
  have ap: "rc_builder ?st' = fst (Builder_edits ucmp es (make_Builder (Version_Ref make_Version), \<lambda>_. []))"
      "rc_pointers ?st' = edit_pointers es (\<lambda>_. [])"
    by (simp_all only: applied_builder recover_state.simps)
  note st = fold_applied_numbers [OF last(2,1), of ucmp ?st]
  have "rc_status ?st' = None" by (rule fold_applied_status) simp
  note fin = finish_recover_ok [OF this st [THEN conjunct2, THEN conjunct2, THEN conjunct1] st [THEN conjunct1]
      st [THEN conjunct2, THEN conjunct1] st [THEN conjunct2, THEN conjunct2, THEN conjunct2] v(1) [folded ap(1)] v(2),
      of "make_VersionSet db g"]
  have nm: "db @ str ''/'' @ butlast ((str ''MANIFEST-'' @ pad6 m) @ [10]) = DescriptorFileName db m"
    unfolding butlast_snoc by (simp add: DescriptorFileName_def str_simps)
  have "VersionSet_Recover ucmp name E (store, g1, g2) e (make_VersionSet db g) = finish_recover ucmp ?st' (make_VersionSet db g)"
    unfolding VersionSet_Recover_def make_VersionSet_simps cur option.case prod.case nm h Let_def
    using loop by (simp add: ok_def)
  with fin ap(2) show ?thesis by simp
qed

text \<open>When the checksums of a log agree: records that fit in one block, each with the checksum that the reader
  computes where it finds the payload.\<close>

definition full_records :: "(nat \<times> slice) list \<Rightarrow> slice" where
  "full_records rs = concat (map (\<lambda>(a, p). record_header a kFullType p @ p) rs)"

fun crcs_match :: "nat \<Rightarrow> (nat \<times> slice) list \<Rightarrow> bool" where
  "crcs_match addr [] = True"
| "crcs_match addr ((a, p) # rs) \<longleftrightarrow>
     Value (addr + 6) (record_byte kFullType # p) = Extend a (type_crc kFullType) p \<and> crcs_match (addr + 7 + length p) rs"

lemma full_records_layout:
  assumes "off + length (full_records rs) \<le> log_kBlockSize"
  shows "records_layout off rs = full_records rs"
  using assms
proof (induction rs arbitrary: off)
  case (Cons x rs)
  obtain a p where x: "x = (a, p)" by (cases x)
  have l: "off + 7 + length p + length (full_records rs) \<le> log_kBlockSize" using Cons.prems by (simp add: full_records_def x)
  then have "record_start off = off" "trailer off = []" by (auto simp: record_start_def trailer_def kHeaderSize_def)
  moreover have "fragments a off True p = [(a, kFullType, p)]"
    using l \<open>record_start off = off\<close> by (subst fragments.simps) (simp add: room_def fragment_type_def kHeaderSize_def)
  ultimately show ?case
    using Cons.IH [of "off + 7 + length p"] l by (simp add: x kHeaderSize_def) (simp add: full_records_def)
qed (simp add: full_records_def)

lemma parse_full:
  assumes "r_buffer r = record_header a kFullType p @ p @ b" "length p < 65536" "r_initial_offset r = 0"
    and "r_checksum r \<longrightarrow> Value (r_buffer_addr r + 6) (record_byte kFullType # p) = Extend a (type_crc kFullType) p"
  shows "parse_record result r = (1, p, r\<lparr>r_buffer := b, r_buffer_addr := r_buffer_addr r + 7 + length p\<rparr>)"
proof -
  let ?h = "record_header a kFullType p @ p @ b"
  note hf = header_fields [OF assms(2), of a kFullType "p @ b"]
  have crc: "DecodeFixed32 ?h = Mask (Extend a (type_crc kFullType) p)"
    by (simp add: record_header_def Let_def)
  have body: "drop 6 ?h = record_byte kFullType # p @ b" by (simp add: record_header_def Let_def)
  show ?thesis
    unfolding parse_record_def Let_def assms(1) hf(1) hf(2) crc body
    using assms(3,4) by (auto simp: kHeaderSize_def Unmask_Mask)
qed

lemma ReadRecord_full:
  assumes "ReadPhysicalRecord read [] r = (1, p, r')" "r_initial_offset r = 0"
  shows "ReadRecord read skip r = Some (True, p, [], r'\<lparr>r_last_record_offset := r_end_of_buffer_offset r - buffer_size r\<rparr>)"
  using assms by (simp add: ReadRecord_def read_record_loop.simps)

lemma read_full_records:
  assumes "r_initial_offset r = 0" "r_initial_offset r1 = 0" "\<And>res. ReadPhysicalRecord read res r = ReadPhysicalRecord read res r1"
    and "r_buffer r1 = full_records rs" "r_eof r1" "\<forall>(a, p)\<in>set rs. length p < 65536"
    and "r_checksum r1 \<longrightarrow> crcs_match (r_buffer_addr r1) rs"
  shows "\<exists>r'. read_records read skip (Suc (length rs)) r = Some (map snd rs, True, r') \<and> r_reports r' = r_reports r1"
  using assms
proof (induction rs arbitrary: r r1)
  case Nil
  then have "ReadPhysicalRecord read [] r = (kEof, [], r1)"
    by (simp add: ReadPhysicalRecord_def end_of_file_def full_records_def kHeaderSize_def)
  then show ?case using Nil.prems(1) by (simp add: ReadRecord_def read_record_loop.simps kEof_def)
next
  case (Cons x rs)
  obtain a p where x: "x = (a, p)" by (cases x)
  have b: "r_buffer r1 = record_header a kFullType p @ p @ full_records rs" using Cons.prems(4) by (simp add: x full_records_def)
  define r2 where "r2 = r1\<lparr>r_buffer := full_records rs, r_buffer_addr := r_buffer_addr r1 + 7 + length p\<rparr>"
  define r3 where "r3 = r2\<lparr>r_last_record_offset := r_end_of_buffer_offset r - buffer_size r\<rparr>"
  have "parse_record [] r1 = (1, p, r2)"
    unfolding r2_def by (rule parse_full [OF b]) (use Cons.prems x in auto)
  then have "ReadPhysicalRecord read [] r = (1, p, r2)"
    using b unfolding Cons.prems(3) by (simp add: ReadPhysicalRecord_def kHeaderSize_def)
  note rr = ReadRecord_full [OF this Cons.prems(1), of skip, folded r3_def]
  have "\<exists>r'. read_records read skip (Suc (length rs)) r3 = Some (map snd rs, True, r') \<and> r_reports r' = r_reports r3"
    by (rule Cons.IH) (use Cons.prems x in \<open>auto simp: r3_def r2_def\<close>)
  then show ?case using rr by (auto simp: x r3_def r2_def)
qed

context env
begin

lemma destroy_holds:
  assumes "descriptor_holds files opened healthy vs e rs"
  defines "d \<equiv> DescriptorFileName (vs_dbname vs) (vs_manifest_file_number vs)" and "e' \<equiv> VersionSet_destroy E vs e"
  shows "ReadFileToString E (CurrentFileName (vs_dbname vs)) e' =
      Some (None, str ''MANIFEST-'' @ pad6 (vs_manifest_file_number vs) @ [10]) \<and>
    (\<exists>h. eo_NewSequentialFile E d e' = (None, Some h) \<and> rest h = records_layout 0 rs \<and> seq_ok h)"
proof -
  note h = assms(1) [unfolded descriptor_holds_def Let_def, folded d_def]
  have e': "e' = eo_destroy E d e" using h by (simp add: e'_def VersionSet_destroy_def)
  have "healthy e" using h by blast
  note x = destroy [OF this, of d, folded e']
  have "ReadFileToString E (CurrentFileName (vs_dbname vs)) e' =
      Some (None, str ''MANIFEST-'' @ pad6 (vs_manifest_file_number vs) @ [10])"
    by (rule read_file) (use x h in auto)
  moreover have "\<exists>h. eo_NewSequentialFile E d e' = (None, Some h) \<and> rest h = records_layout 0 rs \<and> seq_ok h"
    by (rule open_sequential) (use x h in auto)
  ultimately show ?thesis by blast
qed

lemma checksums_match:
  assumes "seq_ok h" "rest h = records_layout 0 rs" "rs \<noteq> []" "length (full_records rs) < log_kBlockSize" "crcs_match store rs"
  shows "checksums_agree (eo_Read E) (eo_Skip E) h (store, g1, g2) (Suc (length rs))"
proof -
  have rest: "rest h = full_records rs" using assms(2) full_records_layout [of 0 rs] assms(4) by simp
  have len: "\<forall>(a, p)\<in>set rs. length p < 65536"
  proof clarify
    fix a p
    assume "(a, p) \<in> set rs"
    then have "length (record_header a kFullType p @ p) \<le> length (full_records rs)"
      unfolding full_records_def length_concat by (intro member_le_sum_list) (force, simp)
    then show "length p < 65536" using assms(4) by (simp add: log_kBlockSize_def)
  qed
  obtain s buf h' where rd: "eo_Read E log_kBlockSize h = (s, buf, h')" by (cases "eo_Read E log_kBlockSize h")
  have buf: "s = None" "buf = full_records rs" using read [OF assms(1) rd] rest assms(4) by simp_all
  have seven: "7 \<le> length (full_records rs)" using assms(3) by (cases rs) (auto simp: full_records_def)
  have "\<exists>r'. read_records (eo_Read E) (eo_Skip E) (Suc (length rs)) (make_Reader h True c 0 store g1 g2) = Some (map snd rs, True, r') \<and>
      r_reports r' = []" for c
  proof -
    let ?r = "make_Reader h True c 0 store g1 g2"
    let ?r1 = "?r\<lparr>r_file := h', r_buffer := full_records rs, r_buffer_addr := store,
      r_end_of_buffer_offset := r_end_of_buffer_offset ?r + word_of_nat (length (full_records rs)), r_eof := True\<rparr>"
    have "ReadPhysicalRecord (eo_Read E) res ?r = ReadPhysicalRecord (eo_Read E) res ?r1" for res
      using seven assms(4) by (simp add: ReadPhysicalRecord_def make_Reader_def rd buf ok_def kHeaderSize_def)
    from read_full_records [OF _ _ this, of rs "eo_Skip E"]
    show ?thesis using len assms(5) by (simp add: make_Reader_def)
  qed
  then show ?thesis unfolding checksums_agree_def Let_def prod.case by (metis (no_types, lifting) option.map(2) prod.case)
qed

lemma read_closed:
  assumes "seq_ok h" "rest h = records_layout 0 rs" "checksums_agree (eo_Read E) (eo_Skip E) h (store, g1, g2) (Suc (length rs))"
  shows "\<exists>r'. read_records (eo_Read E) (eo_Skip E) (Suc (length rs)) (make_Reader h True True 0 store g1 g2) = Some (map snd rs, True, r') \<and>
    r_reports r' = []"
proof -
  have "seq.at (make_Reader h True False 0 store g1 g2) log_kBlockSize (records_layout log_kBlockSize rs)"
    using seq.make_Reader_at [OF assms(1), of True store g1 g2] assms(2) by (simp add: records_layout_block_end)
  from seq.read_records_at [OF this order_refl, of "eo_Skip E"]
  obtain r where "read_records (eo_Read E) (eo_Skip E) (Suc (length rs)) (make_Reader h True False 0 store g1 g2) = Some (map snd rs, True, r)"
      "r_reports r = []"
    by (auto simp: make_Reader_def)
  then show ?thesis using assms(3) unfolding checksums_agree_def Let_def prod.case by auto
qed

end

locale descriptor_log = env E files opened healthy rest seq_ok +
    user_comparator Compare key_ok FindShortestSeparator FindShortSuccessor
  for E :: "('e, 's) env_ops" and files opened healthy rest seq_ok
    and Compare key_ok FindShortestSeparator FindShortSuccessor
begin

lemma snapshot_edits_ok:
  assumes "edits_ok Compare key_ok (v_files (vs_current vs)) es"
    and "\<forall>l<kNumLevels. \<forall>f\<in>set (v_files (vs_current vs) l). fresh_file f" "vs_current vs' = vs_current vs"
  shows "edits_ok Compare key_ok (\<lambda>_. []) (snapshot_edit name vs' # es)"
    and "l < kNumLevels \<Longrightarrow> fold (edit_level l) (snapshot_edit name vs' # es) {} = fold (edit_level l) es (set (v_files (vs_current vs) l))"
proof -
  have at: "files_at l (ve_new_files (snapshot_edit name vs')) = v_files (vs_current vs) l" if "l < kNumLevels" for l
    using snapshot_files_at [of l vs' name] assms(2,3) that by simp
  then have lvl: "edit_level l (snapshot_edit name vs') {} = set (v_files (vs_current vs) l)" if "l < kNumLevels" for l
    using that by (simp add: edit_level_def)
  have new: "new_at l (snapshot_edit name vs' # es) = v_files (vs_current vs) l @ new_at l es" if "l < kNumLevels" for l
    using at [OF that] by (simp add: new_at_def)
  show "fold (edit_level l) (snapshot_edit name vs' # es) {} = fold (edit_level l) es (set (v_files (vs_current vs) l))"
    if "l < kNumLevels"
    using lvl [OF that] by simp
  have dis: "disjoint_files Compare (fold (edit_level l) (take k (snapshot_edit name vs' # es)) {})"
    if "0 < l" "l < kNumLevels" "k \<le> Suc (length es)" for l k
  proof (cases k)
    case (Suc k')
    then show ?thesis using assms(1) that lvl [OF that(2)] by (simp add: edits_ok_def)
  qed (simp add: disjoint_files_def)
  show "edits_ok Compare key_ok (\<lambda>_. []) (snapshot_edit name vs' # es)"
    using assms(1) dis new unfolding edits_ok_def by simp
qed

lemma replay_files:
  assumes es: "edits_ok Compare key_ok (v_files (vs_current vs)) es"
    and fresh: "\<forall>l<kNumLevels. \<forall>f\<in>set (v_files (vs_current vs) l). fresh_file f" and cur: "vs_current vs' = vs_current vs"
    and w: "version_chain Compare (vs_current vs) es = Some w" and base: "v_files base = (\<lambda>_. [])"
  shows "\<exists>v. Builder_SaveTo Compare (fst (Builder_edits Compare (snapshot_edit name vs' # es) (make_Builder base, cp))) make_Version = Some v \<and>
    v_refs v = 0 \<and> (\<forall>l<kNumLevels. v_files v l = v_files w l)"
proof -
  have "edits_ok Compare key_ok (v_files base) (snapshot_edit name vs' # es)"
    using snapshot_edits_ok(1) [OF es fresh cur] by (simp add: base)
  from builder_save [OF this, of cp] obtain v where
    v: "Builder_SaveTo Compare (fst (Builder_edits Compare (snapshot_edit name vs' # es) (make_Builder base, cp))) make_Version = Some v"
      "v = make_Version\<lparr>v_files := v_files v\<rparr>"
    and fs: "\<forall>l<kNumLevels. set (v_files v l) = fold (edit_level l) (snapshot_edit name vs' # es) (set (v_files base l)) \<and>
      sorted_wrt before (v_files v l)"
    by blast
  have u: "\<forall>l<kNumLevels. set (v_files w l) = fold (edit_level l) es (set (v_files (vs_current vs) l)) \<and> sorted_wrt before (v_files w l)"
    using chain_correct [OF es] w by simp
  have "v_files v l = v_files w l" if l: "l < kNumLevels" for l
  proof (rule sorted_files_unique)
    show "set (v_files v l) = set (v_files w l)"
      using fs u l snapshot_edits_ok(2) [OF es fresh cur l] by (simp add: base)
    show "sorted_wrt before (v_files v l)" "sorted_wrt before (v_files w l)" using fs u l by simp_all
    have "set (v_files w l) \<subseteq> set (v_files (vs_current vs) l) \<union> set (new_at l es)"
      using u l fold_edit_level_subset [of l es "set (v_files (vs_current vs) l)"] by simp
    then show "files_ok (set (v_files v l))"
      using es l \<open>set (v_files v l) = set (v_files w l)\<close> unfolding edits_ok_def by blast
  qed
  moreover have "v_refs v = 0" by (subst v(2)) (simp add: make_Version_def)
  ultimately show ?thesis using v(1) by blast
qed

lemma recover_logged:
  assumes init: "healthy e0" "CurrentFileName (vs_dbname vs0) \<notin> opened e0" "vs_descriptor vs0 = None"
    and fresh: "\<forall>l<kNumLevels. \<forall>f\<in>set (v_files (vs_current vs0) l). fresh_file f" and sized: "vs_sized name vs0"
    and log: "log_edits Compare name E calls vs0 e0 = Some (es, vs, e)" "calls \<noteq> []"
    and wf: "\<forall>c\<in>set calls. call_ok name c"
    and ok: "edits_ok Compare key_ok (v_files (vs_current vs0)) (map call_edit calls)"
    and crc: "\<And>h. eo_NewSequentialFile E (DescriptorFileName (vs_dbname vs0) (vs_manifest_file_number vs0)) (VersionSet_destroy E vs e) =
      (None, Some h) \<Longrightarrow> checksums_agree (eo_Read E) (eo_Skip E) h mem (length calls + 2)"
  shows "\<exists>vs'. VersionSet_Recover Compare name E mem (VersionSet_destroy E vs e) (make_VersionSet (vs_dbname vs0) g) = Some (None, vs') \<and>
    (\<forall>l<kNumLevels. v_files (vs_current vs') l = v_files (vs_current vs) l \<and>
       vs_compact_pointer vs' l = vs_compact_pointer vs l) \<and>
    vs_manifest_file_number vs' = vs_next_file_number vs \<and> vs_next_file_number vs' = vs_next_file_number vs + 1 \<and>
    vs_last_sequence vs' = vs_last_sequence vs \<and> vs_log_number vs' = vs_log_number vs \<and>
    vs_prev_log_number vs' = vs_prev_log_number vs"
proof -
  let ?d = "DescriptorFileName (vs_dbname vs0) (vs_manifest_file_number vs0)" and ?e = "VersionSet_destroy E vs e"
  let ?vs1 = "vs0\<lparr>vs_compact_pointer := edit_pointers [hd es] (vs_compact_pointer vs0)\<rparr>"
  let ?snap = "snapshot_edit name ?vs1"
  note f = log_edits_fields [OF log(1)]
  note cp = f [THEN conjunct2, THEN conjunct2, THEN conjunct2, THEN conjunct1]
  note l2 = f [THEN conjunct2, THEN conjunct2, THEN conjunct2, THEN conjunct2, THEN conjunct1]
  note nums = f [THEN conjunct2, THEN conjunct2, THEN conjunct2, THEN conjunct2, THEN conjunct2, rule_format]
  note names = f [THEN conjunct2, THEN conjunct1] f [THEN conjunct2, THEN conjunct2, THEN conjunct1]
  have len: "length es = length calls" by (rule list_all2_lengthD [OF l2, symmetric])
  then have ne: "es \<noteq> []" using log(2) by auto
  note each = completed_edits [OF l2 wf]
  have okes: "edits_ok Compare key_ok (v_files (vs_current vs0)) es"
    by (rule edits_ok_files [THEN iffD2, OF each [THEN conjunct2, THEN conjunct1] each [THEN conjunct2, THEN conjunct2] ok])
  obtain w where w: "version_chain Compare (vs_current vs0) es = Some w" "v_files (vs_current vs) = v_files w"
    using f [THEN conjunct1] by blast
  obtain a addrs where addrs: "length addrs = length es"
    and d: "descriptor_holds files opened healthy vs e ((a, edit_bytes ?snap) # zip addrs (map edit_bytes es))"
    using log_edits_holds [OF init log(2,1)] by blast
  let ?rs = "(a, edit_bytes ?snap) # zip addrs (map edit_bytes es)"
  have rs: "map snd ?rs = map edit_bytes (?snap # es)" "length ?rs = Suc (length calls)" using addrs len by simp_all
  note x = destroy_holds [OF d, unfolded names]
  obtain h where h: "eo_NewSequentialFile E ?d ?e = (None, Some h)" "rest h = records_layout 0 ?rs" "seq_ok h" using x by blast
  obtain store g1 g2 where mem: "mem = (store, g1, g2)" by (cases mem)
  have "checksums_agree (eo_Read E) (eo_Skip E) h (store, g1, g2) (Suc (length ?rs))" using crc [OF h(1)] rs(2) mem by simp
  from read_closed [OF h(3,2) this] obtain r' where
    r': "read_records (eo_Read E) (eo_Skip E) (Suc (length ?rs)) (make_Reader h True True 0 store g1 g2) = Some (map edit_bytes (?snap # es), True, r')"
      "r_reports r' = []"
    unfolding rs(1) by blast
  have snap: "edit_ok ?snap" "ve_comparator ?snap = name"
    using snapshot_edit_ok [OF vs_sized_pointers [OF _ sized]] each ne by (auto simp: snapshot_edit_eq)
  have all: "\<forall>e\<in>set (?snap # es). edit_ok e \<and> (ve_has_comparator e \<longrightarrow> ve_comparator e = name)" using each snap by simp
  have "v_files (Version_Ref make_Version) = (\<lambda>_. [])" by (simp add: Version_Ref_def make_Version_def)
  from replay_files [OF okes fresh _ w(1) this, of ?vs1 name "\<lambda>_. []"]
  obtain v where v: "Builder_SaveTo Compare (fst (Builder_edits Compare (?snap # es) (make_Builder (Version_Ref make_Version), \<lambda>_. []))) make_Version = Some v"
    "v_refs v = 0" "\<forall>l<kNumLevels. v_files v l = v_files w l"
    by (simp only: vs_current_update) blast
  have last: "?snap # es \<noteq> []" "complete (last (?snap # es))" "last (?snap # es) = last es" using nums ne by simp_all
  have cur: "ReadFileToString E (CurrentFileName (vs_dbname vs0)) ?e =
      Some (None, (str ''MANIFEST-'' @ pad6 (vs_manifest_file_number vs0)) @ [10])"
    using x by simp
  note rec = recover_from_records [OF cur h(1) r' all last(1,2) v(1,2), unfolded last(3), of g]
  have ptr: "\<forall>l<kNumLevels. edit_pointers (?snap # es) (\<lambda>_. []) l = vs_compact_pointer vs l"
    using recovered_pointers [OF ne, where name = name and vs = vs0 and p = "vs_compact_pointer vs0"] cp by (simp only:)
  from rec show ?thesis unfolding mem using v(3) w(2) ptr nums [OF ne] by auto
qed

text \<open>A call on a version set with no descriptor returns OK.\<close>

lemma LogAndApply_returns:
  assumes "healthy e" "CurrentFileName (vs_dbname vs) \<notin> opened e" "vs_descriptor vs = None" "vs_manifest_file_number vs \<noteq> 0"
    and ed: "complete_edit edit vs = Some ed" and ok: "edits_ok Compare key_ok (v_files (vs_current vs)) [ed]"
  shows "\<exists>vs' e'. LogAndApply Compare name E a1 a2 edit vs e = Some (None, ed, vs', e')"
proof -
  obtain b p where bp: "Builder_Apply Compare ed (make_Builder (vs_current vs), vs_compact_pointer vs) = (b, p)" by fastforce
  have "\<exists>v. Builder_SaveTo Compare b make_Version = Some v \<and> v = make_Version\<lparr>v_files := v_files v\<rparr>"
    using builder_save [OF ok, of "vs_compact_pointer vs"] by (auto simp: Builder_edits_def bp)
  then obtain v where v: "Builder_SaveTo Compare b make_Version = Some v" "v = make_Version\<lparr>v_files := v_files v\<rparr>" by blast
  let ?vs = "vs\<lparr>vs_compact_pointer := p\<rparr>"
  obtain s1 nm vs1 e1 where o: "open_descriptor name E a1 ?vs e = (s1, nm, vs1, e1)" by (cases "open_descriptor name E a1 ?vs e")
  note h1 = open_descriptor_holds [OF assms(1) _ o, simplified, OF assms(3)]
  obtain s2 vs2 e2 where w: "write_edit E a2 ed vs1 e1 = (s2, vs2, e2)" by (cases "write_edit E a2 ed vs1 e1")
  let ?d = "DescriptorFileName (vs_dbname vs) (vs_manifest_file_number vs)"
  let ?rs = "[(a1, edit_bytes (snapshot_edit name ?vs))]"
  have "s2 = None \<and> healthy e2 \<and> opened e2 = opened e1 \<and> files e2 = (files e1)(?d \<mapsto> records_layout 0 (?rs @ [(a2, edit_bytes ed)])) \<and>
    vs_descriptor vs2 = Some (?d, records_end 0 (?rs @ [(a2, edit_bytes ed)]))"
    by (rule write_edit_holds [OF _ _ _ _ w]) (use h1 in auto)
  note h2 = this
  have f: "vs_dbname vs2 = vs_dbname vs" "vs_manifest_file_number vs2 = vs_manifest_file_number vs"
    by (subst write_edit_fields [OF w], subst open_descriptor_fields [OF o], simp)+
  obtain s3 e3 where c: "SetCurrentFile E (vs_dbname vs) (vs_manifest_file_number vs) e2 = (s3, e3)" by fastforce
  have "healthy e2" "CurrentFileName (vs_dbname vs) \<notin> opened e2"
    using h1 h2 assms(2) names_differ(3) [of "vs_dbname vs" "vs_manifest_file_number vs"] by auto
  note sc = set_current [OF this c]
  have "v_refs (Finalize v) = 0" by (subst v(2)) (simp add: make_Version_def)
  then have ap: "\<exists>vs3. AppendVersion (Finalize v) vs2 = Some vs3" by (simp add: AppendVersion_def)
  show ?thesis
    unfolding LogAndApply_def ed option.case bp prod.case Let_def v(1) o
    using assms(3,4) h1 h2 w f c sc ap DescriptorFileName_not_Nil by (auto simp: ok_def)
qed

end

interpretation posix_log: descriptor_log "posix_ops reliable_os all_calls err" posix_files posix_opened posix_healthy
  "\<lambda>p. fl_rest (ps_file p)" "\<lambda>p. \<not> fl_fails (ps_file p)" Bytewise_Compare "\<lambda>_. True" Bytewise_FindShortestSeparator
  Bytewise_FindShortSuccessor
  by unfold_locales


text \<open>A manifest of two records, written at address 0 and 3 and read into a buffer at 1.\<close>

definition sample_set :: VersionSet where
  "sample_set = (make_VersionSet (str ''d'') 0)\<lparr>vs_manifest_file_number := 2\<rparr>"

definition sample_add :: VersionEdit where
  "sample_add = AddFile 2 9 100 (entry_key sample_new) (entry_key sample_new) make_VersionEdit"

definition sample_logged :: VersionEdit where
  "sample_logged = SetLastSequence 5 (SetNextFile 3 (SetPrevLogNumber 0 (SetLogNumber 0 sample_add)))"

definition sample_name :: slice where
  "sample_name = str ''leveldb.BytewiseComparator''"

lemma sample_complete: "complete_edit sample_add (sample_set\<lparr>vs_next_file_number := 3, vs_last_sequence := 5\<rparr>) = Some sample_logged"
  by (simp add: complete_edit_def sample_add_def sample_logged_def sample_set_def make_VersionSet_def AppendVersion_def make_Version_def
      AddFile_def make_VersionEdit_def SetLogNumber_def SetPrevLogNumber_def)

lemma sample_set_simps:
  "vs_dbname sample_set = str ''d''" "v_files (vs_current sample_set) = (\<lambda>_. [])" "vs_compact_pointer sample_set = (\<lambda>_. [])"
  "vs_descriptor sample_set = None" "vs_manifest_file_number sample_set = 2"
  by (simp_all add: sample_set_def make_VersionSet_def AppendVersion_def make_Version_def vs_current_def unref_current_def Version_Ref_def)

lemma sample_snapshot:
  "edit_bytes (snapshot_edit sample_name (vs\<lparr>vs_compact_pointer := \<lambda>_. []\<rparr>)) = [1, 26] @ sample_name"
  if "v_files (vs_current vs) = (\<lambda>_. [])"
proof -
  have "snapshot_edit sample_name (vs\<lparr>vs_compact_pointer := \<lambda>_. []\<rparr>) = SetComparatorName sample_name make_VersionEdit"
    by (simp add: snapshot_edit_def that kNumLevels_def upt_rec)
  then show ?thesis by simp code_simp
qed

lemma sample_logged_bytes: "edit_bytes sample_logged =
    [2, 0, 9, 0, 3, 3, 4, 5, 7, 2, 9, 100, 9, 107, 0, 9, 0, 0, 0, 0, 0, 0, 9, 107, 0, 9, 0, 0, 0, 0, 0, 0]"
  by code_simp

lemma sample_crcs: "crcs_match 1 [(0, [1, 26] @ sample_name), (3, edit_bytes sample_logged)]"
  unfolding sample_logged_bytes by code_simp

lemma sample_length: "length (full_records [(0, [1, 26] @ sample_name), (3, edit_bytes sample_logged)]) < log_kBlockSize"
  unfolding sample_logged_bytes by (simp add: full_records_def sample_name_def log_kBlockSize_def str_simps)

abbreviation sample_ops :: "(nat PosixEnv, PosixSequentialFile) env_ops" where
  "sample_ops \<equiv> posix_ops reliable_os all_calls []"

abbreviation sample_env :: "nat PosixEnv" where
  "sample_env \<equiv> make_PosixEnv 4096 Map.empty {}"

lemma sample_env_ok: "posix_healthy sample_env" "posix_opened sample_env = {}"
  by (simp_all add: posix_healthy_def posix_opened_def make_PosixEnv_def)

lemma sample_add_ok: "edits_ok Bytewise_Compare (\<lambda>_. True) (\<lambda>_. []) [sample_add]"
proof -
  have ok: "file_ok Bytewise_Compare (\<lambda>_. True) (added_file (make_FileMetaData n s (entry_key sample_new) (entry_key sample_new)))" for n s
    using sample_keys by (simp add: file_ok_def make_FileMetaData_def added_file_def)
  have one: "disjoint_files Bytewise_Compare S" if "S \<subseteq> {f}" "file_ok Bytewise_Compare (\<lambda>_. True) f" for S f
    using that icmp.before_irrefl [OF that(2)] by (auto simp: disjoint_files_def)
  note defs = new_at_def files_at_def sample_add_def AddFile_def make_VersionEdit_def
  show ?thesis
    unfolding edits_ok_def
  proof (intro allI impI conjI)
    fix l k :: nat
    assume "0 < l" "k \<le> length [sample_add]"
    have "fold (edit_level l) (take k [sample_add]) (set []) \<subseteq>
        {added_file (make_FileMetaData 9 100 (entry_key sample_new) (entry_key sample_new))}"
      using \<open>k \<le> _\<close> by (auto simp: le_Suc_eq edit_level_def defs split: if_splits)
    then show "disjoint_files Bytewise_Compare (fold (edit_level l) (take k [sample_add]) (set []))" by (rule one) (simp add: ok)
  qed (auto simp: defs ok)
qed

lemma sample_logs:
  obtains vs e where "log_edits Bytewise_Compare sample_name sample_ops [(3, 5, 0, 3, sample_add)] sample_set sample_env = Some ([sample_logged], vs, e)"
    "LogAndApply Bytewise_Compare sample_name sample_ops 0 3 sample_add (sample_set\<lparr>vs_next_file_number := 3, vs_last_sequence := 5\<rparr>) sample_env =
       Some (None, sample_logged, vs, e)"
proof -
  let ?vs = "sample_set\<lparr>vs_next_file_number := 3, vs_last_sequence := 5\<rparr>"
  have "edits_ok Bytewise_Compare (\<lambda>_. True) (v_files (vs_current ?vs)) [sample_logged]"
    using sample_add_ok edits_ok_files [of "[sample_logged]" "[sample_add]"] complete_edit_fields(1) [OF sample_complete]
    by (simp add: sample_set_simps)
  from posix_log.LogAndApply_returns [OF sample_env_ok(1) _ _ _ sample_complete this, of sample_name "[]" 0 3]
  obtain vs e where l: "LogAndApply Bytewise_Compare sample_name sample_ops 0 3 sample_add ?vs sample_env = Some (None, sample_logged, vs, e)"
    by (auto simp: sample_set_simps sample_env_ok)
  then show thesis using that by (simp add: ok_def)
qed

lemma sample_checksums:
  assumes l: "LogAndApply Bytewise_Compare sample_name sample_ops 0 3 sample_add (sample_set\<lparr>vs_next_file_number := 3, vs_last_sequence := 5\<rparr>)
      sample_env = Some (None, sample_logged, vs, e)"
    and h: "PosixEnv_NewSequentialFile all_calls [] (DescriptorFileName (str ''d'') 2) (VersionSet_destroy sample_ops vs e) = (None, Some h)"
    and vs: "vs_dbname vs = str ''d''" "vs_manifest_file_number vs = 2"
  shows "checksums_agree (PosixSequentialFile_Read []) (PosixSequentialFile_Skip []) h (1, 0, 0) 3"
proof -
  let ?rs = "[(0, [1, 26] @ sample_name), (3, edit_bytes sample_logged)]"
  have "ve_compact_pointers sample_logged = []"
    by (simp add: sample_logged_def sample_add_def SetLastSequence_def SetNextFile_def SetPrevLogNumber_def SetLogNumber_def AddFile_def make_VersionEdit_def)
  then have p: "edit_pointers [sample_logged] q = q" for q by (simp add: edit_pointers_def)
  have "descriptor_holds posix_files posix_opened posix_healthy vs e ?rs"
    using posix.LogAndApply_first [OF sample_env_ok(1) _ _ l refl]
    by (simp add: sample_set_simps sample_env_ok p sample_snapshot)
  from posix.destroy_holds [OF this, of "[]"] obtain h' where
    "PosixEnv_NewSequentialFile all_calls [] (DescriptorFileName (str ''d'') 2) (VersionSet_destroy sample_ops vs e) = (None, Some h')"
    "fl_rest (ps_file h') = records_layout 0 ?rs" "\<not> fl_fails (ps_file h')"
    unfolding vs by (auto simp: posix_ops_def)
  then have "\<not> fl_fails (ps_file h)" "fl_rest (ps_file h) = records_layout 0 ?rs" using h by simp_all
  from posix.checksums_match [OF this _ sample_length sample_crcs, of "[]" 0 0]
  show ?thesis by (simp add: posix_ops_def numeral_3_eq_3)
qed


end
