(* ===== verification/Spec2Isabelle.thy ===== *)
theory Spec2Isabelle
  imports Filter_Block Manifest
begin

text \<open>
  A model of LevelDB: keys and coding, the skip list, the memtable.
\<close>

end
